(* ===== verification/Gate_Prelude.thy ===== *)
theory Gate_Prelude
  imports Main "HOL-Library.Word" "HOL-Library.Monad_Syntax" "HOL-Library.Sublist"
    "HOL-Library.List_Lexorder" "HOL-Library.Char_ord" "HOL-Library.Multiset"
begin

text \<open>
  Shared vocabulary of the development.  Go strings and byte slices are byte
  lists (type \<open>string\<close>, one \<open>char\<close> per byte).  The functions below are the
  parts of Go's \<open>strings\<close>, \<open>bytes\<close> and \<open>sort\<close> packages that the sources
  call, written as executable list functions.  Case mapping and white space
  are those of ASCII: bytes from 0x80 on are left alone, so the model speaks
  about strings whose letters are ASCII.  A Go panic (index out of range, nil
  dereference) is the value \<open>None\<close> of an option result.
\<close>

named_theorems gate_simps \<open>unfolding rules of the string helpers\<close>

type_synonym bytes = string

section \<open>Characters\<close>

abbreviation dot :: char where "dot \<equiv> CHR ''.''"
abbreviation slash :: char where "slash \<equiv> CHR ''/''"
abbreviation colon :: char where "colon \<equiv> CHR '':''"
abbreviation comma :: char where "comma \<equiv> CHR '',''"
abbreviation star :: char where "star \<equiv> CHR ''*''"

definition lower_char :: "char \<Rightarrow> char" where
  "lower_char c = (if CHR ''A'' \<le> c \<and> c \<le> CHR ''Z'' then char_of (of_char c + 32 :: nat) else c)"

definition is_space :: "char \<Rightarrow> bool" where
  "is_space c = (c \<in> {CHR 0x09, CHR 0x0A, CHR 0x0B, CHR 0x0C, CHR 0x0D, CHR '' ''})"

definition is_digit :: "char \<Rightarrow> bool" where
  "is_digit c = (CHR ''0'' \<le> c \<and> c \<le> CHR ''9'')"

definition digit_val :: "char \<Rightarrow> nat" where
  "digit_val c = of_char c - 48"

section \<open>Strings\<close>

definition to_lower :: "string \<Rightarrow> string" where
  "to_lower = map lower_char"

definition equal_fold :: "string \<Rightarrow> string \<Rightarrow> bool" where
  "equal_fold a b = (to_lower a = to_lower b)"

definition trim_right_if :: "(char \<Rightarrow> bool) \<Rightarrow> string \<Rightarrow> string" where
  "trim_right_if P s = rev (dropWhile P (rev s))"

definition trim_space :: "string \<Rightarrow> string" where
  "trim_space s = trim_right_if is_space (dropWhile is_space s)"

definition trim_prefix :: "string \<Rightarrow> string \<Rightarrow> string" where
  "trim_prefix p s = (if prefix p s then drop (length p) s else s)"

definition trim_suffix :: "string \<Rightarrow> string \<Rightarrow> string" where
  "trim_suffix p s = (if suffix p s then take (length s - length p) s else s)"

text \<open>\<open>index_byte\<close> and \<open>last_index_byte\<close> return \<open>None\<close> where Go returns -1.\<close>

fun index_byte :: "string \<Rightarrow> char \<Rightarrow> nat option" where
  "index_byte [] c = None"
| "index_byte (x # xs) c = (if x = c then Some 0 else map_option Suc (index_byte xs c))"

fun last_index_byte :: "string \<Rightarrow> char \<Rightarrow> nat option" where
  "last_index_byte [] c = None"
| "last_index_byte (x # xs) c =
     (case last_index_byte xs c of
        Some i \<Rightarrow> Some (Suc i)
      | None \<Rightarrow> (if x = c then Some 0 else None))"

fun index_of :: "string \<Rightarrow> string \<Rightarrow> nat option" where
  "index_of s p =
     (if prefix p s then Some 0
      else (case s of [] \<Rightarrow> None | x # xs \<Rightarrow> map_option Suc (index_of xs p)))"

declare index_of.simps [simp del]

fun split_on :: "char \<Rightarrow> string \<Rightarrow> string list" where
  "split_on c [] = [[]]"
| "split_on c (x # xs) =
     (if x = c then [] # split_on c xs
      else (case split_on c xs of [] \<Rightarrow> [[x]] | w # ws \<Rightarrow> (x # w) # ws))"

text \<open>\<open>strings.FieldsFunc\<close> for a one-byte separator: the non-empty runs between separators.\<close>

definition fields_on :: "char \<Rightarrow> string \<Rightarrow> string list" where
  "fields_on c s = filter (\<lambda>w. w \<noteq> []) (split_on c s)"

fun join_with :: "char \<Rightarrow> string list \<Rightarrow> string" where
  "join_with c [] = []"
| "join_with c [w] = w"
| "join_with c (w # v # ws) = w @ c # join_with c (v # ws)"

text \<open>Slice and array reads: \<open>None\<close> is the run-time panic.\<close>

definition at :: "'a list \<Rightarrow> nat \<Rightarrow> 'a option" where
  "at xs i = (if i < length xs then Some (xs ! i) else None)"

text \<open>A loop whose body may panic.\<close>

fun foldl_opt :: "('s \<Rightarrow> 'a \<Rightarrow> 's option) \<Rightarrow> 's \<Rightarrow> 'a list \<Rightarrow> 's option" where
  "foldl_opt f s [] = Some s"
| "foldl_opt f s (x # xs) = Option.bind (f s x) (\<lambda>s. foldl_opt f s xs)"

section \<open>Lemmas on characters\<close>

lemma of_char_lower_char:
  "(of_char (lower_char c) :: nat) =
     (if 65 \<le> (of_char c :: nat) \<and> (of_char c :: nat) \<le> 90 then of_char c + 32 else of_char c)"
proof -
  have "(CHR ''A'' \<le> c) = (65 \<le> (of_char c :: nat))" "(c \<le> CHR ''Z'') = ((of_char c :: nat) \<le> 90)"
    by (simp_all add: less_eq_char_def)
  moreover have "(of_char c :: nat) \<le> 90 \<Longrightarrow> (of_char c + 32 :: nat) mod 256 = of_char c + 32"
    by simp
  ultimately show ?thesis
    by (simp add: lower_char_def)
qed

lemma char_eqI: "(of_char c :: nat) = of_char d \<Longrightarrow> c = d"
  by simp

lemma lower_char_Char [code, simp]:
  "lower_char (Char b0 b1 b2 b3 b4 b5 b6 b7) =
     (if b6 \<and> \<not> b5 \<and> \<not> b7 \<and> (b0 \<or> b1 \<or> b2 \<or> b3 \<or> b4) \<and> \<not> (b4 \<and> b3 \<and> (b2 \<or> b1 \<and> b0))
      then Char b0 b1 b2 b3 b4 True b6 b7 else Char b0 b1 b2 b3 b4 b5 b6 b7)"
  by (rule char_eqI, simp only: of_char_lower_char)
     (cases b0; cases b1; cases b2; cases b3; cases b4; cases b5; cases b6; cases b7; simp)

lemma lower_char_idem [simp]: "lower_char (lower_char c) = lower_char c"
  by (rule char_eqI) (simp only: of_char_lower_char, simp)

lemma to_lower_idem [simp]: "to_lower (to_lower s) = to_lower s"
  by (simp add: to_lower_def)

lemma length_to_lower [simp]: "length (to_lower s) = length s"
  by (simp add: to_lower_def)

lemma to_lower_append [simp]: "to_lower (s @ t) = to_lower s @ to_lower t"
  by (simp add: to_lower_def)

lemma to_lower_Nil [simp]: "to_lower [] = []"
  by (simp add: to_lower_def)

lemma to_lower_Cons [simp]: "to_lower (c # s) = lower_char c # to_lower s"
  by (simp add: to_lower_def)

section \<open>Lemmas on splitting\<close>

lemma split_on_neq_Nil [simp]: "split_on c s \<noteq> []"
  by (cases s) (auto split: list.splits)

lemma split_on_append_sep: "split_on c (s @ c # t) = split_on c s @ split_on c t"
  by (induction s) (auto split: list.splits)

lemma split_on_no_sep: "c \<notin> set s \<Longrightarrow> split_on c s = [s]"
  by (induction s) auto

lemma fields_on_append_sep: "fields_on c (s @ c # t) = fields_on c s @ fields_on c t"
  by (simp add: fields_on_def split_on_append_sep)

lemma fields_on_no_sep: "c \<notin> set s \<Longrightarrow> fields_on c s = (if s = [] then [] else [s])"
  by (simp add: fields_on_def split_on_no_sep)

lemma split_on_sep_free: "w \<in> set (split_on c s) \<Longrightarrow> c \<notin> set w"
  by (induction s arbitrary: w) (auto split: if_splits list.splits)

lemma join_with_split_on [simp]: "join_with c (split_on c s) = s"
proof (induction s)
  case (Cons x xs)
  then show ?case by (cases "split_on c xs"; cases "tl (split_on c xs)") auto
qed simp

lemma last_index_byte_None: "last_index_byte s c = None \<longleftrightarrow> c \<notin> set s"
  by (induction s) (auto split: option.splits)

lemma last_index_byte_Some:
  "last_index_byte s c = Some i \<Longrightarrow>
     i < length s \<and> s = take i s @ c # drop (Suc i) s \<and> c \<notin> set (drop (Suc i) s)"
  by (induction s arbitrary: i) (auto split: option.splits if_splits simp: last_index_byte_None)

lemma last_index_byte_less: "last_index_byte s c = Some i \<Longrightarrow> i < length s"
  using last_index_byte_Some by blast

section \<open>Lemmas on sorting\<close>

lemma sum_list_map_sort: "sum_list (map (f :: _ \<Rightarrow> nat) (sort xs)) = sum_list (map f xs)"
  by (metis mset_map mset_sort sum_mset_sum_list)

lemma sort_nth_less:
  assumes "distinct xs" "i < j" "j < length xs"
  shows "sort xs ! i < sort xs ! j"
proof -
  have "sort xs ! i \<le> sort xs ! j"
    using assms by (intro sorted_nth_mono) auto
  moreover have "sort xs ! i \<noteq> sort xs ! j"
    using assms by (simp add: nth_eq_iff_index_eq)
  ultimately show ?thesis by simp
qed

section \<open>Lemmas on 32-bit indexes\<close>

lemma unat32_less: "unat (w :: 32 word) < 4294967296"
  by (rule order_less_le_trans [OF unsigned_less]) simp

lemma unat_of_nat32: "n < 4294967296 \<Longrightarrow> unat (of_nat n :: 32 word) = n"
  by (simp add: unsigned_of_nat take_bit_nat_eq_self)

lemma unat_add32: "unat (v :: 32 word) + unat w < 4294967296 \<Longrightarrow> unat (v + w) = unat v + unat w"
  by (simp add: unat_word_ariths)

section \<open>Lemmas on array reads\<close>

lemma at_Some_iff: "at xs i = Some x \<longleftrightarrow> i < length xs \<and> xs ! i = x"
  by (simp add: at_def)

lemma at_in_range [simp]: "i < length xs \<Longrightarrow> at xs i = Some (xs ! i)"
  by (simp add: at_def)

lemma foldl_opt_inv:
  assumes "\<And>s x. I s \<Longrightarrow> x \<in> set xs \<Longrightarrow> f s x = Some (g s x) \<and> I (g s x)" "I s"
  shows "foldl_opt f s xs = Some (foldl g s xs) \<and> I (foldl g s xs)"
  using assms by (induction xs arbitrary: s) auto

lemma foldl_opt_cong [fundef_cong]:
  "s = s' \<Longrightarrow> xs = xs' \<Longrightarrow> (\<And>s x. x \<in> set xs' \<Longrightarrow> f s x = g s x) \<Longrightarrow> foldl_opt f s xs = foldl_opt g s' xs'"
proof (induction xs arbitrary: s s' xs')
  case (Cons x xs)
  then have "xs' = x # xs" "s' = s" by simp_all
  then show ?case using Cons.IH [OF refl refl] Cons.prems(3) by (auto intro: Option.bind_cong)
qed auto

end
