(* ===== verification/Domain_Trie.thy ===== *)
theory Domain_Trie
  imports Gate_Prelude "HOL-Library.AList"
begin

text \<open>
  The domain trie of \<open>proxy/domain_rules.go\<close> (type \<open>domainTrie\<close>) and the
  \<open>DomainMatcher\<close> of \<open>proxy/matchers.go\<close>: \<open>Add\<close> grows a tree of
  \<open>builderNode\<close>s, \<open>Compile\<close> lays it out as two flat arrays with sorted
  transitions and \<open>uint32\<close> indexes, \<open>Match\<close> walks the labels of a host from
  the right with a binary search per label.  The lemmas show that the flat
  arrays represent the tree, that the search finds a label exactly when it is
  there, and so that \<open>Match\<close> answers membership of the host in the set of
  added domains and their subdomains, with no index out of range.
\<close>

section \<open>Data\<close>

record flatNode =
  fn_blocked :: bool
  firstChild :: "32 word"
  childCount :: "32 word"

record flatTransition =
  ft_label :: string
  ft_node :: "32 word"

text \<open>
  A \<open>builderNode\<close>; its Go map of children is an association list with
  distinct labels.
\<close>

datatype builderNode = BuilderNode (bn_blocked: bool) (bn_children: "(string \<times> builderNode) list")

record domainTrie =
  builderRoot :: "builderNode option"
  flatNodes :: "flatNode list"
  flatTransitions :: "flatTransition list"
  flatRootBlocked :: bool
  compiled :: bool

definition empty_domainTrie :: domainTrie where
  "empty_domainTrie = \<lparr>builderRoot = None, flatNodes = [], flatTransitions = [],
     flatRootBlocked = False, compiled = False\<rparr>"

section \<open>Normalisation of names\<close>

definition normalizedDomain :: "string \<Rightarrow> string" where
  "normalizedDomain host =
     (let host = trim_space (to_lower host);
          host = trim_prefix ''.'' host;
          host = trim_suffix ''.'' host
      in if host = '''' \<or> slash \<in> set host then '''' else host)"

definition normalizedDomainLabels :: "string \<Rightarrow> string list" where
  "normalizedDomainLabels host =
     (let host = normalizedDomain host
      in if host = '''' \<or> slash \<in> set host then [] else fields_on dot host)"

section \<open>Building the tree\<close>

text \<open>The loop of \<open>Add\<close>: the labels arrive in the order the loop visits them, last label first.\<close>

fun add_path :: "string list \<Rightarrow> builderNode \<Rightarrow> builderNode" where
  "add_path [] (BuilderNode b cs) = BuilderNode True cs"
| "add_path (l # ls) (BuilderNode b cs) =
     (let next = (case map_of cs l of None \<Rightarrow> BuilderNode False [] | Some n \<Rightarrow> n)
      in BuilderNode b (AList.update l (add_path ls next) cs))"

definition Add :: "domainTrie \<Rightarrow> string \<Rightarrow> domainTrie" where
  "Add t domain =
     (let labels = normalizedDomainLabels domain
      in if labels = [] then t
         else let root = (case builderRoot t of None \<Rightarrow> BuilderNode False [] | Some n \<Rightarrow> n)
              in t\<lparr>builderRoot := Some (add_path (rev labels) root), compiled := False\<rparr>)"

section \<open>Flattening\<close>

lemma map_of_size_builderNode:
  "map_of cs l = Some n \<Longrightarrow> size n < Suc (size_list (size_prod (\<lambda>x. 0) size) cs)"
  by (induction cs) (auto split: if_splits)

text \<open>
  \<open>buildFlat\<close> is the closure of \<open>Compile\<close>; \<open>buildChildren\<close> is its loop over
  the sorted labels, with \<open>i\<close> the index of the transition to fill.  A label
  without child (a nil dereference in the code) gives \<open>None\<close>.
\<close>

function buildFlat :: "builderNode \<Rightarrow> flatNode list \<Rightarrow> flatTransition list \<Rightarrow>
    (32 word \<times> flatNode list \<times> flatTransition list) option"
  and buildChildren :: "(string \<times> builderNode) list \<Rightarrow> string list \<Rightarrow> nat \<Rightarrow> flatNode list \<Rightarrow>
    flatTransition list \<Rightarrow> (flatNode list \<times> flatTransition list) option" where
  "buildFlat (BuilderNode b cs) nodes trs =
     (let nodeIdx = of_nat (length nodes);
          nodes = nodes @ [\<lparr>fn_blocked = b, firstChild = 0, childCount = 0\<rparr>]
      in if cs = [] then Some (nodeIdx, nodes, trs)
         else let labels = sort (map fst cs);
                  first = of_nat (length trs);
                  count = of_nat (length labels);
                  transStart = length trs;
                  trs = trs @ map (\<lambda>l. \<lparr>ft_label = l, ft_node = 0\<rparr>) labels
              in case buildChildren cs labels transStart nodes trs of
                   None \<Rightarrow> None
                 | Some (nodes, trs) \<Rightarrow>
                     (if unat nodeIdx < length nodes
                      then Some (nodeIdx,
                             nodes[unat nodeIdx := (nodes ! unat nodeIdx)\<lparr>firstChild := first, childCount := count\<rparr>],
                             trs)
                      else None))"
| "buildChildren cs [] i nodes trs = Some (nodes, trs)"
| "buildChildren cs (l # ls) i nodes trs =
     (case map_of cs l of
        None \<Rightarrow> None
      | Some child \<Rightarrow>
          (case buildFlat child nodes trs of
             None \<Rightarrow> None
           | Some (childIdx, nodes, trs) \<Rightarrow>
               (if i < length trs
                then buildChildren cs ls (Suc i) nodes (trs[i := (trs ! i)\<lparr>ft_node := childIdx\<rparr>])
                else None)))"
  by pat_completeness auto

termination
  by (relation "measures [\<lambda>x. case x of Inl (n, _) \<Rightarrow> size n | Inr (cs, _) \<Rightarrow> Suc (size_list (size_prod (\<lambda>x. 0) size) cs),
        \<lambda>x. case x of Inl _ \<Rightarrow> Suc 0 | Inr (_, ls, _) \<Rightarrow> 0,
        \<lambda>x. case x of Inl _ \<Rightarrow> 0 | Inr (_, ls, _) \<Rightarrow> length ls]")
     (auto dest: map_of_size_builderNode)

definition Compile :: "domainTrie \<Rightarrow> domainTrie option" where
  "Compile t =
     (if compiled t then Some t
      else case builderRoot t of
        None \<Rightarrow> Some (t\<lparr>compiled := True\<rparr>)
      | Some root \<Rightarrow>
          (case buildFlat root [] [] of
             None \<Rightarrow> None
           | Some (_, nodes, trs) \<Rightarrow>
               Some (t\<lparr>flatNodes := nodes, flatTransitions := trs,
                       flatRootBlocked := bn_blocked root, builderRoot := None, compiled := True\<rparr>)))"

section \<open>Matching\<close>

lemma word_mid_less:
  assumes "(low :: 32 word) < high"
  shows "unat (low + (high - low) div 2) = unat low + (unat high - unat low) div 2"
proof -
  have d: "unat (high - low) = unat high - unat low"
    using assms by (simp add: unat_sub less_imp_le)
  have "unat low + (unat high - unat low) div 2 < 2 ^ 32"
    using assms unat32_less [of high] by (simp add: word_less_nat_alt)
  then have "unat (low + (high - low) div 2) = unat low + unat ((high - low) div 2)"
    by (subst unat_add_lem [THEN iffD1]) (simp_all add: unat_div d)
  then show ?thesis by (simp add: unat_div d)
qed

function binarySearchTransition ::
  "flatTransition list \<Rightarrow> 32 word \<Rightarrow> 32 word \<Rightarrow> string \<Rightarrow> 32 word option option" where
  "binarySearchTransition trs low high label =
     (if low < high
      then let mid = low + (high - low) div 2
           in case at trs (unat mid) of
                None \<Rightarrow> None
              | Some tr \<Rightarrow>
                  (if ft_label tr = label then Some (Some mid)
                   else if ft_label tr < label then binarySearchTransition trs (mid + 1) high label
                   else binarySearchTransition trs low mid label)
      else Some None)"
  by pat_completeness auto

termination
proof (relation "measure (\<lambda>(trs, low, high, label). unat high - unat low)", goal_cases)
  case 1
  then show ?case by simp
next
  case (2 trs low high label mid tr)
  then have m: "unat mid = unat low + (unat high - unat low) div 2" "unat low < unat high"
    using word_mid_less by (auto simp: word_less_nat_alt)
  then have "unat mid < unat high" by linarith
  then have "unat (mid + 1) = Suc (unat mid)"
    using unat32_less [of high] by (simp add: unat_word_ariths word_less_nat_alt)
  then show ?case using m by simp
next
  case (3 trs low high label mid tr)
  then have m: "unat mid = unat low + (unat high - unat low) div 2" "unat low < unat high"
    using word_mid_less by (auto simp: word_less_nat_alt)
  then show ?case by auto
qed

declare binarySearchTransition.simps [simp del]

text \<open>
  The loop of \<open>Match\<close> over \<open>host[:end]\<close> from node \<open>nodeIdx\<close>: \<open>rest\<close> is the
  part of the host to the left of \<open>end\<close>.
\<close>

function matchLoop :: "flatNode list \<Rightarrow> flatTransition list \<Rightarrow> 32 word \<Rightarrow> string \<Rightarrow> bool option" where
  "matchLoop nodes trs nodeIdx rest =
     (if rest = [] then map_option fn_blocked (at nodes (unat nodeIdx))
      else let (label, rest') =
                 (case last_index_byte rest dot of
                    None \<Rightarrow> (rest, [])
                  | Some start \<Rightarrow> (drop (Suc start) rest, take start rest))
           in if label = '''' then matchLoop nodes trs nodeIdx rest'
              else do {
                node \<leftarrow> at nodes (unat nodeIdx);
                if childCount node = 0 then Some False
                else do {
                  found \<leftarrow> binarySearchTransition trs (firstChild node) (firstChild node + childCount node) label;
                  case found of
                    None \<Rightarrow> Some False
                  | Some foundIdx \<Rightarrow> do {
                      tr \<leftarrow> at trs (unat foundIdx);
                      next \<leftarrow> at nodes (unat (ft_node tr));
                      if fn_blocked next then Some True
                      else matchLoop nodes trs (ft_node tr) rest'
                    }
                }
              })"
  by pat_completeness auto

termination
  by (relation "measure (\<lambda>(nodes, trs, idx, rest). length rest)")
     (auto split: option.splits if_splits dest: last_index_byte_less)

declare matchLoop.simps [simp del]

definition matchCompiled :: "domainTrie \<Rightarrow> string \<Rightarrow> bool option" where
  "matchCompiled t host =
     (let host = normalizedDomain host
      in if host = '''' then Some False
         else if flatRootBlocked t then Some True
         else if flatNodes t = [] then Some False
         else matchLoop (flatNodes t) (flatTransitions t) 0 host)"

text \<open>\<open>Match\<close> compiles a trie that is not compiled yet, so it returns the trie as well.\<close>

definition Match :: "domainTrie \<Rightarrow> string \<Rightarrow> (domainTrie \<times> bool) option" where
  "Match t host = do { t \<leftarrow> Compile t; r \<leftarrow> matchCompiled t host; Some (t, r) }"

section \<open>The public matcher of matchers.go\<close>

record DomainMatcher =
  dm_trie :: domainTrie

definition NewDomainMatcher :: "string list \<Rightarrow> DomainMatcher option" where
  "NewDomainMatcher domains = do {
     t \<leftarrow> Compile (foldl (\<lambda>t d. Add t (trim_prefix ''*.'' d)) empty_domainTrie domains);
     Some \<lparr>dm_trie = t\<rparr> }"

definition DomainMatcher_Match :: "DomainMatcher option \<Rightarrow> string \<Rightarrow> bool option" where
  "DomainMatcher_Match m host =
     (case m of None \<Rightarrow> Some False | Some m \<Rightarrow> map_option snd (Match (dm_trie m) host))"

section \<open>The tree as a set of label paths\<close>

fun bn_nodes :: "builderNode \<Rightarrow> nat" where
  "bn_nodes (BuilderNode b cs) = Suc (sum_list (map (\<lambda>p. bn_nodes (snd p)) cs))"

fun wf_bn :: "builderNode \<Rightarrow> bool" where
  "wf_bn (BuilderNode b cs) = (distinct (map fst cs) \<and> (\<forall>p\<in>set cs. wf_bn (snd p)))"

text \<open>Abstract matching on the tree: some node on the path, the root included, is marked.\<close>

fun bn_match :: "builderNode \<Rightarrow> string list \<Rightarrow> bool" where
  "bn_match (BuilderNode b cs) ls =
     (b \<or> (case ls of [] \<Rightarrow> False
            | l # ls \<Rightarrow> (case map_of cs l of None \<Rightarrow> False | Some n \<Rightarrow> bn_match n ls)))"

declare bn_match.simps [simp del]

lemma bn_match_Nil [simp]: "bn_match n [] = bn_blocked n"
  by (cases n) (simp add: bn_match.simps)

lemma bn_match_Cons:
  "bn_match n (l # ls) =
     (bn_blocked n \<or> (\<exists>c. map_of (bn_children n) l = Some c \<and> bn_match c ls))"
  by (cases n) (auto simp: bn_match.simps split: option.splits)

lemma bn_match_leaf [simp]: "bn_match (BuilderNode False []) ls = False"
  by (cases ls) (simp_all add: bn_match.simps)

lemma bn_match_add_path: "bn_match (add_path p n) ls = (prefix p ls \<or> bn_match n ls)"
proof (induction p n arbitrary: ls rule: add_path.induct)
  case (1 b cs)
  then show ?case by (cases ls) (simp_all add: bn_match.simps)
next
  case (2 l ls' b cs)
  then show ?case
    by (cases ls) (auto simp: bn_match_Cons update_conv' Let_def split: option.splits)
qed

lemma bn_blocked_add_path [simp]: "bn_blocked (add_path p n) = (p = [] \<or> bn_blocked n)"
  by (induction p n rule: add_path.induct) (auto simp: Let_def)

lemma wf_bn_add_path: "wf_bn n \<Longrightarrow> wf_bn (add_path p n)"
proof (induction p n rule: add_path.induct)
  case (2 l ls b cs)
  let ?nx = "case map_of cs l of None \<Rightarrow> BuilderNode False [] | Some n \<Rightarrow> n"
  have "wf_bn ?nx"
    using "2.prems" by (auto split: option.splits dest: map_of_SomeD)
  with 2 have "wf_bn (add_path ls ?nx)" by simp
  moreover have "set (AList.update l (add_path ls ?nx) cs) \<subseteq> insert (l, add_path ls ?nx) (set cs)"
    by (induction cs) auto
  ultimately show ?case
    using "2.prems" by (auto simp: Let_def distinct_update)
qed simp

lemma sum_nodes_update:
  "sum_list (map (\<lambda>p. bn_nodes (snd p)) (AList.update l n cs)) +
     (case map_of cs l of None \<Rightarrow> 0 | Some m \<Rightarrow> bn_nodes m) =
   sum_list (map (\<lambda>p. bn_nodes (snd p)) cs) + bn_nodes n"
  by (induction cs) (auto split: option.splits)

lemma bn_nodes_add_path: "bn_nodes (add_path p n) \<le> bn_nodes n + length p"
proof (induction p n rule: add_path.induct)
  case (2 l ls b cs)
  then show ?case
    using sum_nodes_update [of l "add_path ls (case map_of cs l of None \<Rightarrow> BuilderNode False [] | Some n \<Rightarrow> n)" cs]
    by (auto simp: Let_def split: option.splits)
qed simp

lemma bn_nodes_pos: "0 < bn_nodes n"
  by (cases n) simp

section \<open>Flat arrays represent the tree\<close>

text \<open>
  \<open>flat_repr ns ts n0 t0 i n\<close>: node \<open>i\<close> of the arrays represents the subtree
  \<open>n\<close>, and only node indexes from \<open>n0\<close> and transition indexes from \<open>t0\<close> on
  are involved.
\<close>

inductive flat_repr :: "flatNode list \<Rightarrow> flatTransition list \<Rightarrow> nat \<Rightarrow> nat \<Rightarrow> nat \<Rightarrow> builderNode \<Rightarrow> bool"
  for ns ts n0 t0 where
  flat_reprI:
  "\<lbrakk> n0 \<le> i; i < length ns; fn_blocked (ns ! i) = b; unat (childCount (ns ! i)) = length cs;
     cs \<noteq> [] \<Longrightarrow> t0 \<le> unat (firstChild (ns ! i));
     unat (firstChild (ns ! i)) + length cs \<le> length ts;
     \<And>k. k < length cs \<Longrightarrow>
       ft_label (ts ! (unat (firstChild (ns ! i)) + k)) = sort (map fst cs) ! k \<and>
       (\<exists>c. map_of cs (sort (map fst cs) ! k) = Some c \<and>
            flat_repr ns ts n0 t0 (unat (ft_node (ts ! (unat (firstChild (ns ! i)) + k)))) c) \<rbrakk>
   \<Longrightarrow> flat_repr ns ts n0 t0 i (BuilderNode b cs)"

inductive_cases flat_reprE: "flat_repr ns ts n0 t0 i (BuilderNode b cs)"

lemma flat_repr_extend:
  assumes "flat_repr ns ts n0 t0 i n"
    and "\<And>j. n0 \<le> j \<Longrightarrow> j < length ns \<Longrightarrow> j < length ns' \<and> ns' ! j = ns ! j"
    and "\<And>j. t0 \<le> j \<Longrightarrow> j < length ts \<Longrightarrow> j < length ts' \<and> ts' ! j = ts ! j"
    and "length ts \<le> length ts'" and "n0' \<le> n0" and "t0' \<le> t0"
  shows "flat_repr ns' ts' n0' t0' i n"
  using assms(1)
proof induction
  case (flat_reprI i b cs)
  note n = assms(2) [OF flat_reprI(1,2)]
  have t: "ts' ! (unat (firstChild (ns ! i)) + k) = ts ! (unat (firstChild (ns ! i)) + k)"
    if "k < length cs" for k
  proof -
    have "cs \<noteq> []" using that by auto
    then show ?thesis using that flat_reprI(5,6) assms(3) by simp
  qed
  show ?case
  proof (rule flat_repr.flat_reprI)
    show "n0' \<le> i" "i < length ns'" "fn_blocked (ns' ! i) = b" "unat (childCount (ns' ! i)) = length cs"
      using n flat_reprI assms by auto
    show "t0' \<le> unat (firstChild (ns' ! i))" if "cs \<noteq> []"
      using that n flat_reprI(5) assms by auto
    show "unat (firstChild (ns' ! i)) + length cs \<le> length ts'"
      using n flat_reprI(6) assms by auto
  qed (use t n flat_reprI(7) in auto)
qed

abbreviation child_nodes :: "(string \<times> builderNode) list \<Rightarrow> string list \<Rightarrow> nat" where
  "child_nodes cs ls \<equiv> sum_list (map (\<lambda>l. bn_nodes (the (map_of cs l))) ls)"

lemma child_nodes_sorted:
  assumes "distinct (map fst cs)"
  shows "child_nodes cs (sort (map fst cs)) = sum_list (map (\<lambda>p. bn_nodes (snd p)) cs)"
proof -
  have "child_nodes cs (sort (map fst cs)) = child_nodes cs (map fst cs)"
    by (rule sum_list_map_sort)
  also have "\<dots> = sum_list (map (\<lambda>p. bn_nodes (snd p)) cs)"
    using assms by (auto simp: comp_def intro!: arg_cong [where f = sum_list])
  finally show ?thesis .
qed

text \<open>What \<open>buildFlat\<close> and \<open>buildChildren\<close> guarantee as long as the indexes fit in 32 bits.\<close>

definition flat_ok :: "builderNode \<Rightarrow> flatNode list \<Rightarrow> flatTransition list \<Rightarrow> bool" where
  "flat_ok n ns ts =
     (\<exists>ns' ts'. buildFlat n ns ts = Some (of_nat (length ns), ns', ts') \<and>
        length ns' = length ns + bn_nodes n \<and> Suc (length ts') = length ts + bn_nodes n \<and>
        take (length ns) ns' = ns \<and> take (length ts) ts' = ts \<and>
        flat_repr ns' ts' (length ns) (length ts) (length ns) n)"

definition children_ok :: "(string \<times> builderNode) list \<Rightarrow> string list \<Rightarrow> nat \<Rightarrow> flatNode list \<Rightarrow>
    flatTransition list \<Rightarrow> bool" where
  "children_ok cs ls i ns ts =
     (\<exists>ns' ts'. buildChildren cs ls i ns ts = Some (ns', ts') \<and>
        length ns' = length ns + child_nodes cs ls \<and>
        length ts' + length ls = length ts + child_nodes cs ls \<and>
        take (length ns) ns' = ns \<and>
        (\<forall>j<length ts. \<not> (i \<le> j \<and> j < i + length ls) \<longrightarrow> ts' ! j = ts ! j) \<and>
        (\<forall>k<length ls. ft_label (ts' ! (i + k)) = ft_label (ts ! (i + k)) \<and>
           flat_repr ns' ts' (length ns) (length ts) (unat (ft_node (ts' ! (i + k)))) (the (map_of cs (ls ! k)))))"

lemma nth_of_take_eq: "take (length xs) ys = xs \<Longrightarrow> j < length xs \<Longrightarrow> ys ! j = xs ! j"
  by (metis nth_take)

lemma length_le_of_take_eq: "take (length xs) ys = xs \<Longrightarrow> length xs \<le> length ys"
  by (metis length_take min.cobounded2 min.commute)

lemma child_nodes_ge: "length ls \<le> child_nodes cs ls"
proof (induction ls)
  case (Cons l ls)
  then show ?case using bn_nodes_pos [of "the (map_of cs l)"] by simp
qed simp

lemma children_ok_step:
  assumes child: "map_of cs l = Some c" "flat_ok c ns ts"
    and rest: "\<And>ns1 ts1 j. buildFlat c ns ts = Some (j, ns1, ts1) \<Longrightarrow>
      children_ok cs ls (Suc i) ns1 (ts1[i := (ts1 ! i)\<lparr>ft_node := j\<rparr>])"
    and range: "i + length (l # ls) \<le> length ts" and fits: "length ns < 4294967296"
  shows "children_ok cs (l # ls) i ns ts"
proof -
  obtain ns1 ts1 where b: "buildFlat c ns ts = Some (of_nat (length ns), ns1, ts1)"
    and l1: "length ns1 = length ns + bn_nodes c" "Suc (length ts1) = length ts + bn_nodes c"
    and t1: "take (length ns) ns1 = ns" "take (length ts) ts1 = ts"
    and r1: "flat_repr ns1 ts1 (length ns) (length ts) (length ns) c"
    using child(2) unfolding flat_ok_def by blast
  let ?tr = "(ts1 ! i)\<lparr>ft_node := of_nat (length ns)\<rparr>" and ?ts2 = "ts1[i := (ts1 ! i)\<lparr>ft_node := of_nat (length ns)\<rparr>]"
  have le: "length ts \<le> length ts1" using t1(2) by (rule length_le_of_take_eq)
  have i: "i < length ts1" using le range by simp
  obtain ns' ts' where b': "buildChildren cs ls (Suc i) ns1 ?ts2 = Some (ns', ts')"
    and l': "length ns' = length ns1 + child_nodes cs ls" "length ts' + length ls = length ts1 + child_nodes cs ls"
    and t': "take (length ns1) ns' = ns1"
    and keep: "\<And>j. j < length ts1 \<Longrightarrow> \<not> (Suc i \<le> j \<and> j < Suc i + length ls) \<Longrightarrow> ts' ! j = ?ts2 ! j"
    and lab: "\<And>k. k < length ls \<Longrightarrow> ft_label (ts' ! (Suc i + k)) = ft_label (?ts2 ! (Suc i + k))"
    and rp: "\<And>k. k < length ls \<Longrightarrow> flat_repr ns' ts' (length ns1) (length ts1)
               (unat (ft_node (ts' ! (Suc i + k)))) (the (map_of cs (ls ! k)))"
    using rest [OF b] unfolding children_ok_def by auto
  have len': "length ts1 \<le> length ts'" using l'(2) child_nodes_ge [of ls cs] by linarith
  have ns1_ns': "j < length ns' \<and> ns' ! j = ns1 ! j" if "j < length ns1" for j
    using nth_of_take_eq [OF t' that] l'(1) that by simp
  have at_i: "ts' ! i = ?tr" using keep [of i] i by simp
  have lab1: "ft_label (ts1 ! j) = ft_label (ts ! j)" if "j < length ts" for j
    using nth_of_take_eq [OF t1(2) that] by simp
  have first: "flat_repr ns' ts' (length ns) (length ts) (length ns) c"
  proof (rule flat_repr_extend [OF r1])
    show "j < length ts' \<and> ts' ! j = ts1 ! j" if "length ts \<le> j" "j < length ts1" for j
      using that keep [of j] range len' by auto
  qed (use ns1_ns' len' in auto)
  have others: "flat_repr ns' ts' (length ns) (length ts) (unat (ft_node (ts' ! (Suc i + k)))) (the (map_of cs (ls ! k)))"
    if "k < length ls" for k
    by (rule flat_repr_extend [OF rp [OF that]]) (use l1 le in auto)
  have "take (length ns) ns' = ns"
    using t' t1(1) l1(1) by (metis le_add1 min.absorb1 take_take)
  moreover have "ts' ! j = ts ! j" if "j < length ts" "\<not> (i \<le> j \<and> j < i + length (l # ls))" for j
    using that keep [of j] nth_of_take_eq [OF t1(2), of j] le by auto
  moreover have "ft_label (ts' ! (i + k)) = ft_label (ts ! (i + k)) \<and>
      flat_repr ns' ts' (length ns) (length ts) (unat (ft_node (ts' ! (i + k)))) (the (map_of cs ((l # ls) ! k)))"
    if "k < length (l # ls)" for k
  proof (cases k)
    case 0
    then show ?thesis using at_i first lab1 [of i] range fits child(1) by (simp add: unat_of_nat32)
  next
    case (Suc m)
    then show ?thesis using that others [of m] lab [of m] lab1 [of "Suc (i + m)"] range by simp
  qed
  ultimately show ?thesis
    unfolding children_ok_def using b b' i child(1) l' l1
    by (intro exI [of _ ns'] exI [of _ ts']) auto
qed

lemma flat_ok_node:
  assumes wf: "distinct (map fst cs)"
    and children: "cs \<noteq> [] \<Longrightarrow> children_ok cs (sort (map fst cs)) (length ts) (ns @ [\<lparr>fn_blocked = b, firstChild = 0, childCount = 0\<rparr>])
       (ts @ map (\<lambda>l. \<lparr>ft_label = l, ft_node = 0\<rparr>) (sort (map fst cs)))"
    and fits: "length ns + bn_nodes (BuilderNode b cs) \<le> 4294967296" "length ts + bn_nodes (BuilderNode b cs) \<le> 4294967297"
  shows "flat_ok (BuilderNode b cs) ns ts"
proof (cases "cs = []")
  case True
  then show ?thesis
    by (auto simp: flat_ok_def Let_def intro!: flat_reprI)
next
  case False
  let ?ls = "sort (map fst cs)" and ?n0 = "\<lparr>fn_blocked = b, firstChild = 0, childCount = 0\<rparr>"
  let ?ts0 = "ts @ map (\<lambda>l. \<lparr>ft_label = l, ft_node = 0\<rparr>) ?ls"
  have cn: "child_nodes cs ?ls = sum_list (map (\<lambda>p. bn_nodes (snd p)) cs)"
    using wf by (rule child_nodes_sorted)
  have lenle: "length cs \<le> child_nodes cs ?ls" using child_nodes_ge [of ?ls cs] by simp
  obtain ns' ts' where b': "buildChildren cs ?ls (length ts) (ns @ [?n0]) ?ts0 = Some (ns', ts')"
    and len: "length ns' = Suc (length ns) + child_nodes cs ?ls" "length ts' = length ts + child_nodes cs ?ls"
    and keep: "take (Suc (length ns)) ns' = ns @ [?n0]"
    and old: "\<And>j. j < length ts \<Longrightarrow> ts' ! j = ts ! j"
    and lab: "\<And>k. k < length cs \<Longrightarrow> ft_label (ts' ! (length ts + k)) = ?ls ! k"
    and rp: "\<And>k. k < length cs \<Longrightarrow> flat_repr ns' ts' (Suc (length ns)) (length ts + length cs)
                (unat (ft_node (ts' ! (length ts + k)))) (the (map_of cs (?ls ! k)))"
    using children [OF False] unfolding children_ok_def by (auto simp: nth_append)
  have "0 < length cs" using False by simp
  then have nfit: "length ns < 4294967296" "length ts < 4294967296" "length cs < 4294967296"
    using fits cn lenle by (simp_all del: length_greater_0_conv)
  let ?node = "(ns' ! length ns)\<lparr>firstChild := of_nat (length ts), childCount := of_nat (length cs)\<rparr>"
  let ?ns2 = "ns'[length ns := ?node]"
  have nodeb: "fn_blocked (ns' ! length ns) = b"
    using nth_of_take_eq [of "ns @ [?n0]" ns' "length ns"] keep by simp
  have bf: "buildFlat (BuilderNode b cs) ns ts = Some (of_nat (length ns), ?ns2, ts')"
    using False b' len nfit by (simp add: Let_def unat_of_nat32)
  have ch: "flat_repr ?ns2 ts' (length ns) (length ts) (unat (ft_node (ts' ! (length ts + k)))) (the (map_of cs (?ls ! k)))"
    if "k < length cs" for k
    by (rule flat_repr_extend [OF rp [OF that]]) auto
  have mo: "map_of cs (?ls ! k) = Some (the (map_of cs (?ls ! k)))" if "k < length cs" for k
  proof -
    have "?ls ! k \<in> set ?ls" using that by (intro nth_mem) simp
    then show ?thesis by (metis domIff dom_map_of_conv_image_fst list.set_map option.collapse set_sort)
  qed
  have "flat_repr ?ns2 ts' (length ns) (length ts) (length ns) (BuilderNode b cs)"
    by (rule flat_reprI) (use len nfit lenle nodeb lab ch mo in \<open>auto simp: unat_of_nat32\<close>)
  moreover have "take (length ns) ?ns2 = ns"
    using keep by (metis append_eq_conv_conj length_append_singleton lessI take_take min.strict_order_iff take_update_cancel order_refl butlast_snoc butlast_take diff_Suc_1 len(1) le_add1 add_Suc)
  moreover have "take (length ts) ts' = ts"
    using old len(2) by (intro nth_equalityI) auto
  ultimately show ?thesis
    unfolding flat_ok_def using bf len cn by (intro exI [of _ ?ns2] exI [of _ ts']) auto
qed

lemma buildFlat_ok:
  shows "wf_bn n \<Longrightarrow> length ns + bn_nodes n \<le> 4294967296 \<Longrightarrow> length ts + bn_nodes n \<le> 4294967297 \<Longrightarrow> flat_ok n ns ts"
    and "\<forall>l\<in>set ls. \<exists>c. map_of cs l = Some c \<and> wf_bn c \<Longrightarrow> i + length ls \<le> length ts \<Longrightarrow>
      length ns + child_nodes cs ls \<le> 4294967296 \<Longrightarrow> length ts + child_nodes cs ls \<le> 4294967296 + length ls \<Longrightarrow>
      children_ok cs ls i ns ts"
proof (induction n ns ts and cs ls i ns ts rule: buildFlat_buildChildren.induct)
  case (1 b cs nodes trs)
  let ?ls = "sort (map fst cs)"
  have cn: "child_nodes cs ?ls = sum_list (map (\<lambda>p. bn_nodes (snd p)) cs)"
    using "1.prems"(1) by (simp add: child_nodes_sorted)
  have ex: "\<forall>l\<in>set ?ls. \<exists>c. map_of cs l = Some c \<and> wf_bn c"
    using "1.prems"(1) by fastforce
  show ?case
  proof (rule flat_ok_node)
    show "children_ok cs ?ls (length trs) (nodes @ [\<lparr>fn_blocked = b, firstChild = 0, childCount = 0\<rparr>])
       (trs @ map (\<lambda>l. \<lparr>ft_label = l, ft_node = 0\<rparr>) ?ls)" if "cs \<noteq> []"
      by (rule "1.IH" [OF refl refl that refl refl refl refl refl ex]) (use "1.prems" cn in auto)
  qed (use "1.prems" in auto)
next
  case (2 cs i nodes trs)
  then show ?case by (simp add: children_ok_def)
next
  case (3 cs l ls i nodes trs)
  obtain c where c: "map_of cs l = Some c" "wf_bn c" using "3.prems"(1) by auto
  have pos: "length ls \<le> child_nodes cs ls" "0 < bn_nodes c"
    using child_nodes_ge bn_nodes_pos by auto
  have fo: "flat_ok c nodes trs"
    by (rule "3.IH"(1) [OF c]) (use "3.prems" c pos in auto)
  show ?case
  proof (rule children_ok_step [OF c(1) fo])
    fix ns1 ts1 j
    assume b: "buildFlat c nodes trs = Some (j, ns1, ts1)"
    then have len: "length ns1 = length nodes + bn_nodes c" "Suc (length ts1) = length trs + bn_nodes c"
      using fo unfolding flat_ok_def by auto
    have "i < length ts1" using len "3.prems"(2) pos by auto
    then show "children_ok cs ls (Suc i) ns1 (ts1[i := (ts1 ! i)\<lparr>ft_node := j\<rparr>])"
      by (intro "3.IH"(2) [OF c(1) b refl refl]) (use "3.prems" c len pos in auto)
  qed (use "3.prems" pos c in auto)
qed

section \<open>Matching agrees with the tree\<close>

definition search_ok :: "flatTransition list \<Rightarrow> 32 word \<Rightarrow> 32 word \<Rightarrow> string \<Rightarrow> 32 word option option \<Rightarrow> bool" where
  "search_ok ts low high label r =
     (case r of
        None \<Rightarrow> False
      | Some None \<Rightarrow> \<forall>a. unat low \<le> a \<and> a < unat high \<longrightarrow> ft_label (ts ! a) \<noteq> label
      | Some (Some m) \<Rightarrow> low \<le> m \<and> m < high \<and> ft_label (ts ! unat m) = label)"

lemma binarySearchTransition_ok:
  assumes "unat high \<le> length ts"
    and "\<And>a b. unat low \<le> a \<Longrightarrow> a < b \<Longrightarrow> b < unat high \<Longrightarrow> ft_label (ts ! a) < ft_label (ts ! b)"
  shows "search_ok ts low high label (binarySearchTransition ts low high label)"
  using assms
proof (induction ts low high label rule: binarySearchTransition.induct)
  case (1 ts low high label)
  show ?case
  proof (cases "low < high")
    case False
    then show ?thesis
      by (subst binarySearchTransition.simps) (auto simp: search_ok_def word_less_nat_alt)
  next
    case True
    let ?mid = "low + (high - low) div 2" and ?bs = "binarySearchTransition ts"
    have mid: "unat ?mid = unat low + (unat high - unat low) div 2" using True by (rule word_mid_less)
    have lt: "unat low < unat high" using True by (simp add: word_less_nat_alt)
    have mh: "unat low \<le> unat ?mid" "unat ?mid < unat high" using mid lt by linarith+
    have suc: "unat (?mid + 1) = Suc (unat ?mid)"
      using mh(2) unat32_less [of high] by (simp add: unat_add32)
    have atm: "at ts (unat ?mid) = Some (ts ! unat ?mid)" using mh "1.prems"(1) by simp
    let ?l = "ft_label (ts ! unat ?mid)"
    consider "?l = label" | "?l \<noteq> label" "?l < label" | "?l \<noteq> label" "\<not> ?l < label" by blast
    then show ?thesis
    proof cases
      case 1
      then show ?thesis using True atm mh
        by (subst binarySearchTransition.simps) (simp add: search_ok_def Let_def word_less_nat_alt word_le_nat_alt)
    next
      case 2
      have ih: "search_ok ts (?mid + 1) high label (?bs (?mid + 1) high label)"
        by (rule "1.IH"(1) [OF True refl atm 2]) (use "1.prems" suc mh in auto)
      have left: "ft_label (ts ! a) \<noteq> label" if "unat low \<le> a" "a \<le> unat ?mid" for a
        using that 2 "1.prems"(2) [of a "unat ?mid"] mh by (cases "a = unat ?mid") auto
      have "?bs low high label = ?bs (?mid + 1) high label"
        using True atm 2 by (subst binarySearchTransition.simps) (simp add: Let_def)
      then show ?thesis using ih left suc mh
        by (force simp: search_ok_def word_le_nat_alt not_less_eq_eq split: option.splits)
    next
      case 3
      have ih: "search_ok ts low ?mid label (?bs low ?mid label)"
        by (rule "1.IH"(2) [OF True refl atm 3]) (use "1.prems" mh in auto)
      have right: "ft_label (ts ! a) \<noteq> label" if "unat ?mid \<le> a" "a < unat high" for a
        using that 3 "1.prems"(2) [of "unat ?mid" a] mh by (cases "a = unat ?mid") auto
      have "?bs low high label = ?bs low ?mid label"
        using True atm 3 by (subst binarySearchTransition.simps) (simp add: Let_def)
      then show ?thesis using ih right mh
        by (force simp: search_ok_def word_less_nat_alt not_le split: option.splits)
    qed
  qed
qed

text \<open>One step of the walk: the search below a represented node finds exactly its children.\<close>

lemma child_search:
  assumes r: "flat_repr ns ts 0 0 i n" and wf: "wf_bn n" and fits: "length ts < 4294967296"
  defines "nd \<equiv> ns ! i"
  shows "case map_of (bn_children n) l of
      None \<Rightarrow> binarySearchTransition ts (firstChild nd) (firstChild nd + childCount nd) l = Some None
    | Some c \<Rightarrow> (\<exists>m. binarySearchTransition ts (firstChild nd) (firstChild nd + childCount nd) l = Some (Some m) \<and>
                     unat m < length ts \<and> flat_repr ns ts 0 0 (unat (ft_node (ts ! unat m))) c)"
proof -
  obtain b cs where n: "n = BuilderNode b cs" by (cases n)
  let ?f = "unat (firstChild nd)" and ?ls = "sort (map fst cs)"
  from r [unfolded n] have cc: "unat (childCount nd) = length cs" and seg: "?f + length cs \<le> length ts"
    and lab: "\<And>k. k < length cs \<Longrightarrow> ft_label (ts ! (?f + k)) = ?ls ! k"
    and ch: "\<And>k. k < length cs \<Longrightarrow> \<exists>c. map_of cs (?ls ! k) = Some c \<and>
               flat_repr ns ts 0 0 (unat (ft_node (ts ! (?f + k)))) c"
    unfolding nd_def by (auto elim!: flat_reprE)
  have hi: "unat (firstChild nd + childCount nd) = ?f + length cs"
    using cc seg fits by (simp add: unat_add32)
  have ok: "search_ok ts (firstChild nd) (firstChild nd + childCount nd) l
      (binarySearchTransition ts (firstChild nd) (firstChild nd + childCount nd) l)"
  proof (rule binarySearchTransition_ok)
    fix a b assume ab: "?f \<le> a" "a < b" "b < unat (firstChild nd + childCount nd)"
    have "?ls ! (a - ?f) < ?ls ! (b - ?f)"
      using ab hi wf n by (intro sort_nth_less) auto
    then show "ft_label (ts ! a) < ft_label (ts ! b)"
      using ab hi lab [of "a - ?f"] lab [of "b - ?f"] by simp
  qed (use hi seg in simp)
  show ?thesis
  proof (cases "map_of cs l")
    case None
    have "ft_label (ts ! a) \<noteq> l" if "?f \<le> a" "a < ?f + length cs" for a
    proof -
      have "a - ?f < length cs" using that by simp
      then show ?thesis using that ch [of "a - ?f"] lab [of "a - ?f"] None by auto
    qed
    then show ?thesis
      using ok hi None n by (auto simp: search_ok_def word_less_nat_alt word_le_nat_alt split: option.splits)
  next
    case (Some c)
    then have "l \<in> set ?ls" by (metis map_of_eq_None_iff option.distinct(1) set_map set_sort)
    then obtain k where k: "k < length cs" "?ls ! k = l" by (metis in_set_conv_nth length_map length_sort)
    then have hit: "ft_label (ts ! (?f + k)) = l" using lab by simp
    obtain m where m: "binarySearchTransition ts (firstChild nd) (firstChild nd + childCount nd) l = Some (Some m)"
        "?f \<le> unat m" "unat m < ?f + length cs" "ft_label (ts ! unat m) = l"
      using ok hi hit k(1) by (auto simp: search_ok_def word_less_nat_alt word_le_nat_alt split: option.splits)
    then have "flat_repr ns ts 0 0 (unat (ft_node (ts ! unat m))) c"
      using ch [of "unat m - ?f"] lab [of "unat m - ?f"] Some by auto
    then show ?thesis using m seg Some n by auto
  qed
qed

lemma fields_on_last:
  assumes "rest \<noteq> []"
  shows "fields_on dot rest =
    (case last_index_byte rest dot of
       None \<Rightarrow> [rest]
     | Some i \<Rightarrow> fields_on dot (take i rest) @ (if drop (Suc i) rest = [] then [] else [drop (Suc i) rest]))"
proof (cases "last_index_byte rest dot")
  case None
  then have "dot \<notin> set rest" by (simp add: last_index_byte_None)
  then show ?thesis using assms None by (simp add: fields_on_no_sep)
next
  case (Some i)
  note s = last_index_byte_Some [OF Some]
  have "fields_on dot rest = fields_on dot (take i rest @ dot # drop (Suc i) rest)"
    using s by (metis (full_types))
  also have "\<dots> = fields_on dot (take i rest) @ fields_on dot (drop (Suc i) rest)"
    by (rule fields_on_append_sep)
  also have "fields_on dot (drop (Suc i) rest) = (if drop (Suc i) rest = [] then [] else [drop (Suc i) rest])"
    using s by (intro fields_on_no_sep) simp
  finally show ?thesis using Some by simp
qed

lemma flat_repr_node:
  assumes "flat_repr ns ts n0 t0 i n"
  shows "i < length ns" "fn_blocked (ns ! i) = bn_blocked n" "unat (childCount (ns ! i)) = length (bn_children n)"
  using assms by (cases n; auto elim: flat_reprE)+

lemma matchLoop_step:
  assumes r: "flat_repr ns ts 0 0 (unat idx) n" and wf: "wf_bn n" and fits: "length ts < 4294967296"
    and ne: "rest \<noteq> []" and split: "(label, rest') = (case last_index_byte rest dot of
        None \<Rightarrow> (rest, []) | Some start \<Rightarrow> (drop (Suc start) rest, take start rest))" and lab: "label \<noteq> []"
  shows "case map_of (bn_children n) label of
      None \<Rightarrow> matchLoop ns ts idx rest = Some False
    | Some c \<Rightarrow> (\<exists>idx'. flat_repr ns ts 0 0 (unat idx') c \<and>
        matchLoop ns ts idx rest = (if bn_blocked c then Some True else matchLoop ns ts idx' rest'))"
proof -
  let ?nd = "ns ! unat idx"
  have nd: "at ns (unat idx) = Some ?nd" using flat_repr_node [OF r] by simp
  have loop: "matchLoop ns ts idx rest =
      (if childCount ?nd = 0 then Some False
       else do { found \<leftarrow> binarySearchTransition ts (firstChild ?nd) (firstChild ?nd + childCount ?nd) label;
         case found of None \<Rightarrow> Some False
         | Some foundIdx \<Rightarrow> do { tr \<leftarrow> at ts (unat foundIdx); next \<leftarrow> at ns (unat (ft_node tr));
             if fn_blocked next then Some True else matchLoop ns ts (ft_node tr) rest' } })"
    using ne nd lab by (subst matchLoop.simps) (simp flip: split)
  show ?thesis
  proof (cases "map_of (bn_children n) label")
    case None
    then show ?thesis using child_search [OF r wf fits, of label] loop by simp
  next
    case (Some c)
    then have "childCount ?nd \<noteq> 0"
      using flat_repr_node(3) [OF r] by (metis length_0_conv map_of.simps(1) option.distinct(1) unsigned_0)
    moreover obtain m where "binarySearchTransition ts (firstChild ?nd) (firstChild ?nd + childCount ?nd) label = Some (Some m)"
        "unat m < length ts" "flat_repr ns ts 0 0 (unat (ft_node (ts ! unat m))) c"
      using child_search [OF r wf fits, of label] Some by auto
    ultimately show ?thesis
      using loop Some flat_repr_node by (auto intro!: exI [of _ "ft_node (ts ! unat m)"])
  qed
qed

lemma matchLoop_ok:
  assumes "flat_repr ns ts 0 0 (unat idx) n" "wf_bn n" "length ts < 4294967296" "\<not> bn_blocked n"
  shows "matchLoop ns ts idx rest = Some (bn_match n (rev (fields_on dot rest)))"
  using assms
proof (induction "length rest" arbitrary: rest idx n rule: less_induct)
  case less
  show ?case
  proof (cases "rest = []")
    case True
    then show ?thesis using less.prems flat_repr_node [OF less.prems(1)]
      by (subst matchLoop.simps) (simp add: fields_on_def)
  next
    case False
    obtain label rest' where sp: "(label, rest') = (case last_index_byte rest dot of
        None \<Rightarrow> (rest, []) | Some start \<Rightarrow> (drop (Suc start) rest, take start rest))"
      by (metis prod.exhaust)
    have shorter: "length rest' < length rest"
      using sp False by (auto split: option.splits dest: last_index_byte_less)
    have fl: "fields_on dot rest = fields_on dot rest' @ (if label = [] then [] else [label])"
      using sp False by (subst fields_on_last) (auto split: option.splits simp: fields_on_def)
    show ?thesis
    proof (cases "label = []")
      case True
      then have "matchLoop ns ts idx rest = matchLoop ns ts idx rest'"
        using False by (subst matchLoop.simps) (simp flip: sp)
      then show ?thesis using less.hyps [OF shorter less.prems] fl True by simp
    next
      case lab: False
      note step = matchLoop_step [OF less.prems(1-3) False sp lab]
      show ?thesis
      proof (cases "map_of (bn_children n) label")
        case None
        then show ?thesis using step fl lab less.prems(4) by (simp add: bn_match_Cons)
      next
        case (Some c)
        have wc: "wf_bn c" using less.prems(2) Some by (cases n) (auto dest: map_of_SomeD)
        obtain idx' where i: "flat_repr ns ts 0 0 (unat idx') c"
          "matchLoop ns ts idx rest = (if bn_blocked c then Some True else matchLoop ns ts idx' rest')"
          using step Some by auto
        have "bn_match c ls" if "bn_blocked c" for ls
          using that by (cases c) (simp add: bn_match.simps)
        then show ?thesis
          using i less.hyps [OF shorter i(1) wc less.prems(3)] fl lab Some less.prems(4)
          by (auto simp: bn_match_Cons)
      qed
    qed
  qed
qed

section \<open>Tries built from lists of domains\<close>

text \<open>
  The specification of the component: a host is listed when the labels of some
  added domain are a suffix of its labels, that is, when it is that domain or
  one of its subdomains.
\<close>

definition domain_listed :: "string list \<Rightarrow> string \<Rightarrow> bool" where
  "domain_listed ds host =
     list_ex (\<lambda>d. normalizedDomainLabels d \<noteq> [] \<and> suffix (normalizedDomainLabels d) (normalizedDomainLabels host)) ds"

definition label_total :: "string list \<Rightarrow> nat" where
  "label_total ds = sum_list (map (\<lambda>d. length (normalizedDomainLabels d)) ds)"

definition trie_of :: "string list \<Rightarrow> domainTrie" where
  "trie_of ds = foldl Add empty_domainTrie ds"

definition building :: "domainTrie \<Rightarrow> string list \<Rightarrow> bool" where
  "building t ds =
     (\<not> compiled t \<and> flatNodes t = [] \<and> \<not> flatRootBlocked t \<and>
      (case builderRoot t of
         None \<Rightarrow> \<forall>d\<in>set ds. normalizedDomainLabels d = []
       | Some n \<Rightarrow> wf_bn n \<and> \<not> bn_blocked n \<and> bn_nodes n \<le> Suc (label_total ds) \<and>
           (\<forall>ls. bn_match n (rev ls) =
              list_ex (\<lambda>d. normalizedDomainLabels d \<noteq> [] \<and> suffix (normalizedDomainLabels d) ls) ds)))"

lemma building_empty: "building empty_domainTrie []"
  by (simp add: building_def empty_domainTrie_def)

lemma building_Add:
  assumes "building t ds"
  shows "building (Add t d) (ds @ [d])"
proof (cases "normalizedDomainLabels d = []")
  case True
  then show ?thesis using assms
    by (auto simp: building_def Add_def label_total_def split: option.splits)
next
  case False
  let ?ls = "normalizedDomainLabels d"
  let ?root = "case builderRoot t of None \<Rightarrow> BuilderNode False [] | Some n \<Rightarrow> n"
  have root: "wf_bn ?root" "\<not> bn_blocked ?root" "bn_nodes ?root \<le> Suc (label_total ds)"
    "\<And>ls. bn_match ?root (rev ls) = list_ex (\<lambda>d. normalizedDomainLabels d \<noteq> [] \<and> suffix (normalizedDomainLabels d) ls) ds"
    using assms by (auto simp: building_def list_ex_iff split: option.splits)
  have "bn_nodes (add_path (rev ?ls) ?root) \<le> Suc (label_total (ds @ [d]))"
    using bn_nodes_add_path [of "rev ?ls" ?root] root(3) by (simp add: label_total_def)
  then show ?thesis
    using False assms root wf_bn_add_path
    by (auto simp: building_def Add_def Let_def bn_match_add_path suffix_to_prefix)
qed

lemma building_foldl: "building t ds \<Longrightarrow> building (foldl Add t es) (ds @ es)"
proof (induction es arbitrary: t ds)
  case (Cons e es)
  then show ?case using building_Add [OF Cons.prems, of e] by fastforce
qed simp

lemma building_trie_of: "building (trie_of ds) ds"
  using building_foldl [OF building_empty, of ds] by (simp add: trie_of_def)

text \<open>The state after \<open>Compile\<close>: the arrays answer for exactly the domains in \<open>ds\<close>.\<close>

definition compiled_for :: "domainTrie \<Rightarrow> string list \<Rightarrow> bool" where
  "compiled_for t ds =
     (compiled t \<and> (\<forall>host. matchCompiled t host = Some (domain_listed ds host)))"

lemma normalizedDomainLabels_Nil: "normalizedDomain host = [] \<Longrightarrow> normalizedDomainLabels host = []"
  by (simp add: normalizedDomainLabels_def)

lemma normalizedDomainLabels_fields:
  "normalizedDomainLabels host = fields_on dot (normalizedDomain host)"
  by (auto simp: normalizedDomainLabels_def normalizedDomain_def Let_def fields_on_def)

lemma Compile_ok:
  assumes "building t ds" "label_total ds < 4294967296"
  shows "\<exists>t'. Compile t = Some t' \<and> compiled_for t' ds"
proof (cases "builderRoot t")
  case None
  then show ?thesis using assms
    by (auto simp: building_def Compile_def compiled_for_def matchCompiled_def domain_listed_def list_ex_iff Let_def)
next
  case (Some n)
  have n: "wf_bn n" "\<not> bn_blocked n" "bn_nodes n \<le> Suc (label_total ds)"
    "\<And>ls. bn_match n (rev ls) = list_ex (\<lambda>d. normalizedDomainLabels d \<noteq> [] \<and> suffix (normalizedDomainLabels d) ls) ds"
    using assms Some by (auto simp: building_def)
  have "flat_ok n [] []" by (rule buildFlat_ok(1)) (use n assms in auto)
  then obtain ns ts where b: "buildFlat n [] [] = Some (0, ns, ts)" and r: "flat_repr ns ts 0 0 0 n"
    and len: "Suc (length ts) = bn_nodes n"
    unfolding flat_ok_def by auto
  have fits: "length ts < 4294967296" using len n(3) assms(2) by simp
  have "ns \<noteq> []" using flat_repr_node(1) [OF r] by auto
  moreover have "matchLoop ns ts 0 h = Some (bn_match n (rev (fields_on dot h)))" for h
    by (rule matchLoop_ok) (use r n fits in auto)
  ultimately have "matchCompiled (t\<lparr>flatNodes := ns, flatTransitions := ts,
      flatRootBlocked := bn_blocked n, builderRoot := None, compiled := True\<rparr>) host = Some (domain_listed ds host)" for host
    using n by (auto simp: matchCompiled_def Let_def domain_listed_def normalizedDomainLabels_fields fields_on_def list_ex_iff)
  then show ?thesis using Some b assms(1)
    by (simp add: Compile_def building_def compiled_for_def)
qed

lemma Match_compiled_for:
  "compiled_for t ds \<Longrightarrow> Match t host = Some (t, domain_listed ds host)"
  by (simp add: compiled_for_def Match_def Compile_def)

lemma Compile_idem: "Compile t = Some t' \<Longrightarrow> Compile t' = Some t'"
  by (auto simp: Compile_def split: if_splits option.splits)

section \<open>The interface of the trie\<close>

text \<open>
  What the callers of a domain index rely on: once it holds for a list of
  domains, it answers \<open>domain_listed\<close> and never panics.
\<close>

locale domain_index =
  fixes holds_for :: "'t \<Rightarrow> string list \<Rightarrow> bool"
    and matches :: "'t \<Rightarrow> string \<Rightarrow> bool option"
  assumes matches_listed: "holds_for t ds \<Longrightarrow> matches t host = Some (domain_listed ds host)"
begin

lemma matches_total: "holds_for t ds \<Longrightarrow> matches t host \<noteq> None"
  by (simp add: matches_listed)

lemma matches_subdomain:
  assumes "holds_for t ds" "matches t host = Some True"
    and "suffix (normalizedDomainLabels host) (normalizedDomainLabels sub)"
  shows "matches t sub = Some True"
  using assms by (auto simp: matches_listed domain_listed_def list_ex_iff dest: suffix_order.trans)

lemma matches_order:
  "holds_for t ds \<Longrightarrow> holds_for u es \<Longrightarrow> set ds = set es \<Longrightarrow> matches t host = matches u host"
  by (simp add: matches_listed domain_listed_def list_ex_iff)

lemma matches_normalized:
  "holds_for t ds \<Longrightarrow> normalizedDomain a = normalizedDomain b \<Longrightarrow> matches t a = matches t b"
  by (simp add: matches_listed domain_listed_def normalizedDomainLabels_fields)

end

interpretation trie: domain_index compiled_for "\<lambda>t host. map_option snd (Match t host)"
  by unfold_locales (simp add: Match_compiled_for)

definition matcher_for :: "DomainMatcher \<Rightarrow> string list \<Rightarrow> bool" where
  "matcher_for m ds = compiled_for (dm_trie m) (map (trim_prefix ''*.'') ds)"

lemma foldl_Add_trimmed:
  "foldl (\<lambda>t d. Add t (trim_prefix ''*.'' d)) t ds = foldl Add t (map (trim_prefix ''*.'') ds)"
  by (induction ds arbitrary: t) auto

lemma NewDomainMatcher_ok:
  assumes "label_total (map (trim_prefix ''*.'') ds) < 4294967296"
  shows "\<exists>m. NewDomainMatcher ds = Some m \<and> matcher_for m ds"
  using Compile_ok [OF building_trie_of assms]
  by (auto simp: NewDomainMatcher_def matcher_for_def foldl_Add_trimmed trie_of_def)

section \<open>Reading the label condition on names\<close>

lemma join_with_append:
  "xs \<noteq> [] \<Longrightarrow> ys \<noteq> [] \<Longrightarrow> join_with c (xs @ ys) = join_with c xs @ c # join_with c ys"
proof (induction c xs rule: join_with.induct)
  case (2 c w)
  then show ?case by (cases ys) auto
qed auto

lemma suffix_split_on:
  "suffix (split_on c d) (split_on c h) \<longleftrightarrow> h = d \<or> suffix (c # d) h"
proof
  assume "suffix (split_on c d) (split_on c h)"
  then obtain xs where xs: "split_on c h = xs @ split_on c d" by (auto simp: suffix_def)
  show "h = d \<or> suffix (c # d) h"
  proof (cases "xs = []")
    case True
    then show ?thesis using xs by (metis append_Nil join_with_split_on)
  next
    case False
    have "h = join_with c (xs @ split_on c d)" using xs by (metis join_with_split_on)
    also have "\<dots> = join_with c xs @ c # d" using False by (simp add: join_with_append)
    finally show ?thesis by (auto simp: suffix_def)
  qed
next
  assume "h = d \<or> suffix (c # d) h"
  then show "suffix (split_on c d) (split_on c h)"
    by (auto simp: suffix_def split_on_append_sep)
qed

lemma fields_on_split_on: "[] \<notin> set (split_on c s) \<Longrightarrow> fields_on c s = split_on c s"
  by (auto simp: fields_on_def filter_id_conv)

text \<open>
  C2: a trie built by adding the domains \<open>ds\<close> and compiled (flat sorted
  arrays, 32-bit indexes) matches a host exactly when some domain of the list
  equals the host or is one of its parent domains, whatever the order and the
  spelling of the entries; the walk and its binary searches never index out of
  range, and matching leaves the trie unchanged.
\<close>

theorem trie_Match_correct:
  assumes "label_total ds < 4294967296"
  shows "\<exists>t. Compile (trie_of ds) = Some t \<and> (\<forall>host. Match t host = Some (t, domain_listed ds host))"
  using Compile_ok [OF building_trie_of assms] Match_compiled_for by blast

theorem trie_Match_correct_witness:
  "\<exists>t. Compile (trie_of [''Ads.example.com'', ''.tracker.net'', ''example.org.'']) = Some t \<and>
     Match t ''x.ads.example.com'' = Some (t, True) \<and> Match t ''TRACKER.net'' = Some (t, True) \<and>
     Match t ''example.com'' = Some (t, False) \<and> Match t ''badexample.org'' = Some (t, False)"
proof -
  have "label_total [''Ads.example.com'', ''.tracker.net'', ''example.org.''] = 7"
    by code_simp
  moreover have "domain_listed [''Ads.example.com'', ''.tracker.net'', ''example.org.''] ''x.ads.example.com'' = True"
    "domain_listed [''Ads.example.com'', ''.tracker.net'', ''example.org.''] ''TRACKER.net'' = True"
    "domain_listed [''Ads.example.com'', ''.tracker.net'', ''example.org.''] ''example.com'' = False"
    "domain_listed [''Ads.example.com'', ''.tracker.net'', ''example.org.''] ''badexample.org'' = False"
    by code_simp+
  ultimately show ?thesis
    using trie_Match_correct [of "[''Ads.example.com'', ''.tracker.net'', ''example.org.'']"] by auto
qed

text \<open>
  for names without empty labels, being listed means on the strings
  themselves: the normalised host is the normalised domain, or ends in a dot
  followed by it.  In particular \<open>badexample.org\<close> is not covered by
  \<open>example.org\<close>.
\<close>

theorem domain_listed_on_names:
  assumes "normalizedDomain d \<noteq> []" "[] \<notin> set (split_on dot (normalizedDomain d))"
    and "[] \<notin> set (split_on dot (normalizedDomain host))"
  shows "domain_listed [d] host \<longleftrightarrow>
    normalizedDomain host = normalizedDomain d \<or> suffix (dot # normalizedDomain d) (normalizedDomain host)"
  using assms by (simp add: domain_listed_def normalizedDomainLabels_fields fields_on_split_on suffix_split_on)

theorem domain_listed_on_names_witness:
  "domain_listed [''Example.org''] ''a.example.org'' \<and> \<not> domain_listed [''Example.org''] ''badexample.org''"
proof -
  have "normalizedDomain ''Example.org'' = ''example.org''" "normalizedDomain ''a.example.org'' = ''a.example.org''"
    "normalizedDomain ''badexample.org'' = ''badexample.org''"
    by code_simp+
  moreover have "[] \<notin> set (split_on dot ''example.org'')" "[] \<notin> set (split_on dot ''a.example.org'')"
    "[] \<notin> set (split_on dot ''badexample.org'')"
    by simp_all
  moreover have "suffix (dot # ''example.org'') ''a.example.org''" "\<not> suffix (dot # ''example.org'') ''badexample.org''"
    by code_simp+
  ultimately show ?thesis
    using domain_listed_on_names [of "''Example.org''" "''a.example.org''"]
      domain_listed_on_names [of "''Example.org''" "''badexample.org''"] by simp
qed

text \<open>
  C18: the public \<open>DomainMatcher\<close> treats an entry \<open>*.name\<close> like \<open>name\<close>: it
  matches a host exactly when the list with the \<open>*.\<close> prefixes removed lists it,
  and a nil matcher matches nothing.
\<close>

theorem DomainMatcher_correct:
  assumes "label_total (map (trim_prefix ''*.'') ds) < 4294967296"
  shows "\<exists>m. NewDomainMatcher ds = Some m \<and>
    (\<forall>host. DomainMatcher_Match (Some m) host = Some (domain_listed (map (trim_prefix ''*.'') ds) host)) \<and>
    (\<forall>host. DomainMatcher_Match None host = Some False)"
  using NewDomainMatcher_ok [OF assms] trie.matches_listed
  by (auto simp: matcher_for_def DomainMatcher_Match_def)

theorem DomainMatcher_correct_witness:
  "\<exists>m. NewDomainMatcher [''*.corp.local'', ''intra.net''] = Some m \<and>
     DomainMatcher_Match (Some m) ''corp.local'' = Some True \<and> DomainMatcher_Match (Some m) ''a.corp.local'' = Some True \<and>
     DomainMatcher_Match (Some m) ''net'' = Some False"
proof -
  let ?ds = "[''*.corp.local'', ''intra.net'']"
  have "label_total (map (trim_prefix ''*.'') ?ds) = 4" by code_simp
  moreover have "domain_listed (map (trim_prefix ''*.'') ?ds) ''corp.local'' = True"
    "domain_listed (map (trim_prefix ''*.'') ?ds) ''a.corp.local'' = True"
    "domain_listed (map (trim_prefix ''*.'') ?ds) ''net'' = False"
    by code_simp+
  ultimately show ?thesis using DomainMatcher_correct [of ?ds] by (auto simp del: list.map)
qed

end
