(* ===== verification/Go_Lib.thy ===== *)
theory Go_Lib
  imports Gate_Prelude "HOL-Library.AList"
begin

text \<open>
  The parts of Go's standard library the policy code uses, beyond plain
  strings: \<open>http.Header\<close>, \<open>net.SplitHostPort\<close> and \<open>net.JoinHostPort\<close>,
  \<open>path.Base\<close>, \<open>filepath.Ext\<close>, addresses and prefixes of \<open>netip\<close>.  The
  large parsers (\<open>regexp.Compile\<close>, \<open>url.Parse\<close>, \<open>mime.ParseMediaType\<close>,
  \<open>netip.ParseAddr\<close>, \<open>netip.ParsePrefix\<close>, \<open>url.PathUnescape\<close>) are the
  fields of a record \<open>go_lib\<close> that the definitions take as an argument, and
  the longest-prefix table of the third-party package \<open>bart\<close> is a record
  \<open>bart\<close> of its operations with the documented law \<open>bart_lawful\<close>.
\<close>

section \<open>Errors\<close>

datatype gate_error =
    Panic
  | EmptyRegex string
  | CompileRegex string string
  | BadIPPrefix string string
  | BadAddHeader string string
  | WindowTooLarge string int
  | Failure string

type_synonym 'a result = "gate_error + 'a"

definition rbind :: "'a result \<Rightarrow> ('a \<Rightarrow> 'b result) \<Rightarrow> 'b result" where
  "rbind r f = (case r of Inl e \<Rightarrow> Inl e | Inr x \<Rightarrow> f x)"

definition no_panic :: "'a option \<Rightarrow> 'a result" where
  "no_panic r = (case r of None \<Rightarrow> Inl Panic | Some x \<Rightarrow> Inr x)"

lemma rbind_Inr [simp]: "rbind (Inr x) f = f x"
  by (simp add: rbind_def)

lemma rbind_Inl [simp]: "rbind (Inl e) f = Inl e"
  by (simp add: rbind_def)

lemma rbind_eq_Inr: "rbind r f = Inr y \<longleftrightarrow> (\<exists>x. r = Inr x \<and> f x = Inr y)"
  by (cases r) auto

lemma no_panic_Some [simp]: "no_panic (Some x) = Inr x"
  by (simp add: no_panic_def)

lemma no_panic_eq_Inr: "no_panic r = Inr x \<longleftrightarrow> r = Some x"
  by (cases r) (auto simp: no_panic_def)

text \<open>The loops that stop at the first error.\<close>

fun result_map :: "('a \<Rightarrow> 'b result) \<Rightarrow> 'a list \<Rightarrow> 'b list result" where
  "result_map f [] = Inr []"
| "result_map f (x # xs) = rbind (f x) (\<lambda>y. rbind (result_map f xs) (\<lambda>ys. Inr (y # ys)))"

lemma result_map_Inr: "result_map f xs = Inr ys \<longleftrightarrow> list_all2 (\<lambda>x y. f x = Inr y) xs ys"
  by (induction xs arbitrary: ys) (auto simp: rbind_eq_Inr list_all2_Cons1)

section \<open>Regular expressions, URLs, addresses\<close>

text \<open>A compiled \<open>regexp.Regexp\<close>, by the methods the sources call.\<close>

record regexp =
  rx_string :: string
  rx_match :: "string \<Rightarrow> bool"
  rx_replace_all :: "string \<Rightarrow> string \<Rightarrow> string"

text \<open>A \<open>url.URL\<close>; \<open>u_escaped_path\<close> is the result of its method \<open>EscapedPath\<close>.\<close>

record url =
  u_scheme :: string
  u_host :: string
  u_escaped_path :: string
  u_raw_query :: string

text \<open>\<open>netip.Addr\<close> (bit length and value; zones are not modelled) and \<open>netip.Prefix\<close>.\<close>

datatype addr = Addr (addr_bitlen: nat) (addr_value: nat)

datatype prefix_ip = Prefix (prefix_addr: addr) (prefix_bits: nat)

definition prefix_masked :: "prefix_ip \<Rightarrow> prefix_ip" where
  "prefix_masked p =
     (let a = prefix_addr p; w = 2 ^ (addr_bitlen a - prefix_bits p)
      in Prefix (Addr (addr_bitlen a) (addr_value a div w * w)) (prefix_bits p))"

definition prefix_contains :: "prefix_ip \<Rightarrow> addr \<Rightarrow> bool" where
  "prefix_contains p a =
     (addr_bitlen (prefix_addr p) = addr_bitlen a \<and>
      addr_value (prefix_addr p) div 2 ^ (addr_bitlen a - prefix_bits p) =
        addr_value a div 2 ^ (addr_bitlen a - prefix_bits p))"

lemma prefix_contains_masked [simp]: "prefix_contains (prefix_masked p) a = prefix_contains p a"
  by (auto simp: prefix_contains_def prefix_masked_def Let_def)

record go_lib =
  regexp_Compile :: "string \<Rightarrow> regexp option"
  url_Parse :: "string \<Rightarrow> url option"
  url_PathUnescape :: "string \<Rightarrow> string option"
  mime_ParseMediaType :: "string \<Rightarrow> (string \<times> (string \<times> string) list) option"
  netip_ParseAddr :: "string \<Rightarrow> addr option"
  netip_ParsePrefix :: "string \<Rightarrow> prefix_ip option"
  addr_String :: "addr \<Rightarrow> string"
  net_ParseIP :: "string \<Rightarrow> addr option"

record 't bart =
  bart_new :: 't
  bart_Insert :: "'t \<Rightarrow> prefix_ip \<Rightarrow> 't"
  bart_Lookup :: "'t \<Rightarrow> addr \<Rightarrow> bool"

text \<open>
  The documented behaviour of \<open>bart.Table\<close>: \<open>Lookup\<close> succeeds exactly when an
  inserted prefix contains the address.
\<close>

definition bart_lawful :: "'t bart \<Rightarrow> bool" where
  "bart_lawful bt =
     ((\<forall>a. \<not> bart_Lookup bt (bart_new bt) a) \<and>
      (\<forall>t p a. bart_Lookup bt (bart_Insert bt t p) a = (prefix_contains p a \<or> bart_Lookup bt t a)))"

text \<open>An instance of the law: the list of the inserted prefixes.\<close>

definition bart_list :: "prefix_ip list bart" where
  "bart_list = \<lparr>bart_new = [], bart_Insert = (\<lambda>t p. p # t), bart_Lookup = (\<lambda>t a. list_ex (\<lambda>p. prefix_contains p a) t)\<rparr>"

lemma bart_lawful_list: "bart_lawful bart_list"
  by (simp add: bart_lawful_def bart_list_def)

text \<open>A library whose parsers reject everything, for closed examples.\<close>

definition null_lib :: go_lib where
  "null_lib = \<lparr>regexp_Compile = (\<lambda>_. None), url_Parse = (\<lambda>_. None), url_PathUnescape = (\<lambda>_. None),
     mime_ParseMediaType = (\<lambda>_. None), netip_ParseAddr = (\<lambda>_. None), netip_ParsePrefix = (\<lambda>_. None),
     addr_String = (\<lambda>_. []), net_ParseIP = (\<lambda>_. None)\<rparr>"

section \<open>Host and port\<close>

definition net_SplitHostPort :: "string \<Rightarrow> (string \<times> string) option" where
  "net_SplitHostPort hostport =
     (case last_index_byte hostport colon of
        None \<Rightarrow> None
      | Some i \<Rightarrow>
          (if hostport ! 0 = CHR ''[''
           then (case index_byte hostport (CHR '']'') of
                   None \<Rightarrow> None
                 | Some e \<Rightarrow>
                     (if Suc e \<noteq> i then None
                      else if CHR ''['' \<in> set (drop 1 hostport) \<or> CHR '']'' \<in> set (drop (Suc e) hostport) then None
                      else Some (drop 1 (take e hostport), drop (Suc i) hostport)))
           else if colon \<in> set (take i hostport) then None
           else if CHR ''['' \<in> set hostport \<or> CHR '']'' \<in> set hostport then None
           else Some (take i hostport, drop (Suc i) hostport)))"

definition net_JoinHostPort :: "string \<Rightarrow> string \<Rightarrow> string" where
  "net_JoinHostPort host port =
     (if colon \<in> set host then ''['' @ host @ '']:'' @ port else host @ '':'' @ port)"

section \<open>Paths\<close>

definition path_Base :: "string \<Rightarrow> string" where
  "path_Base p =
     (if p = [] then ''.''
      else let p = trim_right_if (\<lambda>c. c = slash) p;
               p = (case last_index_byte p slash of None \<Rightarrow> p | Some i \<Rightarrow> drop (Suc i) p)
           in if p = [] then ''/'' else p)"

definition filepath_Ext :: "string \<Rightarrow> string" where
  "filepath_Ext p =
     (case last_index_byte p dot of
        None \<Rightarrow> []
      | Some i \<Rightarrow> (if slash \<in> set (drop i p) then [] else drop i p))"

definition strings_Cut :: "string \<Rightarrow> char \<Rightarrow> string \<times> string \<times> bool" where
  "strings_Cut s c =
     (case index_byte s c of None \<Rightarrow> (s, [], False) | Some i \<Rightarrow> (take i s, drop (Suc i) s, True))"

section \<open>HTTP headers\<close>

text \<open>
  \<open>http.Header\<close>: a map from canonical keys to value lists, as an association
  list whose order is the (arbitrary) iteration order of the Go map.
\<close>

type_synonym header = "(string \<times> string list) list"

definition is_token_char :: "char \<Rightarrow> bool" where
  "is_token_char c =
     ((CHR ''a'' \<le> c \<and> c \<le> CHR ''z'') \<or> (CHR ''A'' \<le> c \<and> c \<le> CHR ''Z'') \<or> is_digit c \<or>
      c \<in> set ''!#$%&*+-.^_|~'' \<or> c = CHR 0x27 \<or> c = CHR 0x60)"

definition upper_char :: "char \<Rightarrow> char" where
  "upper_char c = (if CHR ''a'' \<le> c \<and> c \<le> CHR ''z'' then char_of (of_char c - 32 :: nat) else c)"

lemma upper_char_Char [code, simp]:
  "upper_char (Char b0 b1 b2 b3 b4 b5 b6 b7) =
     (if b6 \<and> b5 \<and> \<not> b7 \<and> (b0 \<or> b1 \<or> b2 \<or> b3 \<or> b4) \<and> \<not> (b4 \<and> b3 \<and> (b2 \<or> b1 \<and> b0))
      then Char b0 b1 b2 b3 b4 False b6 b7 else Char b0 b1 b2 b3 b4 b5 b6 b7)"
  by (rule char_eqI)
     (cases b0; cases b1; cases b2; cases b3; cases b4; cases b5; cases b6; cases b7; simp add: upper_char_def)

fun canonical_from :: "bool \<Rightarrow> string \<Rightarrow> string" where
  "canonical_from up [] = []"
| "canonical_from up (c # cs) =
     (if up then upper_char c else lower_char c) # canonical_from (c = CHR ''-'') cs"

definition CanonicalHeaderKey :: "string \<Rightarrow> string" where
  "CanonicalHeaderKey k = (if list_all is_token_char k then canonical_from True k else k)"

definition header_Values :: "header \<Rightarrow> string \<Rightarrow> string list" where
  "header_Values h k = (case map_of h (CanonicalHeaderKey k) of None \<Rightarrow> [] | Some vs \<Rightarrow> vs)"

definition header_Get :: "header \<Rightarrow> string \<Rightarrow> string" where
  "header_Get h k = (case header_Values h k of [] \<Rightarrow> [] | v # _ \<Rightarrow> v)"

definition header_Add :: "header \<Rightarrow> string \<Rightarrow> string \<Rightarrow> header" where
  "header_Add h k v = AList.update (CanonicalHeaderKey k) (header_Values h k @ [v]) h"

definition header_Set :: "header \<Rightarrow> string \<Rightarrow> string \<Rightarrow> header" where
  "header_Set h k v = AList.update (CanonicalHeaderKey k) [v] h"

definition header_Del :: "header \<Rightarrow> string \<Rightarrow> header" where
  "header_Del h k = AList.delete (CanonicalHeaderKey k) h"

text \<open>The parts of \<open>http.Request\<close> and \<open>http.Response\<close> the policy reads.\<close>

record request =
  req_method :: string
  req_url :: "url option"
  req_host :: string
  req_header :: header

record response =
  resp_status :: nat
  resp_header :: header
  resp_request :: "request option"

end
