(* ===== verification/Domain_Rules.thy ===== *)
theory Domain_Rules
  imports Domain_Trie Go_Lib
begin

text \<open>
  \<open>DomainRules\<close> of \<open>proxy/domain_rules.go\<close>: the constructor
  \<open>NewDomainRulesConfig\<close>, the shared regex compilation \<open>compilePolicyRegex\<close>
  and \<open>Decision\<close>, which consults the six tries, the regex lists and the TLD
  sets in a fixed order.  \<open>PolicyDecision\<close> is the decision record of
  \<open>proxy/policy.go\<close>.  The lemmas characterise a decision of a constructed rule
  set by list membership alone.
\<close>

section \<open>Decisions\<close>

record PolicyDecision =
  Blocked :: bool
  Redirect :: bool
  RedirectURL :: string
  MatchType :: string
  Value :: string
  BypassFilters :: bool

definition no_decision :: PolicyDecision where
  "no_decision = \<lparr>Blocked = False, Redirect = False, RedirectURL = [], MatchType = [], Value = [], BypassFilters = False\<rparr>"

abbreviation block_decision :: "string \<Rightarrow> string \<Rightarrow> PolicyDecision" where
  "block_decision mt v \<equiv> no_decision\<lparr>Blocked := True, MatchType := mt, Value := v\<rparr>"

abbreviation bypass_decision :: "string \<Rightarrow> string \<Rightarrow> PolicyDecision" where
  "bypass_decision mt v \<equiv> no_decision\<lparr>BypassFilters := True, MatchType := mt, Value := v\<rparr>"

abbreviation grey_decision :: "string \<Rightarrow> string \<Rightarrow> PolicyDecision" where
  "grey_decision mt v \<equiv> no_decision\<lparr>MatchType := mt, Value := v\<rparr>"

lemma no_decision_sel [simp]:
  "\<not> Blocked no_decision" "\<not> BypassFilters no_decision" "\<not> Redirect no_decision" "MatchType no_decision = []"
  by (simp_all add: no_decision_def)

section \<open>Rules and their construction\<close>

record RegexRule =
  rr_Pattern :: string
  rr_Source :: string

definition compilePolicyRegex :: "go_lib \<Rightarrow> RegexRule \<Rightarrow> regexp result" where
  "compilePolicyRegex lib rule =
     (if trim_space (rr_Pattern rule) = [] then Inl (EmptyRegex (rr_Source rule))
      else case regexp_Compile lib (rr_Pattern rule) of
        None \<Rightarrow> Inl (CompileRegex (rr_Source rule) (rr_Pattern rule))
      | Some rx \<Rightarrow> Inr rx)"

record DomainRulesConfig =
  dc_LocalExceptions :: "string list"
  dc_LocalGrey :: "string list"
  dc_LocalBlocked :: "string list"
  dc_Exceptions :: "string list"
  dc_Grey :: "string list"
  dc_Blocked :: "string list"
  dc_BlockRegex :: "RegexRule list"
  dc_AllowRegex :: "RegexRule list"
  dc_AllowedTLDs :: "string list"
  dc_BlanketBlockTLDs :: "string list"

text \<open>The two TLD maps \<open>map[string]bool\<close> only hold \<open>true\<close>; they are lists of their keys.\<close>

record DomainRules =
  localExceptions :: domainTrie
  localGrey :: domainTrie
  localBlocked :: domainTrie
  exceptions :: domainTrie
  grey :: domainTrie
  blocked :: domainTrie
  blockRegex :: "regexp list"
  allowRegex :: "regexp list"
  allowedTLDs :: "string list"
  blanketBlockTLDs :: "string list"

definition NewDomainRulesConfig :: "go_lib \<Rightarrow> DomainRulesConfig \<Rightarrow> DomainRules result" where
  "NewDomainRulesConfig lib cfg =
     (let le = foldl Add empty_domainTrie (dc_LocalExceptions cfg);
          lg = foldl Add empty_domainTrie (dc_LocalGrey cfg);
          lb = foldl Add empty_domainTrie (dc_LocalBlocked cfg);
          ex = foldl Add empty_domainTrie (dc_Exceptions cfg);
          gr = foldl Add empty_domainTrie (dc_Grey cfg);
          bl = foldl Add empty_domainTrie (dc_Blocked cfg)
      in rbind (no_panic (Compile le)) (\<lambda>le.
         rbind (no_panic (Compile lg)) (\<lambda>lg.
         rbind (no_panic (Compile lb)) (\<lambda>lb.
         rbind (no_panic (Compile ex)) (\<lambda>ex.
         rbind (no_panic (Compile gr)) (\<lambda>gr.
         rbind (no_panic (Compile bl)) (\<lambda>bl.
         rbind (result_map (compilePolicyRegex lib) (dc_BlockRegex cfg)) (\<lambda>brx.
         rbind (result_map (compilePolicyRegex lib) (dc_AllowRegex cfg)) (\<lambda>arx.
         Inr \<lparr>localExceptions = le, localGrey = lg, localBlocked = lb, exceptions = ex, grey = gr, blocked = bl,
              blockRegex = brx, allowRegex = arx,
              allowedTLDs = map (\<lambda>tld. trim_space (to_lower tld)) (dc_AllowedTLDs cfg),
              blanketBlockTLDs = map (\<lambda>tld. trim_space (to_lower tld)) (dc_BlanketBlockTLDs cfg)\<rparr>)))))))))"

definition empty_DomainRulesConfig :: DomainRulesConfig where
  "empty_DomainRulesConfig = \<lparr>dc_LocalExceptions = [], dc_LocalGrey = [], dc_LocalBlocked = [], dc_Exceptions = [],
     dc_Grey = [], dc_Blocked = [], dc_BlockRegex = [], dc_AllowRegex = [], dc_AllowedTLDs = [], dc_BlanketBlockTLDs = []\<rparr>"

definition NewDomainRules :: "go_lib \<Rightarrow> string list \<Rightarrow> DomainRules result" where
  "NewDomainRules lib domains = NewDomainRulesConfig lib (empty_DomainRulesConfig\<lparr>dc_Blocked := domains\<rparr>)"

definition DomainRules_Compile :: "DomainRules \<Rightarrow> DomainRules option" where
  "DomainRules_Compile r = do {
     le \<leftarrow> Compile (localExceptions r); lg \<leftarrow> Compile (localGrey r); lb \<leftarrow> Compile (localBlocked r);
     ex \<leftarrow> Compile (exceptions r); gr \<leftarrow> Compile (grey r); bl \<leftarrow> Compile (blocked r);
     Some (r\<lparr>localExceptions := le, localGrey := lg, localBlocked := lb, exceptions := ex, grey := gr, blocked := bl\<rparr>) }"

section \<open>Decision\<close>

fun count_ip_chars :: "string \<Rightarrow> nat \<Rightarrow> nat \<Rightarrow> (nat \<times> nat) option" where
  "count_ip_chars [] dots digits = Some (dots, digits)"
| "count_ip_chars (c # cs) dots digits =
     (if is_digit c then count_ip_chars cs dots (Suc digits)
      else if c = dot then count_ip_chars cs (Suc dots) digits
      else None)"

definition isIPAddress :: "string \<Rightarrow> bool" where
  "isIPAddress host =
     (if colon \<in> set host then True
      else case count_ip_chars host 0 0 of
        None \<Rightarrow> False
      | Some (dots, digits) \<Rightarrow> dots = 3 \<and> digits > 0)"

definition host_tld :: "string \<Rightarrow> string" where
  "host_tld host = (case last_index_byte host dot of None \<Rightarrow> host | Some i \<Rightarrow> drop (Suc i) host)"

definition tld_blocked :: "string list \<Rightarrow> string list \<Rightarrow> string \<Rightarrow> bool" where
  "tld_blocked allowed blanket host =
     ((allowed \<noteq> [] \<or> blanket \<noteq> []) \<and> \<not> isIPAddress host \<and>
      (allowed \<noteq> [] \<and> host_tld host \<notin> set allowed \<or> blanket \<noteq> [] \<and> host_tld host \<in> set blanket))"

definition first_regex :: "regexp list \<Rightarrow> string \<Rightarrow> regexp option" where
  "first_regex rxs s = List.find (\<lambda>rx. rx_match rx s) rxs"

text \<open>
  The tries of a constructed rule set are compiled, so \<open>Match\<close> does not change
  them (lemma \<open>Match_compiled_for\<close>) and only its answer is kept.
\<close>

abbreviation trie_answer :: "domainTrie \<Rightarrow> string \<Rightarrow> bool option" where
  "trie_answer t host \<equiv> map_option snd (Match t host)"

definition DomainRules_Decision :: "DomainRules option \<Rightarrow> string \<Rightarrow> PolicyDecision option" where
  "DomainRules_Decision ro host0 =
     (case ro of None \<Rightarrow> Some no_decision | Some r \<Rightarrow>
       (let host = normalizedDomain host0
        in if host = '''' then Some no_decision
        else do {
          m \<leftarrow> trie_answer (localExceptions r) host;
          if m then Some (bypass_decision ''domain_local_exception'' host) else do {
          m \<leftarrow> trie_answer (localGrey r) host;
          if m then Some (grey_decision ''domain_local_grey'' host) else do {
          m \<leftarrow> trie_answer (localBlocked r) host;
          if m then Some (block_decision ''domain_local'' host) else do {
          m \<leftarrow> trie_answer (exceptions r) host;
          if m then Some (bypass_decision ''domain_exception'' host) else
          (case first_regex (allowRegex r) host of
             Some rx \<Rightarrow> Some (bypass_decision ''domain_exception_regex'' (rx_string rx))
           | None \<Rightarrow> do {
          m \<leftarrow> trie_answer (grey r) host;
          if m then Some (grey_decision ''domain_grey'' host)
          else if tld_blocked (allowedTLDs r) (blanketBlockTLDs r) host then Some (block_decision ''tld_blanket'' host)
          else do {
          m \<leftarrow> trie_answer (blocked r) host;
          if m then Some (block_decision ''domain'' host) else
          (case first_regex (blockRegex r) host of
             Some rx \<Rightarrow> Some (block_decision ''domain_regex'' (rx_string rx))
           | None \<Rightarrow> Some no_decision) }})}}}}))"

definition DomainRules_Blocked :: "DomainRules option \<Rightarrow> string \<Rightarrow> bool option" where
  "DomainRules_Blocked r host = map_option Blocked (DomainRules_Decision r host)"

section \<open>Decisions in terms of the configured lists\<close>

definition domain_lists_fit :: "DomainRulesConfig \<Rightarrow> bool" where
  "domain_lists_fit cfg =
     (\<forall>ds \<in> {dc_LocalExceptions cfg, dc_LocalGrey cfg, dc_LocalBlocked cfg, dc_Exceptions cfg, dc_Grey cfg, dc_Blocked cfg}.
        label_total ds < 4294967296)"

lemma first_regex_None: "first_regex rxs s = None \<longleftrightarrow> (\<forall>rx\<in>set rxs. \<not> rx_match rx s)"
  by (auto simp: first_regex_def find_None_iff)

lemma first_regex_Some: "first_regex rxs s = Some rx \<Longrightarrow> rx \<in> set rxs \<and> rx_match rx s"
  by (auto simp: first_regex_def find_Some_iff)

lemma Compile_foldl_Add:
  assumes "Compile (foldl Add empty_domainTrie ds) = Some t" "label_total ds < 4294967296"
  shows "compiled_for t ds"
  using assms Compile_ok [OF building_trie_of, of ds] by (simp add: trie_of_def)

lemma NewDomainRulesConfig_tries:
  assumes "NewDomainRulesConfig lib cfg = Inr r" "domain_lists_fit cfg"
  shows "compiled_for (localExceptions r) (dc_LocalExceptions cfg)" "compiled_for (localGrey r) (dc_LocalGrey cfg)"
    "compiled_for (localBlocked r) (dc_LocalBlocked cfg)" "compiled_for (exceptions r) (dc_Exceptions cfg)"
    "compiled_for (grey r) (dc_Grey cfg)" "compiled_for (blocked r) (dc_Blocked cfg)"
  using assms
  by (auto simp: NewDomainRulesConfig_def Let_def rbind_eq_Inr no_panic_eq_Inr domain_lists_fit_def
      intro!: Compile_foldl_Add)

lemma NewDomainRulesConfig_sets:
  assumes "NewDomainRulesConfig lib cfg = Inr r"
  shows "allowedTLDs r = map (\<lambda>tld. trim_space (to_lower tld)) (dc_AllowedTLDs cfg)"
    "blanketBlockTLDs r = map (\<lambda>tld. trim_space (to_lower tld)) (dc_BlanketBlockTLDs cfg)"
    "list_all2 (\<lambda>rule rx. compilePolicyRegex lib rule = Inr rx) (dc_BlockRegex cfg) (blockRegex r)"
    "list_all2 (\<lambda>rule rx. compilePolicyRegex lib rule = Inr rx) (dc_AllowRegex cfg) (allowRegex r)"
  using assms
  by (auto simp: NewDomainRulesConfig_def Let_def rbind_eq_Inr no_panic_eq_Inr result_map_Inr)

lemma NewDomainRulesConfig_total:
  assumes "domain_lists_fit cfg" "dc_BlockRegex cfg = []" "dc_AllowRegex cfg = []"
  shows "\<exists>r. NewDomainRulesConfig lib cfg = Inr r"
proof -
  have "\<exists>t. Compile (foldl Add empty_domainTrie ds) = Some t" if "label_total ds < 4294967296" for ds
    using Compile_ok [OF building_trie_of that] by (auto simp: trie_of_def)
  then show ?thesis using assms
    by (simp add: NewDomainRulesConfig_def Let_def domain_lists_fit_def)
       (elim conjE, metis no_panic_Some rbind_Inr)
qed

text \<open>
  C7: the verdict of \<open>DomainRules.Decision\<close> on a rule set built from a
  configuration, in terms of the configured lists: a host is blocked exactly
  when no local exception and no local grey entry covers it and either a local
  ban does, or no main exception (list or regex) and no main grey entry covers
  it and it falls to the TLD policy, the main ban list or a ban regex; it
  bypasses the filters exactly when the first list that decides is an
  exception.  A host is never both blocked and bypassed, and no call panics.
\<close>

theorem DomainRules_Decision_verdict:
  assumes "NewDomainRulesConfig lib cfg = Inr r" "domain_lists_fit cfg"
  shows "\<exists>d. DomainRules_Decision (Some r) host = Some d \<and>
    (let h = normalizedDomain host; on = (\<lambda>ds. domain_listed ds h);
         allowed = (\<exists>rx\<in>set (allowRegex r). rx_match rx h); banned = (\<exists>rx\<in>set (blockRegex r). rx_match rx h)
     in (Blocked d \<longleftrightarrow> h \<noteq> [] \<and> \<not> on (dc_LocalExceptions cfg) \<and> \<not> on (dc_LocalGrey cfg) \<and>
           (on (dc_LocalBlocked cfg) \<or>
            \<not> on (dc_Exceptions cfg) \<and> \<not> allowed \<and> \<not> on (dc_Grey cfg) \<and>
            (tld_blocked (allowedTLDs r) (blanketBlockTLDs r) h \<or> on (dc_Blocked cfg) \<or> banned))) \<and>
        (BypassFilters d \<longleftrightarrow> h \<noteq> [] \<and>
           (on (dc_LocalExceptions cfg) \<or>
            \<not> on (dc_LocalGrey cfg) \<and> \<not> on (dc_LocalBlocked cfg) \<and> (on (dc_Exceptions cfg) \<or> allowed))) \<and>
        \<not> (Blocked d \<and> BypassFilters d) \<and> \<not> Redirect d)"
proof -
  note t = NewDomainRulesConfig_tries [OF assms, THEN Match_compiled_for]
  show ?thesis
    by (auto simp: DomainRules_Decision_def t Let_def first_regex_None dest: first_regex_Some split: option.splits)
qed

theorem DomainRules_Decision_verdict_witness:
  "\<exists>r d e. NewDomainRulesConfig null_lib
       (empty_DomainRulesConfig\<lparr>dc_Blocked := [''ads.com''], dc_Exceptions := [''ok.ads.com'']\<rparr>) = Inr r \<and>
     DomainRules_Decision (Some r) ''x.ads.com'' = Some d \<and> Blocked d \<and> \<not> BypassFilters d \<and>
     DomainRules_Decision (Some r) ''www.ok.ads.com'' = Some e \<and> \<not> Blocked e \<and> BypassFilters e"
proof -
  let ?cfg = "empty_DomainRulesConfig\<lparr>dc_Blocked := [''ads.com''], dc_Exceptions := [''ok.ads.com'']\<rparr>"
  have "label_total [''ads.com''] = 2" "label_total [''ok.ads.com''] = 3" by code_simp+
  then have fit: "domain_lists_fit ?cfg"
    by (simp add: domain_lists_fit_def empty_DomainRulesConfig_def label_total_def)
  obtain r where r: "NewDomainRulesConfig null_lib ?cfg = Inr r"
    using NewDomainRulesConfig_total [OF fit] by (auto simp: empty_DomainRulesConfig_def)
  note sets = NewDomainRulesConfig_sets [OF r]
  have n: "normalizedDomain ''x.ads.com'' = ''x.ads.com''" "normalizedDomain ''www.ok.ads.com'' = ''www.ok.ads.com''"
    by code_simp+
  have l: "domain_listed [''ads.com''] ''x.ads.com'' = True" "domain_listed [''ok.ads.com''] ''x.ads.com'' = False"
    "domain_listed [''ads.com''] ''www.ok.ads.com'' = True" "domain_listed [''ok.ads.com''] ''www.ok.ads.com'' = True"
    by code_simp+
  have e: "domain_listed [] h = False" for h by (simp add: domain_listed_def)
  show ?thesis
    using DomainRules_Decision_verdict [OF r fit, of "''x.ads.com''"]
      DomainRules_Decision_verdict [OF r fit, of "''www.ok.ads.com''"] r sets
    by (simp add: n l e empty_DomainRulesConfig_def Let_def tld_blocked_def) metis
qed

text \<open>
  The domain lists do not look through a port: a host of the form
  \<open>name:port\<close> is not covered by a ban on \<open>name\<close>, so a caller that passes the
  request's host with its port gets no decision.
\<close>

theorem ban_misses_host_with_port:
  "domain_listed [''banned.com''] ''banned.com'' \<and> \<not> domain_listed [''banned.com''] ''banned.com:443''"
  by code_simp

end
