(* ===== verification/Policy_Rules.thy ===== *)
theory Policy_Rules
  imports Domain_Rules
begin

text \<open>
  The rule components of \<open>proxy/policy.go\<close> other than the domain rules:
  headers, cookies, site IPs, files, URLs, logging and referers, each with its
  configuration, constructor and decision.  Constructors that read text take
  the library record \<open>go_lib\<close>; the IP tables take the \<open>bart\<close> operations.
\<close>

section \<open>Phrases\<close>

text \<open>The loop of \<open>normalizedPhrases\<close>, with \<open>seen\<close> and \<open>out\<close> holding the same values.\<close>

fun normalizedPhrases_from :: "string list \<Rightarrow> string list \<Rightarrow> string list" where
  "normalizedPhrases_from out [] = out"
| "normalizedPhrases_from out (v # vs) =
     (let v = to_lower (trim_space v)
      in if v = [] \<or> v \<in> set out then normalizedPhrases_from out vs
         else normalizedPhrases_from (out @ [v]) vs)"

definition normalizedPhrases :: "string list \<Rightarrow> string list" where
  "normalizedPhrases vs = normalizedPhrases_from [] vs"

fun firstPhraseMatch :: "string list \<Rightarrow> string \<Rightarrow> string" where
  "firstPhraseMatch [] haystack = []"
| "firstPhraseMatch (p # ps) haystack = (if sublist p haystack then p else firstPhraseMatch ps haystack)"

definition phraseListMatches :: "string list \<Rightarrow> string \<Rightarrow> bool" where
  "phraseListMatches phrases haystack = (firstPhraseMatch phrases haystack \<noteq> [])"

definition regexListMatches :: "regexp list \<Rightarrow> string \<Rightarrow> bool" where
  "regexListMatches rxs haystack = list_ex (\<lambda>rx. rx_match rx haystack) rxs"

section \<open>Header rules\<close>

record HeaderRewriteRule =
  hr_Regex :: regexp
  hr_Replace :: string

record HeaderAddRule =
  ha_UrlRegex :: "regexp option"
  ha_Key :: string
  ha_Val :: string

record HeaderRulesConfig =
  hc_Banned :: "string list"
  hc_Exception :: "string list"
  hc_BlockRegex :: "RegexRule list"
  hc_ExceptionRegex :: "RegexRule list"
  hc_RequestRewrites :: "RegexRule list"
  hc_ResponseRewrites :: "RegexRule list"
  hc_RequestAdds :: "RegexRule list"

record HeaderRules =
  h_banned :: "string list"
  h_exception :: "string list"
  h_blockRegex :: "regexp list"
  h_exceptionRegex :: "regexp list"
  requestRewrites :: "HeaderRewriteRule list"
  responseRewrites :: "HeaderRewriteRule list"
  requestAdds :: "HeaderAddRule list"

text \<open>The split of a rule at its first \<open>=>\<close> that rewrite, redirect and add rules share.\<close>

definition split_arrow :: "string \<Rightarrow> (string \<times> string) option" where
  "split_arrow s =
     (case index_of s ''=>'' of
        None \<Rightarrow> None
      | Some i \<Rightarrow> Some (trim_space (take i s), trim_space (drop (i + 2) s)))"

definition compile_rewrite :: "go_lib \<Rightarrow> RegexRule \<Rightarrow> (regexp \<times> string) result" where
  "compile_rewrite lib rule =
     (let (pattern, replace) =
            (case split_arrow (rr_Pattern rule) of Some pr \<Rightarrow> pr | None \<Rightarrow> (rr_Pattern rule, []))
      in rbind (compilePolicyRegex lib (rule\<lparr>rr_Pattern := pattern\<rparr>)) (\<lambda>rx. Inr (rx, replace)))"

definition compile_add :: "go_lib \<Rightarrow> RegexRule \<Rightarrow> HeaderAddRule result" where
  "compile_add lib rule =
     (let (pattern, headerStr) =
            (case split_arrow (rr_Pattern rule) of Some pr \<Rightarrow> pr | None \<Rightarrow> ([], rr_Pattern rule))
      in case index_byte headerStr colon of
           None \<Rightarrow> Inl (BadAddHeader (rr_Source rule) (rr_Pattern rule))
         | Some i \<Rightarrow>
             (if i = 0 then Inl (BadAddHeader (rr_Source rule) (rr_Pattern rule))
              else let key = trim_space (take i headerStr); val = trim_space (drop (Suc i) headerStr)
                   in if pattern \<noteq> []
                      then rbind (compilePolicyRegex lib (rule\<lparr>rr_Pattern := pattern\<rparr>)) (\<lambda>rx.
                             Inr \<lparr>ha_UrlRegex = Some rx, ha_Key = key, ha_Val = val\<rparr>)
                      else Inr \<lparr>ha_UrlRegex = None, ha_Key = key, ha_Val = val\<rparr>))"

definition NewHeaderRules :: "go_lib \<Rightarrow> HeaderRulesConfig \<Rightarrow> HeaderRules result" where
  "NewHeaderRules lib cfg =
     rbind (result_map (compilePolicyRegex lib) (hc_BlockRegex cfg)) (\<lambda>brx.
     rbind (result_map (compilePolicyRegex lib) (hc_ExceptionRegex cfg)) (\<lambda>erx.
     rbind (result_map (compile_rewrite lib) (hc_RequestRewrites cfg)) (\<lambda>reqs.
     rbind (result_map (compile_rewrite lib) (hc_ResponseRewrites cfg)) (\<lambda>resps.
     rbind (result_map (compile_add lib) (hc_RequestAdds cfg)) (\<lambda>adds.
     Inr \<lparr>h_banned = normalizedPhrases (hc_Banned cfg), h_exception = normalizedPhrases (hc_Exception cfg),
          h_blockRegex = brx, h_exceptionRegex = erx,
          requestRewrites = map (\<lambda>(rx, rep). \<lparr>hr_Regex = rx, hr_Replace = rep\<rparr>) reqs,
          responseRewrites = map (\<lambda>(rx, rep). \<lparr>hr_Regex = rx, hr_Replace = rep\<rparr>) resps,
          requestAdds = adds\<rparr>)))))"

definition header_line :: "string \<Rightarrow> string \<Rightarrow> string" where
  "header_line key val = key @ '': '' @ val"

text \<open>One header line: \<open>None\<close> to go on, or the blocking decision.\<close>

definition header_line_decision :: "HeaderRules \<Rightarrow> string \<Rightarrow> PolicyDecision option" where
  "header_line_decision r rawLine =
     (let normalizedLine = to_lower rawLine
      in if phraseListMatches (h_exception r) normalizedLine \<or> regexListMatches (h_exceptionRegex r) rawLine then None
         else let m = firstPhraseMatch (h_banned r) normalizedLine
              in if m \<noteq> [] then Some (block_decision ''header'' m)
                 else map_option (\<lambda>rx. block_decision ''header_regex'' (rx_string rx)) (first_regex (h_blockRegex r) rawLine))"

fun first_decision :: "('a \<Rightarrow> PolicyDecision option) \<Rightarrow> 'a list \<Rightarrow> PolicyDecision" where
  "first_decision f [] = no_decision"
| "first_decision f (x # xs) = (case f x of Some d \<Rightarrow> d | None \<Rightarrow> first_decision f xs)"

definition header_lines :: "header \<Rightarrow> string list" where
  "header_lines h = concat (map (\<lambda>(key, values). map (header_line key) values) h)"

definition HeaderRules_Decision :: "HeaderRules option \<Rightarrow> header \<Rightarrow> PolicyDecision" where
  "HeaderRules_Decision ro h =
     (case ro of
        None \<Rightarrow> no_decision
      | Some r \<Rightarrow> (if h = [] then no_decision else first_decision (header_line_decision r) (header_lines h)))"

section \<open>Cookie rules\<close>

record CookieRulesConfig =
  cc_Banned :: "string list"
  cc_Exception :: "string list"

record CookieRules =
  c_banned :: "string list"
  c_exception :: "string list"

definition NewCookieRules :: "CookieRulesConfig \<Rightarrow> CookieRules" where
  "NewCookieRules cfg = \<lparr>c_banned = normalizedPhrases (cc_Banned cfg), c_exception = normalizedPhrases (cc_Exception cfg)\<rparr>"

definition cookie_value_decision :: "CookieRules \<Rightarrow> string \<Rightarrow> PolicyDecision option" where
  "cookie_value_decision r v =
     (let v = to_lower v
      in if phraseListMatches (c_exception r) v then None
         else let m = firstPhraseMatch (c_banned r) v
              in if m \<noteq> [] then Some (block_decision ''cookie'' m) else None)"

definition CookieRules_Decision :: "CookieRules option \<Rightarrow> string list \<Rightarrow> PolicyDecision" where
  "CookieRules_Decision ro values =
     (case ro of
        None \<Rightarrow> no_decision
      | Some r \<Rightarrow> (if values = [] then no_decision else first_decision (cookie_value_decision r) values))"

definition requestCookieValues :: "header \<Rightarrow> string list" where
  "requestCookieValues h = header_Values h ''Cookie''"

definition responseCookieValues :: "header \<Rightarrow> string list" where
  "responseCookieValues h = header_Values h ''Set-Cookie''"

section \<open>IP prefixes\<close>

definition normalizedPolicyHost :: "string \<Rightarrow> string" where
  "normalizedPolicyHost host =
     (let host = trim_space host
      in if host = [] then []
         else let host = (case net_SplitHostPort host of Some (h, _) \<Rightarrow> h | None \<Rightarrow> host);
                  host = trim_prefix ''['' host;
                  host = trim_suffix '']'' host
              in normalizedDomain host)"

text \<open>The prefix an entry of an IP list stands for; \<open>None\<close> for an entry that is neither prefix nor address.\<close>

definition parse_ip_entry :: "go_lib \<Rightarrow> string \<Rightarrow> prefix_ip option" where
  "parse_ip_entry lib entry =
     (case netip_ParsePrefix lib entry of
        Some p \<Rightarrow> Some p
      | None \<Rightarrow> map_option (\<lambda>a. Prefix a (addr_bitlen a)) (netip_ParseAddr lib entry))"

fun insertIPPrefixes :: "go_lib \<Rightarrow> 't bart \<Rightarrow> 't \<Rightarrow> string list \<Rightarrow> 't result" where
  "insertIPPrefixes lib bt t [] = Inr t"
| "insertIPPrefixes lib bt t (e # es) =
     (let e = trim_space e
      in if e = [] then insertIPPrefixes lib bt t es
         else case parse_ip_entry lib e of
           None \<Rightarrow> Inl (BadIPPrefix [] e)
         | Some p \<Rightarrow> insertIPPrefixes lib bt (bart_Insert bt t (prefix_masked p)) es)"

text \<open>Go's \<open>fmt.Errorf("name: %w", err)\<close> around an IP list.\<close>

definition named_ips :: "string \<Rightarrow> 'a result \<Rightarrow> 'a result" where
  "named_ips name r = (case r of Inl (BadIPPrefix _ e) \<Rightarrow> Inl (BadIPPrefix name e) | _ \<Rightarrow> r)"

definition ipPrefixTableMatches :: "go_lib \<Rightarrow> 't bart \<Rightarrow> 't \<Rightarrow> string \<Rightarrow> bool" where
  "ipPrefixTableMatches lib bt t host =
     (case netip_ParseAddr lib host of None \<Rightarrow> False | Some a \<Rightarrow> bart_Lookup bt t a)"

section \<open>The IP matcher of matchers.go\<close>

definition NewIPMatcher :: "go_lib \<Rightarrow> 't bart \<Rightarrow> string list \<Rightarrow> 't result" where
  "NewIPMatcher lib bt entries = insertIPPrefixes lib bt (bart_new bt) entries"

definition IPMatcher_Match :: "'t bart \<Rightarrow> 't option \<Rightarrow> addr \<Rightarrow> bool" where
  "IPMatcher_Match bt m ip = (case m of None \<Rightarrow> False | Some t \<Rightarrow> bart_Lookup bt t ip)"

section \<open>Site IP rules\<close>

record SiteIPRulesConfig =
  sc_Blocked :: "string list"
  sc_Exceptions :: "string list"
  sc_Grey :: "string list"

record 't SiteIPRules =
  s_blocked :: 't
  s_exceptions :: 't
  s_grey :: 't
  hasEntries :: bool

definition NewSiteIPRules :: "go_lib \<Rightarrow> 't bart \<Rightarrow> SiteIPRulesConfig \<Rightarrow> 't SiteIPRules result" where
  "NewSiteIPRules lib bt cfg =
     rbind (named_ips ''bannedsiteiplist'' (insertIPPrefixes lib bt (bart_new bt) (sc_Blocked cfg))) (\<lambda>b.
     rbind (named_ips ''exceptionsiteiplist'' (insertIPPrefixes lib bt (bart_new bt) (sc_Exceptions cfg))) (\<lambda>e.
     rbind (named_ips ''greysiteiplist'' (insertIPPrefixes lib bt (bart_new bt) (sc_Grey cfg))) (\<lambda>g.
     Inr \<lparr>s_blocked = b, s_exceptions = e, s_grey = g,
          hasEntries = (length (sc_Blocked cfg) + length (sc_Exceptions cfg) + length (sc_Grey cfg) > 0)\<rparr>)))"

definition SiteIPRules_Decision :: "go_lib \<Rightarrow> 't bart \<Rightarrow> 't SiteIPRules option \<Rightarrow> string \<Rightarrow> PolicyDecision" where
  "SiteIPRules_Decision lib bt ro host =
     (case ro of
        None \<Rightarrow> no_decision
      | Some r \<Rightarrow>
          (let host = normalizedPolicyHost host
           in if host = [] then no_decision
              else case netip_ParseAddr lib host of
                None \<Rightarrow> no_decision
              | Some a \<Rightarrow>
                  (if bart_Lookup bt (s_exceptions r) a then bypass_decision ''site_ip_exception'' (addr_String lib a)
                   else if bart_Lookup bt (s_grey r) a then grey_decision ''site_ip_grey'' (addr_String lib a)
                   else if bart_Lookup bt (s_blocked r) a then block_decision ''site_ip'' (addr_String lib a)
                   else no_decision)))"

section \<open>File rules\<close>

record FileRulesConfig =
  fc_BannedExtensions :: "string list"
  fc_ExceptionExtensions :: "string list"
  fc_BannedMIMEs :: "string list"
  fc_ExceptionMIMEs :: "string list"
  fc_BannedFilenames :: "string list"
  fc_ExceptionFilenames :: "string list"

text \<open>The Go sets \<open>map[string]struct{}\<close> are lists of their members.\<close>

record FileRules =
  bannedExtensions :: "string list"
  exceptionExtensions :: "string list"
  bannedMIMEs :: "string list"
  exceptionMIMEs :: "string list"
  bannedFilenames :: "string list"
  exceptionFilenames :: "string list"

record fileMatchInput =
  fi_URL :: string
  fi_Filename :: string
  fi_ContentType :: string

definition normalizedSet :: "string list \<Rightarrow> (string \<Rightarrow> string) \<Rightarrow> string list" where
  "normalizedSet values norm = filter (\<lambda>v. v \<noteq> []) (map norm values)"

definition normalizeExtensionRule :: "string \<Rightarrow> string" where
  "normalizeExtensionRule ext =
     (let ext = trim_space (to_lower ext)
      in if ext = [] then []
         else let ext = trim_prefix ''*'' ext
              in if prefix ''.'' ext then ext else ''.'' @ ext)"

definition normalizeFilenameRule :: "string \<Rightarrow> string" where
  "normalizeFilenameRule filename =
     (let filename = trim_space (to_lower filename)
      in if filename = [] \<or> filename = ''.'' \<or> filename = ''/'' then []
         else let filename = path_Base (map (\<lambda>c. if c = CHR 0x5C then slash else c) filename)
              in if filename = ''.'' \<or> filename = ''/'' then [] else filename)"

definition normalizeMIMEType :: "go_lib \<Rightarrow> string \<Rightarrow> string" where
  "normalizeMIMEType lib val =
     (let val = trim_space (to_lower val)
      in if val = [] then []
         else case mime_ParseMediaType lib val of Some (mediaType, _) \<Rightarrow> mediaType | None \<Rightarrow> val)"

definition mimeSetMatches :: "string list \<Rightarrow> string \<Rightarrow> bool" where
  "mimeSetMatches ms val =
     (if val \<in> set ms then True
      else case strings_Cut val slash of
        (major, _, ok) \<Rightarrow> (if \<not> ok \<or> major = [] then False else (major @ ''/*'') \<in> set ms))"

definition NewFileRules :: "go_lib \<Rightarrow> FileRulesConfig \<Rightarrow> FileRules" where
  "NewFileRules lib cfg =
     \<lparr>bannedExtensions = normalizedSet (fc_BannedExtensions cfg) normalizeExtensionRule,
      exceptionExtensions = normalizedSet (fc_ExceptionExtensions cfg) normalizeExtensionRule,
      bannedMIMEs = normalizedSet (fc_BannedMIMEs cfg) (normalizeMIMEType lib),
      exceptionMIMEs = normalizedSet (fc_ExceptionMIMEs cfg) (normalizeMIMEType lib),
      bannedFilenames = normalizedSet (fc_BannedFilenames cfg) normalizeFilenameRule,
      exceptionFilenames = normalizedSet (fc_ExceptionFilenames cfg) normalizeFilenameRule\<rparr>"

definition FileRules_Decision :: "go_lib \<Rightarrow> FileRules option \<Rightarrow> fileMatchInput \<Rightarrow> PolicyDecision" where
  "FileRules_Decision lib ro inp =
     (case ro of
        None \<Rightarrow> no_decision
      | Some r \<Rightarrow>
          (let filename = normalizeFilenameRule (fi_Filename inp);
               ext = normalizeExtensionRule (filepath_Ext filename);
               mimeType = normalizeMIMEType lib (fi_ContentType inp)
           in if filename \<noteq> [] \<and> filename \<in> set (exceptionFilenames r) then no_decision
              else if ext \<noteq> [] \<and> ext \<in> set (exceptionExtensions r) then no_decision
              else if mimeType \<noteq> [] \<and> mimeSetMatches (exceptionMIMEs r) mimeType then no_decision
              else if filename \<noteq> [] \<and> filename \<in> set (bannedFilenames r) then block_decision ''filename'' filename
              else if ext \<noteq> [] \<and> ext \<in> set (bannedExtensions r) then block_decision ''extension'' ext
              else if mimeType \<noteq> [] \<and> mimeSetMatches (bannedMIMEs r) mimeType then block_decision ''mime'' mimeType
              else no_decision))"

definition filenameFromURL :: "go_lib \<Rightarrow> url option \<Rightarrow> string" where
  "filenameFromURL lib uo =
     (case uo of
        None \<Rightarrow> []
      | Some u \<Rightarrow>
          (let escaped = u_escaped_path u
           in if escaped = [] \<or> escaped = ''/'' then []
              else normalizeFilenameRule (case url_PathUnescape lib escaped of Some s \<Rightarrow> s | None \<Rightarrow> escaped)))"

definition media_param :: "(string \<times> string) list \<Rightarrow> string \<Rightarrow> string" where
  "media_param params k = (case map_of params k of None \<Rightarrow> [] | Some v \<Rightarrow> v)"

definition responseFilename :: "go_lib \<Rightarrow> response option \<Rightarrow> string" where
  "responseFilename lib ro =
     (case ro of
        None \<Rightarrow> []
      | Some resp \<Rightarrow>
          (let cd = header_Get (resp_header resp) ''Content-Disposition''
           in if cd = [] then []
              else case mime_ParseMediaType lib cd of
                None \<Rightarrow> []
              | Some (_, params) \<Rightarrow>
                  (if media_param params ''filename'' \<noteq> [] then normalizeFilenameRule (media_param params ''filename'')
                   else if media_param params ''filename*'' \<noteq> [] then normalizeFilenameRule (media_param params ''filename*'')
                   else [])))"

section \<open>URL rules\<close>

record URLRedirectRule =
  rd_Regex :: regexp
  rd_Replace :: string
  rd_Status :: nat

record URLRulesConfig =
  uc_LocalExceptions :: "string list"
  uc_LocalGrey :: "string list"
  uc_LocalBlocked :: "string list"
  uc_Exceptions :: "string list"
  uc_Grey :: "string list"
  uc_Blocked :: "string list"
  uc_BlockRegex :: "RegexRule list"
  uc_AllowRegex :: "RegexRule list"
  uc_Rewrites :: "RegexRule list"
  uc_Redirects :: "RegexRule list"

record URLRules =
  ul_localExceptions :: "string list"
  ul_localGrey :: "string list"
  ul_localBlocked :: "string list"
  ul_exceptions :: "string list"
  ul_grey :: "string list"
  ul_blocked :: "string list"
  ul_blockRegex :: "regexp list"
  ul_allowRegex :: "regexp list"
  ul_rewrites :: "HeaderRewriteRule list"
  ul_redirects :: "URLRedirectRule list"

definition normalize_policy_url :: "go_lib \<Rightarrow> string \<Rightarrow> string" where
  "normalize_policy_url lib s =
     (case url_Parse lib s of
        Some u \<Rightarrow>
          (if u_scheme u \<noteq> [] \<and> u_host u \<noteq> []
           then u_scheme u @ ''://'' @ to_lower (u_host u) @ u_escaped_path u @
                (if u_raw_query u \<noteq> [] then ''?'' @ u_raw_query u else [])
           else s)
      | None \<Rightarrow> s)"

definition normalizePolicyURLs :: "go_lib \<Rightarrow> string list \<Rightarrow> string list" where
  "normalizePolicyURLs lib entries =
     map (normalize_policy_url lib) (filter (\<lambda>s. s \<noteq> []) (map trim_space entries))"

definition urlRuleMatches :: "string \<Rightarrow> string \<Rightarrow> bool" where
  "urlRuleMatches rawURL rule = (rawURL = rule \<or> prefix rule rawURL)"

definition NewURLRules :: "go_lib \<Rightarrow> URLRulesConfig \<Rightarrow> URLRules result" where
  "NewURLRules lib cfg =
     rbind (result_map (compilePolicyRegex lib) (uc_BlockRegex cfg)) (\<lambda>brx.
     rbind (result_map (compilePolicyRegex lib) (uc_AllowRegex cfg)) (\<lambda>arx.
     rbind (result_map (compile_rewrite lib) (uc_Rewrites cfg)) (\<lambda>rws.
     rbind (result_map (compile_rewrite lib) (uc_Redirects cfg)) (\<lambda>rds.
     Inr \<lparr>ul_localExceptions = normalizePolicyURLs lib (uc_LocalExceptions cfg),
          ul_localGrey = normalizePolicyURLs lib (uc_LocalGrey cfg),
          ul_localBlocked = normalizePolicyURLs lib (uc_LocalBlocked cfg),
          ul_exceptions = normalizePolicyURLs lib (uc_Exceptions cfg),
          ul_grey = normalizePolicyURLs lib (uc_Grey cfg),
          ul_blocked = normalizePolicyURLs lib (uc_Blocked cfg),
          ul_blockRegex = brx, ul_allowRegex = arx,
          ul_rewrites = map (\<lambda>(rx, rep). \<lparr>hr_Regex = rx, hr_Replace = rep\<rparr>) rws,
          ul_redirects = map (\<lambda>(rx, rep). \<lparr>rd_Regex = rx, rd_Replace = rep, rd_Status = 302\<rparr>) rds\<rparr>))))"

definition first_url_entry :: "string list \<Rightarrow> string \<Rightarrow> string option" where
  "first_url_entry entries rawURL = List.find (urlRuleMatches rawURL) entries"

text \<open>The decision as the loops try it: the first list with a matching entry decides.\<close>

fun first_some :: "'a option list \<Rightarrow> 'a option" where
  "first_some [] = None"
| "first_some (None # xs) = first_some xs"
| "first_some (Some x # xs) = Some x"

definition URLRules_Decision :: "URLRules option \<Rightarrow> string \<Rightarrow> PolicyDecision" where
  "URLRules_Decision ro rawURL =
     (case ro of
        None \<Rightarrow> no_decision
      | Some r \<Rightarrow>
          (if rawURL = [] then no_decision
           else case first_some
             [map_option (bypass_decision ''url_local_exception'') (first_url_entry (ul_localExceptions r) rawURL),
              map_option (grey_decision ''url_local_grey'') (first_url_entry (ul_localGrey r) rawURL),
              map_option (block_decision ''url_local'') (first_url_entry (ul_localBlocked r) rawURL),
              map_option (bypass_decision ''url_exception'') (first_url_entry (ul_exceptions r) rawURL),
              map_option (\<lambda>rx. bypass_decision ''url_exception_regex'' (rx_string rx)) (first_regex (ul_allowRegex r) rawURL),
              map_option (grey_decision ''url_grey'') (first_url_entry (ul_grey r) rawURL),
              map_option (block_decision ''url'') (first_url_entry (ul_blocked r) rawURL),
              map_option (\<lambda>rx. block_decision ''url_regex'' (rx_string rx)) (first_regex (ul_blockRegex r) rawURL)]
           of Some d \<Rightarrow> d | None \<Rightarrow> no_decision))"

definition canonicalPolicyURL :: "request option \<Rightarrow> string \<Rightarrow> string" where
  "canonicalPolicyURL ro fallbackScheme =
     (case ro of None \<Rightarrow> [] | Some req \<Rightarrow>
       (case req_url req of None \<Rightarrow> [] | Some u \<Rightarrow>
         (let scheme = to_lower (u_scheme u);
              scheme = (if scheme = [] then to_lower (trim_space fallbackScheme) else scheme);
              scheme = (if scheme = [] then ''http'' else scheme);
              host = (if u_host u = [] then req_host req else u_host u)
          in if host = [] then []
             else let host = to_lower host;
                      host = (case net_SplitHostPort host of
                                Some (h, port) \<Rightarrow>
                                  (let h = to_lower h
                                   in if scheme = ''http'' \<and> port = ''80'' \<or> scheme = ''https'' \<and> port = ''443''
                                      then h else net_JoinHostPort h port)
                              | None \<Rightarrow> host);
                      path = (if u_escaped_path u = [] then ''/'' else u_escaped_path u)
                  in scheme @ ''://'' @ host @ path @
                     (if u_raw_query u \<noteq> [] then ''?'' @ u_raw_query u else []))))"

definition getHost :: "go_lib \<Rightarrow> string \<Rightarrow> string" where
  "getHost lib rawURL = (case url_Parse lib rawURL of Some u \<Rightarrow> to_lower (u_host u) | None \<Rightarrow> [])"

text \<open>The loop of \<open>RewriteURL\<close> from \<open>currentURL\<close>, with the guard that the host stays.\<close>

fun rewrite_url_loop :: "go_lib \<Rightarrow> string \<Rightarrow> HeaderRewriteRule list \<Rightarrow> string \<times> bool \<Rightarrow> string \<times> bool" where
  "rewrite_url_loop lib rawURL [] st = st"
| "rewrite_url_loop lib rawURL (rule # rules) (currentURL, modified) =
     (if rx_match (hr_Regex rule) currentURL
      then let newURL = rx_replace_all (hr_Regex rule) currentURL (hr_Replace rule)
           in if getHost lib newURL = getHost lib rawURL
              then rewrite_url_loop lib rawURL rules (newURL, True)
              else rewrite_url_loop lib rawURL rules (currentURL, modified)
      else rewrite_url_loop lib rawURL rules (currentURL, modified))"

definition RewriteURL :: "go_lib \<Rightarrow> URLRules option \<Rightarrow> string \<Rightarrow> string \<times> bool" where
  "RewriteURL lib ro rawURL =
     (case ro of
        None \<Rightarrow> (rawURL, False)
      | Some r \<Rightarrow>
          (if ul_rewrites r = [] then (rawURL, False)
           else rewrite_url_loop lib rawURL (ul_rewrites r) (rawURL, False)))"

definition RedirectDecision :: "URLRules option \<Rightarrow> string \<Rightarrow> PolicyDecision \<times> bool" where
  "RedirectDecision ro rawURL =
     (case ro of
        None \<Rightarrow> (no_decision, False)
      | Some r \<Rightarrow>
          (case List.find (\<lambda>rule. rx_match (rd_Regex rule) rawURL) (ul_redirects r) of
             None \<Rightarrow> (no_decision, False)
           | Some rule \<Rightarrow>
               (no_decision\<lparr>Redirect := True,
                  RedirectURL := rx_replace_all (rd_Regex rule) rawURL (rd_Replace rule),
                  MatchType := ''url_redirect'', Value := rx_string (rd_Regex rule)\<rparr>, True)))"

section \<open>Log rules\<close>

record LogRulesConfig =
  lc_LogURLs :: "string list"
  lc_ExceptionLogURLs :: "string list"
  lc_LogSites :: "string list"
  lc_LogSiteIPs :: "string list"
  lc_LogRegexURLs :: "RegexRule list"
  lc_ExceptionLogRegexURLs :: "RegexRule list"
  lc_LogRegexSites :: "RegexRule list"
  lc_ExceptionLogRegexSites :: "RegexRule list"
  lc_NoLogSites :: "string list"
  lc_NoLogSiteIPs :: "string list"
  lc_NoLogURLs :: "string list"
  lc_NoLogRegexURLs :: "RegexRule list"
  lc_NoLogExtensions :: "string list"

record 't LogRules =
  logURLs :: "string list"
  exceptionLogURLs :: "string list"
  logSites :: domainTrie
  logSiteIPs :: 't
  logRegexURLs :: "regexp list"
  exceptionLogRegexURLs :: "regexp list"
  logRegexSites :: "regexp list"
  exceptionLogRegexSites :: "regexp list"
  noLogSites :: domainTrie
  noLogSiteIPs :: 't
  noLogURLs :: "string list"
  noLogRegexURLs :: "regexp list"
  noLogExtensions :: "string list"

definition NewLogRules :: "go_lib \<Rightarrow> 't bart \<Rightarrow> LogRulesConfig \<Rightarrow> 't LogRules result" where
  "NewLogRules lib bt cfg =
     rbind (no_panic (Compile (foldl Add empty_domainTrie (lc_LogSites cfg)))) (\<lambda>ls.
     rbind (no_panic (Compile (foldl Add empty_domainTrie (lc_NoLogSites cfg)))) (\<lambda>nls.
     rbind (named_ips ''logsiteiplist'' (insertIPPrefixes lib bt (bart_new bt) (lc_LogSiteIPs cfg))) (\<lambda>lip.
     rbind (named_ips ''nologsiteiplist'' (insertIPPrefixes lib bt (bart_new bt) (lc_NoLogSiteIPs cfg))) (\<lambda>nlip.
     rbind (result_map (compilePolicyRegex lib) (lc_LogRegexURLs cfg)) (\<lambda>lru.
     rbind (result_map (compilePolicyRegex lib) (lc_ExceptionLogRegexURLs cfg)) (\<lambda>elru.
     rbind (result_map (compilePolicyRegex lib) (lc_LogRegexSites cfg)) (\<lambda>lrs.
     rbind (result_map (compilePolicyRegex lib) (lc_ExceptionLogRegexSites cfg)) (\<lambda>elrs.
     rbind (result_map (compilePolicyRegex lib) (lc_NoLogRegexURLs cfg)) (\<lambda>nlru.
     Inr \<lparr>logURLs = normalizePolicyURLs lib (lc_LogURLs cfg),
          exceptionLogURLs = normalizePolicyURLs lib (lc_ExceptionLogURLs cfg),
          logSites = ls, logSiteIPs = lip, logRegexURLs = lru, exceptionLogRegexURLs = elru,
          logRegexSites = lrs, exceptionLogRegexSites = elrs, noLogSites = nls, noLogSiteIPs = nlip,
          noLogURLs = normalizePolicyURLs lib (lc_NoLogURLs cfg), noLogRegexURLs = nlru,
          noLogExtensions = normalizedSet (lc_NoLogExtensions cfg) normalizeExtensionRule\<rparr>)))))))))"

definition requestURLExtension :: "go_lib \<Rightarrow> request option \<Rightarrow> string" where
  "requestURLExtension lib ro =
     (case ro of None \<Rightarrow> [] | Some req \<Rightarrow>
       (case req_url req of None \<Rightarrow> []
        | Some u \<Rightarrow> normalizeExtensionRule (filepath_Ext (filenameFromURL lib (Some u)))))"

section \<open>Referer rules\<close>

record RefererRulesConfig =
  rc_ExceptionSites :: "string list"
  rc_ExceptionSiteIPs :: "string list"
  rc_ExceptionURLs :: "string list"

record 't RefererRules =
  rf_exceptionSites :: DomainMatcher
  rf_exceptionSiteIPs :: 't
  rf_exceptionURLs :: "string list"

definition NewRefererRules :: "go_lib \<Rightarrow> 't bart \<Rightarrow> RefererRulesConfig \<Rightarrow> 't RefererRules result" where
  "NewRefererRules lib bt cfg =
     rbind (no_panic (NewDomainMatcher (rc_ExceptionSites cfg))) (\<lambda>m.
     rbind (named_ips ''refererexceptionsiteiplist''
              (insertIPPrefixes lib bt (bart_new bt) (rc_ExceptionSiteIPs cfg))) (\<lambda>ips.
     Inr \<lparr>rf_exceptionSites = m, rf_exceptionSiteIPs = ips,
          rf_exceptionURLs = normalizePolicyURLs lib (rc_ExceptionURLs cfg)\<rparr>))"

definition bracket_host :: "string \<Rightarrow> string" where
  "bracket_host host = (if colon \<in> set host then ''['' @ host @ '']'' else host)"

definition canonicalRefererURLAndHost :: "go_lib \<Rightarrow> string \<Rightarrow> string \<times> string" where
  "canonicalRefererURLAndHost lib rawReferer =
     (let rawReferer = trim_space rawReferer
      in if rawReferer = [] then ([], [])
         else case url_Parse lib rawReferer of
           None \<Rightarrow> ([], [])
         | Some u \<Rightarrow>
             (if u_scheme u = [] \<or> u_host u = [] then ([], [])
              else let scheme = to_lower (u_scheme u);
                       host = normalizedPolicyHost (u_host u);
                       tail = u_escaped_path u @ (if u_raw_query u \<noteq> [] then ''?'' @ u_raw_query u else [])
                   in if host = [] then ([], [])
                      else case net_SplitHostPort (u_host u) of
                        None \<Rightarrow> (scheme @ ''://'' @ bracket_host host @ tail, host)
                      | Some (splitHost, port) \<Rightarrow>
                          (let splitHost = normalizedPolicyHost splitHost
                           in if splitHost = [] then ([], [])
                              else let urlHost =
                                         (if scheme = ''http'' \<and> port = ''80'' \<or> scheme = ''https'' \<and> port = ''443''
                                          then bracket_host splitHost else net_JoinHostPort splitHost port)
                                   in (scheme @ ''://'' @ urlHost @ tail, splitHost))))"

definition RefererRules_Decision :: "go_lib \<Rightarrow> 't bart \<Rightarrow> 't RefererRules option \<Rightarrow> string \<Rightarrow> PolicyDecision option" where
  "RefererRules_Decision lib bt ro referer =
     (case ro of
        None \<Rightarrow> Some no_decision
      | Some r \<Rightarrow>
          (case canonicalRefererURLAndHost lib referer of (rawURL, host) \<Rightarrow>
            (if rawURL = [] \<or> host = [] then Some no_decision
             else do {
               m \<leftarrow> DomainMatcher_Match (Some (rf_exceptionSites r)) host;
               if m then Some (bypass_decision ''referer_site_exception'' host)
               else if ipPrefixTableMatches lib bt (rf_exceptionSiteIPs r) host
               then Some (bypass_decision ''referer_site_ip_exception'' host)
               else Some (case first_url_entry (rf_exceptionURLs r) rawURL of
                            Some entry \<Rightarrow> bypass_decision ''referer_url_exception'' entry
                          | None \<Rightarrow> no_decision) })))"

section \<open>Lemmas\<close>

lemma normalizedPhrases_from_set:
  "set (normalizedPhrases_from out vs) = set out \<union> {v \<in> (\<lambda>v. to_lower (trim_space v)) ` set vs. v \<noteq> []}"
  by (induction out vs rule: normalizedPhrases_from.induct) (auto simp: Let_def)

lemma normalizedPhrases_set:
  "set (normalizedPhrases vs) = {v \<in> (\<lambda>v. to_lower (trim_space v)) ` set vs. v \<noteq> []}"
  by (simp add: normalizedPhrases_def normalizedPhrases_from_set)

lemma normalizedPhrases_distinct: "distinct out \<Longrightarrow> distinct (normalizedPhrases_from out vs)"
  by (induction out vs rule: normalizedPhrases_from.induct) (auto simp: Let_def)

lemma firstPhraseMatch_empty:
  "[] \<notin> set ps \<Longrightarrow> firstPhraseMatch ps s = [] \<longleftrightarrow> (\<forall>p\<in>set ps. \<not> sublist p s)"
  by (induction ps) auto

lemma phraseListMatches_normalized:
  "phraseListMatches (normalizedPhrases vs) s \<longleftrightarrow>
     (\<exists>v\<in>set vs. to_lower (trim_space v) \<noteq> [] \<and> sublist (to_lower (trim_space v)) s)"
proof -
  have "[] \<notin> set (normalizedPhrases vs)" by (auto simp: normalizedPhrases_set)
  then show ?thesis
    by (auto simp: phraseListMatches_def firstPhraseMatch_empty normalizedPhrases_set)
qed

lemma first_decision_blocked:
  assumes "\<And>x d. f x = Some d \<Longrightarrow> Blocked d"
  shows "Blocked (first_decision f xs) \<longleftrightarrow> (\<exists>x\<in>set xs. f x \<noteq> None)"
  using assms by (induction xs) (auto split: option.splits)

lemma first_decision_cases: "first_decision f xs = no_decision \<or> (\<exists>x\<in>set xs. f x = Some (first_decision f xs))"
  by (induction xs) (auto split: option.splits)

lemma insertIPPrefixes_lookup:
  assumes "bart_lawful bt" "insertIPPrefixes lib bt t es = Inr t'"
  shows "bart_Lookup bt t' a \<longleftrightarrow>
    bart_Lookup bt t a \<or>
    (\<exists>e\<in>set es. trim_space e \<noteq> [] \<and> (\<exists>p. parse_ip_entry lib (trim_space e) = Some p \<and> prefix_contains p a))"
  using assms(2)
proof (induction es arbitrary: t)
  case (Cons e es)
  then show ?case
    using assms(1) by (auto simp: Let_def bart_lawful_def split: if_splits option.splits)
qed simp

lemma find_urlRule: "first_url_entry es u = None \<longleftrightarrow> (\<forall>e\<in>set es. \<not> prefix e u)"
  by (auto simp: first_url_entry_def find_None_iff urlRuleMatches_def)

section \<open>Properties of the rule components\<close>

lemma header_lines_set:
  "set (header_lines h) = {header_line key v | key values v. (key, values) \<in> set h \<and> v \<in> set values}"
  by (auto simp: header_lines_def)

lemma header_line_decision_Some:
  assumes "NewHeaderRules lib cfg = Inr r"
  shows "(header_line_decision r line \<noteq> None) \<longleftrightarrow>
    \<not> (phraseListMatches (h_exception r) (to_lower line) \<or> regexListMatches (h_exceptionRegex r) line) \<and>
    (phraseListMatches (h_banned r) (to_lower line) \<or> regexListMatches (h_blockRegex r) line)"
  by (auto simp: header_line_decision_def Let_def phraseListMatches_def regexListMatches_def list_ex_iff
      first_regex_None simp flip: not_None_eq dest: first_regex_Some split: if_splits)

lemma header_line_decision_Blocked: "header_line_decision r line = Some d \<Longrightarrow> Blocked d \<and> \<not> BypassFilters d"
  by (auto simp: header_line_decision_def Let_def split: if_splits)

text \<open>
  C13: \<open>HeaderRules.Decision\<close> blocks exactly when some header line carries a
  banned phrase (case-insensitively) or matches a ban regex and that very line
  is not excepted; whether it blocks does not depend on the iteration order of
  the header map.
\<close>

theorem HeaderRules_Decision_blocked:
  assumes "NewHeaderRules lib cfg = Inr r"
  shows "Blocked (HeaderRules_Decision (Some r) h) \<longleftrightarrow>
    (\<exists>(key, values)\<in>set h. \<exists>v\<in>set values. let line = header_line key v in
       \<not> (\<exists>x\<in>set (hc_Exception cfg). to_lower (trim_space x) \<noteq> [] \<and> sublist (to_lower (trim_space x)) (to_lower line)) \<and>
       \<not> regexListMatches (h_exceptionRegex r) line \<and>
       ((\<exists>b\<in>set (hc_Banned cfg). to_lower (trim_space b) \<noteq> [] \<and> sublist (to_lower (trim_space b)) (to_lower line)) \<or>
        regexListMatches (h_blockRegex r) line))"
proof -
  have "h_banned r = normalizedPhrases (hc_Banned cfg)" "h_exception r = normalizedPhrases (hc_Exception cfg)"
    using assms by (auto simp: NewHeaderRules_def rbind_eq_Inr)
  moreover have "Blocked (HeaderRules_Decision (Some r) h) \<longleftrightarrow> (\<exists>line\<in>set (header_lines h). header_line_decision r line \<noteq> None)"
    using header_line_decision_Blocked
    by (auto simp: HeaderRules_Decision_def first_decision_blocked header_lines_def)
  moreover have "(\<exists>line\<in>set (header_lines h). header_line_decision r line \<noteq> None) \<longleftrightarrow>
      (\<exists>(key, values)\<in>set h. \<exists>v\<in>set values. header_line_decision r (header_line key v) \<noteq> None)"
    unfolding header_lines_set by fastforce
  ultimately show ?thesis
    unfolding header_line_decision_Some [OF assms] by (simp add: phraseListMatches_normalized Let_def)
qed

theorem HeaderRules_Decision_blocked_witness:
  "\<exists>r. NewHeaderRules null_lib \<lparr>hc_Banned = ['' X-Evil ''], hc_Exception = [''trusted''], hc_BlockRegex = [],
         hc_ExceptionRegex = [], hc_RequestRewrites = [], hc_ResponseRewrites = [], hc_RequestAdds = []\<rparr> = Inr r \<and>
     Blocked (HeaderRules_Decision (Some r) [(''Accept'', [''a'']), (''X-Evil'', [''1''])]) \<and>
     \<not> Blocked (HeaderRules_Decision (Some r) [(''X-Evil'', [''trusted''])])"
proof -
  let ?cfg = "\<lparr>hc_Banned = ['' X-Evil ''], hc_Exception = [''trusted''], hc_BlockRegex = [],
    hc_ExceptionRegex = [], hc_RequestRewrites = [], hc_ResponseRewrites = [], hc_RequestAdds = []\<rparr>"
  obtain r where r: "NewHeaderRules null_lib ?cfg = Inr r" "h_exceptionRegex r = []" "h_blockRegex r = []"
    by (simp add: NewHeaderRules_def)
  have t: "to_lower (trim_space '' X-Evil '') = ''x-evil''" "to_lower (trim_space ''trusted'') = ''trusted''"
    by code_simp+
  have s: "sublist ''x-evil'' (to_lower (header_line ''X-Evil'' ''1''))"
    "\<not> sublist ''trusted'' (to_lower (header_line ''X-Evil'' ''1''))"
    "sublist ''trusted'' (to_lower (header_line ''X-Evil'' ''trusted''))"
    by code_simp+
  show ?thesis
    using HeaderRules_Decision_blocked [OF r(1), of "[(''Accept'', [''a'']), (''X-Evil'', [''1''])]"]
      HeaderRules_Decision_blocked [OF r(1), of "[(''X-Evil'', [''trusted''])]"] r s
    by (auto simp: t Let_def regexListMatches_def)
qed

definition ip_listed :: "go_lib \<Rightarrow> string list \<Rightarrow> addr \<Rightarrow> bool" where
  "ip_listed lib es a =
     list_ex (\<lambda>e. trim_space e \<noteq> [] \<and>
       (case parse_ip_entry lib (trim_space e) of None \<Rightarrow> False | Some p \<Rightarrow> prefix_contains p a)) es"

lemma insertIPPrefixes_listed:
  assumes "bart_lawful bt" "named_ips name (insertIPPrefixes lib bt (bart_new bt) es) = Inr t"
  shows "bart_Lookup bt t a = ip_listed lib es a"
proof -
  have "insertIPPrefixes lib bt (bart_new bt) es = Inr t"
    using assms(2) by (auto simp: named_ips_def split: sum.splits gate_error.splits)
  then show ?thesis
    using insertIPPrefixes_lookup [OF assms(1), of lib "bart_new bt" es t a] assms(1)
    by (auto simp: ip_listed_def list_ex_iff bart_lawful_def split: option.splits)
qed

text \<open>
  C16: \<open>SiteIPRules.Decision\<close> on constructed rules, given the documented law of
  the prefix table: a host is blocked exactly when it is a literal address
  contained in a banned prefix and in no excepted and no grey prefix, and
  bypasses the filters exactly when an excepted prefix contains it.
\<close>

theorem SiteIPRules_Decision_verdict:
  assumes "bart_lawful bt" "NewSiteIPRules lib bt cfg = Inr r"
  shows "let d = SiteIPRules_Decision lib bt (Some r) host;
             a = (if normalizedPolicyHost host = [] then None else netip_ParseAddr lib (normalizedPolicyHost host))
         in (Blocked d \<longleftrightarrow> (\<exists>x. a = Some x \<and> ip_listed lib (sc_Blocked cfg) x \<and>
               \<not> ip_listed lib (sc_Exceptions cfg) x \<and> \<not> ip_listed lib (sc_Grey cfg) x)) \<and>
            (BypassFilters d \<longleftrightarrow> (\<exists>x. a = Some x \<and> ip_listed lib (sc_Exceptions cfg) x))"
  using assms(2) insertIPPrefixes_listed [OF assms(1)]
  by (auto simp: NewSiteIPRules_def rbind_eq_Inr SiteIPRules_Decision_def Let_def split: option.splits)

theorem SiteIPRules_Decision_verdict_witness:
  "\<exists>r. NewSiteIPRules (null_lib\<lparr>netip_ParsePrefix := (\<lambda>s. if s = ''10.0.0.0/8'' then Some (Prefix (Addr 32 167772160) 8) else None),
         netip_ParseAddr := (\<lambda>s. if s = ''10.1.2.3'' then Some (Addr 32 167838211) else None)\<rparr>) bart_list
         \<lparr>sc_Blocked = [''10.0.0.0/8''], sc_Exceptions = [], sc_Grey = []\<rparr> = Inr r \<and>
     Blocked (SiteIPRules_Decision (null_lib\<lparr>netip_ParsePrefix := (\<lambda>s. if s = ''10.0.0.0/8'' then Some (Prefix (Addr 32 167772160) 8) else None),
         netip_ParseAddr := (\<lambda>s. if s = ''10.1.2.3'' then Some (Addr 32 167838211) else None)\<rparr>) bart_list (Some r) ''10.1.2.3'')"
proof -
  let ?lib = "null_lib\<lparr>netip_ParsePrefix := (\<lambda>s. if s = ''10.0.0.0/8'' then Some (Prefix (Addr 32 167772160) 8) else None),
         netip_ParseAddr := (\<lambda>s. if s = ''10.1.2.3'' then Some (Addr 32 167838211) else None)\<rparr>"
  let ?cfg = "\<lparr>sc_Blocked = [''10.0.0.0/8''], sc_Exceptions = [], sc_Grey = []\<rparr>"
  have t: "trim_space ''10.0.0.0/8'' = ''10.0.0.0/8''" "normalizedPolicyHost ''10.1.2.3'' = ''10.1.2.3''" by code_simp+
  have p: "parse_ip_entry ?lib ''10.0.0.0/8'' = Some (Prefix (Addr 32 167772160) 8)"
    by (simp add: parse_ip_entry_def)
  obtain r where r: "NewSiteIPRules ?lib bart_list ?cfg = Inr r"
    using t p by (simp add: NewSiteIPRules_def named_ips_def Let_def)
  have "ip_listed ?lib [''10.0.0.0/8''] (Addr 32 167838211)"
    using t p by (simp add: ip_listed_def prefix_contains_def)
  then show ?thesis
    using SiteIPRules_Decision_verdict [OF bart_lawful_list r, of "''10.1.2.3''"] r t
    by (simp add: Let_def ip_listed_def [of _ "[]"])
qed


end
