(* ===== verification/Policy.thy ===== *)
theory Policy
  imports Policy_Rules
begin

text \<open>
  The \<open>Policy\<close> of \<open>proxy/policy.go\<close>: construction from the component
  configurations, evaluation of requests, responses and logging, and the header
  rewriting and URL rewriting it offers to the relay.  The lemmas characterise
  what blocks a request, what bypasses the content filters, which headers a
  rewrite can touch, and show that URL rewriting keeps the host.
\<close>

section \<open>Policy and its construction\<close>

record PolicyConfig =
  pc_Domains :: DomainRulesConfig
  pc_SiteIPs :: SiteIPRulesConfig
  pc_URLs :: URLRulesConfig
  pc_Files :: FileRulesConfig
  pc_Headers :: HeaderRulesConfig
  pc_Cookies :: CookieRulesConfig
  pc_Log :: LogRulesConfig
  pc_Referer :: RefererRulesConfig

record 't Policy =
  p_domains :: "DomainRules option"
  p_siteIPs :: "'t SiteIPRules option"
  p_urls :: "URLRules option"
  p_files :: "FileRules option"
  p_headers :: "HeaderRules option"
  p_cookies :: "CookieRules option"
  p_log :: "'t LogRules option"
  p_referer :: "'t RefererRules option"

definition NewPolicy :: "go_lib \<Rightarrow> 't bart \<Rightarrow> PolicyConfig \<Rightarrow> 't Policy result" where
  "NewPolicy lib bt cfg =
     rbind (NewDomainRulesConfig lib (pc_Domains cfg)) (\<lambda>domains.
     rbind (NewSiteIPRules lib bt (pc_SiteIPs cfg)) (\<lambda>siteIPs.
     rbind (NewURLRules lib (pc_URLs cfg)) (\<lambda>urls.
     rbind (NewHeaderRules lib (pc_Headers cfg)) (\<lambda>headers.
     rbind (NewRefererRules lib bt (pc_Referer cfg)) (\<lambda>referer.
     rbind (NewLogRules lib bt (pc_Log cfg)) (\<lambda>log.
     Inr \<lparr>p_domains = Some domains, p_siteIPs = Some siteIPs, p_urls = Some urls,
          p_files = Some (NewFileRules lib (pc_Files cfg)), p_headers = Some headers,
          p_cookies = Some (NewCookieRules (pc_Cookies cfg)), p_log = Some log, p_referer = Some referer\<rparr>))))))"

definition RequiresResolvedSiteIP :: "'t Policy option \<Rightarrow> bool" where
  "RequiresResolvedSiteIP po =
     (case po of None \<Rightarrow> False | Some p \<Rightarrow> (case p_siteIPs p of None \<Rightarrow> False | Some s \<Rightarrow> hasEntries s))"

definition EvaluateResolvedDestinationIP :: "go_lib \<Rightarrow> 't bart \<Rightarrow> 't Policy option \<Rightarrow> string \<Rightarrow> PolicyDecision" where
  "EvaluateResolvedDestinationIP lib bt po host =
     (case po of None \<Rightarrow> no_decision | Some p \<Rightarrow> SiteIPRules_Decision lib bt (p_siteIPs p) host)"

section \<open>Requests and responses\<close>

text \<open>
  One stage of the evaluation: \<open>Inl d\<close> returns the blocking decision, \<open>Inr\<close>
  goes on with the final decision, replaced when the stage is the first to ask
  for a bypass.
\<close>

definition policy_stage :: "PolicyDecision \<Rightarrow> PolicyDecision \<Rightarrow> PolicyDecision + PolicyDecision" where
  "policy_stage final d =
     (if Blocked d then Inl d
      else if BypassFilters d \<and> \<not> BypassFilters final then Inr d
      else Inr final)"

definition stage_then :: "PolicyDecision + PolicyDecision \<Rightarrow> (PolicyDecision \<Rightarrow> PolicyDecision option) \<Rightarrow> PolicyDecision option" where
  "stage_then s k = (case s of Inl d \<Rightarrow> Some d | Inr final \<Rightarrow> k final)"

definition file_input :: "string \<Rightarrow> string \<Rightarrow> string \<Rightarrow> fileMatchInput" where
  "file_input u f c = \<lparr>fi_URL = u, fi_Filename = f, fi_ContentType = c\<rparr>"

definition EvaluateRequest ::
  "go_lib \<Rightarrow> 't bart \<Rightarrow> 't Policy option \<Rightarrow> string \<Rightarrow> request option \<Rightarrow> string \<Rightarrow> PolicyDecision option" where
  "EvaluateRequest lib bt po host ro scheme =
     (case po of None \<Rightarrow> Some no_decision | Some p \<Rightarrow> do {
        d \<leftarrow> DomainRules_Decision (p_domains p) host;
        stage_then (policy_stage no_decision d) (\<lambda>final.
        stage_then (policy_stage final (SiteIPRules_Decision lib bt (p_siteIPs p) host)) (\<lambda>final.
        case ro of None \<Rightarrow> Some final | Some req \<Rightarrow>
          (let rawURL = canonicalPolicyURL (Some req) scheme
           in stage_then (policy_stage final (URLRules_Decision (p_urls p) rawURL)) (\<lambda>final.
              stage_then (policy_stage final
                 (FileRules_Decision lib (p_files p) (file_input rawURL (filenameFromURL lib (req_url req)) []))) (\<lambda>final.
              stage_then (policy_stage final (HeaderRules_Decision (p_headers p) (req_header req))) (\<lambda>final.
              stage_then (policy_stage final (CookieRules_Decision (p_cookies p) (requestCookieValues (req_header req)))) (\<lambda>final.
              if \<not> BypassFilters final
              then do { d \<leftarrow> RefererRules_Decision lib bt (p_referer p) (header_Get (req_header req) ''Referer'');
                        Some (if BypassFilters d then d else final) }
              else Some final))))))) })"

definition EvaluateResponse ::
  "go_lib \<Rightarrow> 't Policy option \<Rightarrow> response option \<Rightarrow> string \<Rightarrow> PolicyDecision option" where
  "EvaluateResponse lib po ro scheme =
     (case po of None \<Rightarrow> Some no_decision | Some p \<Rightarrow>
       (case ro of None \<Rightarrow> Some no_decision | Some resp \<Rightarrow>
         (let filename = responseFilename lib (Some resp);
              rawURL = (case resp_request resp of None \<Rightarrow> [] | Some req \<Rightarrow> canonicalPolicyURL (Some req) scheme);
              filename = (case resp_request resp of
                            None \<Rightarrow> filename
                          | Some req \<Rightarrow> (if filename = [] then filenameFromURL lib (req_url req) else filename))
          in stage_then (policy_stage no_decision (FileRules_Decision lib (p_files p)
                 (file_input rawURL filename (header_Get (resp_header resp) ''Content-Type'')))) (\<lambda>final.
             stage_then (policy_stage final (HeaderRules_Decision (p_headers p) (resp_header resp))) (\<lambda>final.
             stage_then (policy_stage final (CookieRules_Decision (p_cookies p) (responseCookieValues (resp_header resp))))
               Some)))))"

definition evaluateDomain :: "'t Policy option \<Rightarrow> string \<Rightarrow> PolicyDecision option" where
  "evaluateDomain po host =
     (case po of None \<Rightarrow> Some no_decision | Some p \<Rightarrow> do {
        d \<leftarrow> DomainRules_Decision (p_domains p) host;
        Some (if Blocked d then d else no_decision) })"

section \<open>Logging\<close>

record LogVerdict =
  shouldLog :: bool
  suppressed :: bool
  lv_matchType :: string
  lv_listName :: string
  lv_matchVal :: string

definition no_log :: LogVerdict where
  "no_log = \<lparr>shouldLog = False, suppressed = False, lv_matchType = [], lv_listName = [], lv_matchVal = []\<rparr>"

definition suppress_log :: "string \<Rightarrow> string \<Rightarrow> string \<Rightarrow> LogVerdict" where
  "suppress_log mt ln v = \<lparr>shouldLog = False, suppressed = True, lv_matchType = mt, lv_listName = ln, lv_matchVal = v\<rparr>"

definition do_log :: "string \<Rightarrow> string \<Rightarrow> string \<Rightarrow> LogVerdict" where
  "do_log mt ln v = \<lparr>shouldLog = True, suppressed = False, lv_matchType = mt, lv_listName = ln, lv_matchVal = v\<rparr>"

definition when_some :: "bool \<Rightarrow> 'a \<Rightarrow> 'a option" where
  "when_some b x = (if b then Some x else None)"

definition EvaluateLogging ::
  "go_lib \<Rightarrow> 't bart \<Rightarrow> 't Policy option \<Rightarrow> string \<Rightarrow> request option \<Rightarrow> string \<Rightarrow> LogVerdict option" where
  "EvaluateLogging lib bt po host ro scheme =
     (case po of None \<Rightarrow> Some no_log | Some p \<Rightarrow>
       (case p_log p of None \<Rightarrow> Some no_log | Some l \<Rightarrow>
         (let rawURL = canonicalPolicyURL ro scheme; host = normalizedPolicyHost host;
              ext = requestURLExtension lib ro
          in do {
            noSite \<leftarrow> trie_answer (noLogSites l) host;
            site \<leftarrow> trie_answer (logSites l) host;
            Some (case first_some
              [map_option (suppress_log ''url'' ''exceptionlogurllist'') (first_url_entry (exceptionLogURLs l) rawURL),
               map_option (\<lambda>rx. suppress_log ''url_regex'' ''exceptionlogregexpurllist'' (rx_string rx))
                 (first_regex (exceptionLogRegexURLs l) rawURL),
               map_option (\<lambda>rx. suppress_log ''site_regex'' ''exceptionlogregexpsitelist'' (rx_string rx))
                 (first_regex (exceptionLogRegexSites l) host),
               when_some noSite (suppress_log ''site'' ''nologsitelist'' host),
               when_some (ipPrefixTableMatches lib bt (noLogSiteIPs l) host) (suppress_log ''site_ip'' ''nologsiteiplist'' host),
               map_option (suppress_log ''url'' ''nologurllist'') (first_url_entry (noLogURLs l) rawURL),
               map_option (\<lambda>rx. suppress_log ''url_regex'' ''nologregexpurllist'' (rx_string rx))
                 (first_regex (noLogRegexURLs l) rawURL),
               when_some (ext \<noteq> [] \<and> ext \<in> set (noLogExtensions l)) (suppress_log ''extension'' ''nologextensionlist'' ext),
               when_some site (do_log ''site'' ''logsitelist'' host),
               when_some (ipPrefixTableMatches lib bt (logSiteIPs l) host) (do_log ''site_ip'' ''logsiteiplist'' host),
               map_option (do_log ''url'' ''logurllist'') (first_url_entry (logURLs l) rawURL),
               map_option (\<lambda>rx. do_log ''url_regex'' ''logregexpurllist'' (rx_string rx)) (first_regex (logRegexURLs l) rawURL),
               map_option (\<lambda>rx. do_log ''site_regex'' ''logregexpsitelist'' (rx_string rx)) (first_regex (logRegexSites l) host)]
            of Some v \<Rightarrow> v | None \<Rightarrow> no_log) })))"

section \<open>Header rewriting\<close>

definition isDangerousRequestFramingHeader :: "string \<Rightarrow> bool" where
  "isDangerousRequestFramingHeader key =
     (let k = CanonicalHeaderKey key
      in k = ''Content-Length'' \<or> k = ''Transfer-Encoding'' \<or> k = ''Host'' \<or> k = ''Connection'' \<or> k = ''Upgrade'')"

definition isDangerousResponseFramingHeader :: "string \<Rightarrow> bool" where
  "isDangerousResponseFramingHeader key =
     (let k = CanonicalHeaderKey key
      in k = ''Content-Length'' \<or> k = ''Transfer-Encoding'' \<or> k = ''Connection'' \<or> k = ''Upgrade'')"

text \<open>The rules applied to one line, with the \<open>modified\<close> flag.\<close>

fun rewrite_line :: "HeaderRewriteRule list \<Rightarrow> string \<times> bool \<Rightarrow> string \<times> bool" where
  "rewrite_line [] st = st"
| "rewrite_line (rule # rules) (line, modified) =
     (if rx_match (hr_Regex rule) line
      then rewrite_line rules (rx_replace_all (hr_Regex rule) line (hr_Replace rule), True)
      else rewrite_line rules (line, modified))"

text \<open>One value of one key, with the new header and the flag so far.\<close>

definition rewrite_value :: "HeaderRewriteRule list \<Rightarrow> bool \<Rightarrow> string \<Rightarrow> header \<times> bool \<Rightarrow> string \<Rightarrow> header \<times> bool" where
  "rewrite_value rules isFraming key st val =
     (case st of (newHeader, modified) \<Rightarrow>
       (let (newLine, modified) =
              (if isFraming then (header_line key val, modified)
               else rewrite_line rules (header_line key val, modified));
            newLine = trim_space newLine
        in if newLine = [] then (newHeader, True)
           else case index_byte newLine colon of
             None \<Rightarrow> (newHeader, True)
           | Some i \<Rightarrow>
               (if i = 0 then (newHeader, True)
                else (header_Add newHeader (trim_space (take i newLine)) (trim_space (drop (Suc i) newLine)), modified))))"

definition rewrite_headers :: "HeaderRewriteRule list \<Rightarrow> (string \<Rightarrow> bool) \<Rightarrow> header \<Rightarrow> header" where
  "rewrite_headers rules framing h =
     (let (newHeader, modified) =
            foldl (\<lambda>st (key, values). foldl (rewrite_value rules (framing key) key) st values) ([], False) h
      in if modified
         then foldl (\<lambda>h (k, v). AList.update k v h) (foldl header_Del h (map fst h)) newHeader
         else h)"

definition RewriteRequestHeaders :: "'t Policy option \<Rightarrow> header \<Rightarrow> header" where
  "RewriteRequestHeaders po h =
     (case po of None \<Rightarrow> h | Some p \<Rightarrow> (case p_headers p of None \<Rightarrow> h | Some hr \<Rightarrow>
       (if requestRewrites hr = [] then h
        else rewrite_headers (requestRewrites hr) isDangerousRequestFramingHeader h)))"

definition RewriteResponseHeaders :: "'t Policy option \<Rightarrow> header \<Rightarrow> header" where
  "RewriteResponseHeaders po h =
     (case po of None \<Rightarrow> h | Some p \<Rightarrow> (case p_headers p of None \<Rightarrow> h | Some hr \<Rightarrow>
       (if responseRewrites hr = [] then h
        else rewrite_headers (responseRewrites hr) isDangerousResponseFramingHeader h)))"

fun add_headers_loop :: "HeaderAddRule list \<Rightarrow> string \<Rightarrow> header \<Rightarrow> header" where
  "add_headers_loop [] rawURL h = h"
| "add_headers_loop (rule # rules) rawURL h =
     (if (case ha_UrlRegex rule of Some rx \<Rightarrow> \<not> rx_match rx rawURL | None \<Rightarrow> False) then add_headers_loop rules rawURL h
      else if header_Get h (ha_Key rule) = ha_Val rule then add_headers_loop rules rawURL h
      else if isDangerousRequestFramingHeader (ha_Key rule) then add_headers_loop rules rawURL h
      else add_headers_loop rules rawURL (header_Add h (ha_Key rule) (ha_Val rule)))"

definition AddRequestHeaders :: "'t Policy option \<Rightarrow> header \<Rightarrow> string \<Rightarrow> header" where
  "AddRequestHeaders po h rawURL =
     (case po of None \<Rightarrow> h | Some p \<Rightarrow> (case p_headers p of None \<Rightarrow> h | Some hr \<Rightarrow>
       (if requestAdds hr = [] then h else add_headers_loop (requestAdds hr) rawURL h)))"

section \<open>Evaluation of requests\<close>

text \<open>The decisions of the six blocking stages of \<open>EvaluateRequest\<close>, in their order.\<close>

definition request_stages ::
  "go_lib \<Rightarrow> 't bart \<Rightarrow> 't Policy \<Rightarrow> string \<Rightarrow> request \<Rightarrow> string \<Rightarrow> PolicyDecision \<Rightarrow> PolicyDecision list" where
  "request_stages lib bt p host req scheme dd =
     (let rawURL = canonicalPolicyURL (Some req) scheme
      in [dd, SiteIPRules_Decision lib bt (p_siteIPs p) host, URLRules_Decision (p_urls p) rawURL,
          FileRules_Decision lib (p_files p) (file_input rawURL (filenameFromURL lib (req_url req)) []),
          HeaderRules_Decision (p_headers p) (req_header req),
          CookieRules_Decision (p_cookies p) (requestCookieValues (req_header req))])"

text \<open>The stages folded: the first blocking decision wins, else the first bypass.\<close>

fun run_stages :: "PolicyDecision \<Rightarrow> PolicyDecision list \<Rightarrow> PolicyDecision + PolicyDecision" where
  "run_stages final [] = Inr final"
| "run_stages final (d # ds) =
     (case policy_stage final d of Inl b \<Rightarrow> Inl b | Inr f \<Rightarrow> run_stages f ds)"

lemma run_stages_Inl:
  "run_stages final ds = Inl d \<longleftrightarrow> List.find Blocked ds = Some d"
  by (induction ds arbitrary: final) (auto simp: policy_stage_def)

lemma run_stages_Inr:
  "run_stages final ds = Inr f \<Longrightarrow>
     List.find Blocked ds = None \<and>
     (f = final \<or> f \<in> set ds \<and> BypassFilters f) \<and>
     (BypassFilters f \<longleftrightarrow> BypassFilters final \<or> (\<exists>d\<in>set ds. BypassFilters d))"
  by (induction ds arbitrary: final) (auto simp: policy_stage_def split: if_splits)

lemma stage_then_Inr [simp]: "stage_then (Inr f) k = k f"
  by (simp add: stage_then_def)

lemma stage_then_run:
  "stage_then (run_stages final (d # ds)) k =
     stage_then (policy_stage final d) (\<lambda>f. stage_then (run_stages f ds) k)"
  by (simp add: stage_then_def split: sum.splits)

lemma EvaluateRequest_stages:
  assumes "DomainRules_Decision (p_domains p) host = Some dd"
  shows "EvaluateRequest lib bt (Some p) host (Some req) scheme =
    stage_then (run_stages no_decision (request_stages lib bt p host req scheme dd)) (\<lambda>final.
      if \<not> BypassFilters final
      then do { d \<leftarrow> RefererRules_Decision lib bt (p_referer p) (header_Get (req_header req) ''Referer'');
                Some (if BypassFilters d then d else final) }
      else Some final)"
  by (simp add: EvaluateRequest_def assms request_stages_def Let_def stage_then_run del: run_stages.simps(2))

definition policy_fits :: "PolicyConfig \<Rightarrow> bool" where
  "policy_fits cfg =
     (domain_lists_fit (pc_Domains cfg) \<and>
      label_total (lc_LogSites (pc_Log cfg)) < 4294967296 \<and> label_total (lc_NoLogSites (pc_Log cfg)) < 4294967296 \<and>
      label_total (map (trim_prefix ''*.'') (rc_ExceptionSites (pc_Referer cfg))) < 4294967296)"

lemma NewPolicy_Inr:
  assumes "NewPolicy lib bt cfg = Inr p"
  shows "\<exists>dr lr rr sr. p_domains p = Some dr \<and> NewDomainRulesConfig lib (pc_Domains cfg) = Inr dr \<and>
    p_log p = Some lr \<and> NewLogRules lib bt (pc_Log cfg) = Inr lr \<and>
    p_referer p = Some rr \<and> NewRefererRules lib bt (pc_Referer cfg) = Inr rr \<and>
    p_siteIPs p = Some sr \<and> NewSiteIPRules lib bt (pc_SiteIPs cfg) = Inr sr"
  using assms by (auto simp: NewPolicy_def rbind_eq_Inr)

lemma DomainRules_Decision_total:
  assumes "NewDomainRulesConfig lib cfg = Inr r" "domain_lists_fit cfg"
  shows "\<exists>d. DomainRules_Decision (Some r) host = Some d \<and> \<not> (Blocked d \<and> BypassFilters d)"
  using NewDomainRulesConfig_tries [OF assms, THEN Match_compiled_for]
  by (auto simp: DomainRules_Decision_def Let_def split: option.splits)

lemma RefererRules_Decision_total:
  assumes "NewRefererRules lib bt cfg = Inr r"
    and "label_total (map (trim_prefix ''*.'') (rc_ExceptionSites cfg)) < 4294967296"
  shows "\<exists>d. RefererRules_Decision lib bt (Some r) ref = Some d \<and> \<not> Blocked d"
proof -
  have "matcher_for (rf_exceptionSites r) (rc_ExceptionSites cfg)"
    using assms NewDomainMatcher_ok [OF assms(2)]
    by (auto simp: NewRefererRules_def rbind_eq_Inr no_panic_eq_Inr)
  then have m: "\<exists>b. DomainMatcher_Match (Some (rf_exceptionSites r)) host = Some b" for host
    by (auto simp: matcher_for_def DomainMatcher_Match_def Match_compiled_for)
  obtain u host where c: "canonicalRefererURLAndHost lib ref = (u, host)" by (metis prod.exhaust)
  obtain b where "DomainMatcher_Match (Some (rf_exceptionSites r)) host = Some b" using m by blast
  then show ?thesis
    by (simp add: RefererRules_Decision_def c split: option.splits)
qed

lemma find_Blocked_Some: "List.find Blocked ds = Some d \<Longrightarrow> Blocked d \<and> d \<in> set ds"
  by (auto simp: find_Some_iff)

lemma find_Blocked_None: "List.find Blocked ds = None \<longleftrightarrow> (\<forall>d\<in>set ds. \<not> Blocked d)"
  by (auto simp: find_None_iff)

text \<open>
  C5: the verdict of \<open>Policy.EvaluateRequest\<close> on a constructed policy: the
  request is blocked exactly when one of the six stages (domains, site IPs,
  URLs, files, headers, cookies) blocks it, and the decision returned is that
  of the first blocking stage.  An exception in one stage never overrides a
  block of another.  Otherwise the content filters are bypassed exactly when
  some stage, or the referer rules, ask for it.  Evaluation never panics.
\<close>

theorem EvaluateRequest_verdict:
  assumes "NewPolicy lib bt cfg = Inr p" "policy_fits cfg"
  shows "\<exists>d dd rd. EvaluateRequest lib bt (Some p) host (Some req) scheme = Some d \<and>
    DomainRules_Decision (p_domains p) host = Some dd \<and>
    RefererRules_Decision lib bt (p_referer p) (header_Get (req_header req) ''Referer'') = Some rd \<and>
    (let stages = request_stages lib bt p host req scheme dd
     in (Blocked d \<longleftrightarrow> (\<exists>s\<in>set stages. Blocked s)) \<and>
        (Blocked d \<longrightarrow> List.find Blocked stages = Some d) \<and>
        (\<not> Blocked d \<longrightarrow> (BypassFilters d \<longleftrightarrow> (\<exists>s\<in>set stages. BypassFilters s) \<or> BypassFilters rd)))"
proof -
  obtain dr rr where r: "p_domains p = Some dr" "NewDomainRulesConfig lib (pc_Domains cfg) = Inr dr"
      "p_referer p = Some rr" "NewRefererRules lib bt (pc_Referer cfg) = Inr rr"
    using NewPolicy_Inr [OF assms(1)] by blast
  obtain dd where dd: "DomainRules_Decision (p_domains p) host = Some dd"
    using r assms(2) DomainRules_Decision_total by (fastforce simp: policy_fits_def)
  obtain rd where rd: "RefererRules_Decision lib bt (p_referer p) (header_Get (req_header req) ''Referer'') = Some rd" "\<not> Blocked rd"
    using r assms(2) RefererRules_Decision_total by (fastforce simp: policy_fits_def)
  let ?st = "request_stages lib bt p host req scheme dd"
  show ?thesis
  proof (cases "run_stages no_decision ?st")
    case (Inl b)
    then have "List.find Blocked ?st = Some b" by (simp add: run_stages_Inl)
    then show ?thesis using Inl dd rd
      by (auto simp: EvaluateRequest_stages [OF dd] stage_then_def Let_def dest: find_Blocked_Some)
  next
    case (Inr f)
    note f = run_stages_Inr [OF Inr, unfolded find_Blocked_None]
    have "\<not> Blocked f" using f by auto
    then show ?thesis using Inr dd rd f
      by (auto simp: EvaluateRequest_stages [OF dd] stage_then_def Let_def)
  qed
qed

definition empty_PolicyConfig :: PolicyConfig where
  "empty_PolicyConfig =
     \<lparr>pc_Domains = empty_DomainRulesConfig,
      pc_SiteIPs = \<lparr>sc_Blocked = [], sc_Exceptions = [], sc_Grey = []\<rparr>,
      pc_URLs = \<lparr>uc_LocalExceptions = [], uc_LocalGrey = [], uc_LocalBlocked = [], uc_Exceptions = [], uc_Grey = [],
        uc_Blocked = [], uc_BlockRegex = [], uc_AllowRegex = [], uc_Rewrites = [], uc_Redirects = []\<rparr>,
      pc_Files = \<lparr>fc_BannedExtensions = [], fc_ExceptionExtensions = [], fc_BannedMIMEs = [], fc_ExceptionMIMEs = [],
        fc_BannedFilenames = [], fc_ExceptionFilenames = []\<rparr>,
      pc_Headers = \<lparr>hc_Banned = [], hc_Exception = [], hc_BlockRegex = [], hc_ExceptionRegex = [],
        hc_RequestRewrites = [], hc_ResponseRewrites = [], hc_RequestAdds = []\<rparr>,
      pc_Cookies = \<lparr>cc_Banned = [], cc_Exception = []\<rparr>,
      pc_Log = \<lparr>lc_LogURLs = [], lc_ExceptionLogURLs = [], lc_LogSites = [], lc_LogSiteIPs = [], lc_LogRegexURLs = [],
        lc_ExceptionLogRegexURLs = [], lc_LogRegexSites = [], lc_ExceptionLogRegexSites = [], lc_NoLogSites = [],
        lc_NoLogSiteIPs = [], lc_NoLogURLs = [], lc_NoLogRegexURLs = [], lc_NoLogExtensions = []\<rparr>,
      pc_Referer = \<lparr>rc_ExceptionSites = [], rc_ExceptionSiteIPs = [], rc_ExceptionURLs = []\<rparr>\<rparr>"

lemma NewPolicy_domains_total:
  assumes "domain_lists_fit dc" "dc_BlockRegex dc = []" "dc_AllowRegex dc = []"
  shows "policy_fits (empty_PolicyConfig\<lparr>pc_Domains := dc, pc_Cookies := cc\<rparr>) \<and>
    (\<exists>p. NewPolicy lib bt (empty_PolicyConfig\<lparr>pc_Domains := dc, pc_Cookies := cc\<rparr>) = Inr p \<and>
         p_cookies p = Some (NewCookieRules cc))"
proof -
  have t: "\<exists>t. Compile (foldl Add empty_domainTrie []) = Some t"
    using Compile_ok [OF building_trie_of, of "[]"] by (auto simp: trie_of_def label_total_def)
  obtain dr where "NewDomainRulesConfig lib dc = Inr dr"
    using NewDomainRulesConfig_total [OF assms] by blast
  moreover obtain m where "NewDomainMatcher [] = Some m"
    using NewDomainMatcher_ok [of "[]"] by (auto simp: label_total_def)
  ultimately show ?thesis using t assms(1)
    by (auto simp: NewPolicy_def empty_PolicyConfig_def policy_fits_def label_total_def NewSiteIPRules_def named_ips_def
        NewURLRules_def NewHeaderRules_def NewRefererRules_def NewLogRules_def)
qed

theorem EvaluateRequest_verdict_witness:
  "\<exists>p d. NewPolicy null_lib bart_list
       (empty_PolicyConfig\<lparr>pc_Domains := empty_DomainRulesConfig\<lparr>dc_Blocked := [''bad.com'']\<rparr>,
          pc_Cookies := \<lparr>cc_Banned = [''Track''], cc_Exception = []\<rparr>\<rparr>) = Inr p \<and>
     EvaluateRequest null_lib bart_list (Some p) ''www.bad.com''
       (Some \<lparr>req_method = ''GET'', req_url = None, req_host = ''www.bad.com'', req_header = []\<rparr>) ''http'' = Some d \<and>
     Blocked d \<and> MatchType d = ''domain''"
proof -
  let ?dc = "empty_DomainRulesConfig\<lparr>dc_Blocked := [''bad.com'']\<rparr>"
  let ?cc = "\<lparr>cc_Banned = [''Track''], cc_Exception = []\<rparr>"
  let ?cfg = "empty_PolicyConfig\<lparr>pc_Domains := ?dc, pc_Cookies := ?cc\<rparr>"
  let ?req = "\<lparr>req_method = ''GET'', req_url = None, req_host = ''www.bad.com'', req_header = []\<rparr>"
  have "label_total [''bad.com''] = 2" by code_simp
  then have fit: "domain_lists_fit ?dc"
    by (simp add: domain_lists_fit_def empty_DomainRulesConfig_def label_total_def)
  then obtain p where pf: "policy_fits ?cfg" and p: "NewPolicy null_lib bart_list ?cfg = Inr p"
    using NewPolicy_domains_total [OF fit, of ?cc null_lib bart_list] by (auto simp: empty_DomainRulesConfig_def)
  obtain dr where dr: "p_domains p = Some dr" "NewDomainRulesConfig null_lib ?dc = Inr dr"
    using NewPolicy_Inr [OF p] by (auto simp: empty_PolicyConfig_def)
  have dd: "DomainRules_Decision (p_domains p) ''www.bad.com'' = Some (block_decision ''domain'' ''www.bad.com'')"
  proof -
    have "normalizedDomain ''www.bad.com'' = ''www.bad.com''" "domain_listed [''bad.com''] ''www.bad.com'' = True"
      by code_simp+
    moreover have "domain_listed [] h = False" for h by (simp add: domain_listed_def)
    ultimately show ?thesis
      using NewDomainRulesConfig_tries [OF dr(2) fit, THEN Match_compiled_for] NewDomainRulesConfig_sets [OF dr(2)] dr(1)
      by (simp add: DomainRules_Decision_def Let_def empty_DomainRulesConfig_def tld_blocked_def first_regex_def)
  qed
  obtain d where d: "EvaluateRequest null_lib bart_list (Some p) ''www.bad.com'' (Some ?req) ''http'' = Some d"
    "Blocked d" "List.find Blocked (request_stages null_lib bart_list p ''www.bad.com'' ?req ''http''
        (block_decision ''domain'' ''www.bad.com'')) = Some d"
    using EvaluateRequest_verdict [OF p pf, of "''www.bad.com''" ?req "''http''"] dd
    by (auto simp: Let_def request_stages_def)
  then show ?thesis using p by (auto simp: request_stages_def Let_def)
qed

section \<open>Logging, URL and header rewriting\<close>

lemma first_some_append: "first_some (xs @ ys) = (case first_some xs of None \<Rightarrow> first_some ys | Some x \<Rightarrow> Some x)"
  by (induction xs rule: first_some.induct) auto

lemma first_some_None: "first_some xs = None \<longleftrightarrow> (\<forall>x\<in>set xs. x = None)"
  by (induction xs rule: first_some.induct) auto

lemma first_some_mem: "first_some xs = Some v \<Longrightarrow> Some v \<in> set xs"
  by (induction xs rule: first_some.induct) auto

lemma Some_eq_when_some: "Some v = when_some b x \<longleftrightarrow> b \<and> v = x"
  by (auto simp: when_some_def)

lemma Some_eq_map_option: "Some v = map_option f x \<longleftrightarrow> (\<exists>y. x = Some y \<and> v = f y)"
  by (cases x) auto

lemma log_verdict_sel [simp]:
  "suppressed (suppress_log a b c)" "\<not> shouldLog (suppress_log a b c)" "\<not> suppressed (do_log a b c)" "shouldLog (do_log a b c)"
  by (simp_all add: suppress_log_def do_log_def)

lemma suppressors_first:
  assumes "\<And>v. Some v \<in> set sups \<Longrightarrow> suppressed v \<and> \<not> shouldLog v" "\<And>v. Some v \<in> set logs \<Longrightarrow> \<not> suppressed v"
  shows "let v = (case first_some (sups @ logs) of Some v \<Rightarrow> v | None \<Rightarrow> no_log)
    in (suppressed v \<longleftrightarrow> (\<exists>x\<in>set sups. x \<noteq> None)) \<and> \<not> (shouldLog v \<and> suppressed v)"
proof (cases "first_some sups")
  case None
  then show ?thesis
    using assms(2) by (auto simp: first_some_append first_some_None Let_def no_log_def dest!: first_some_mem split: option.splits)
next
  case (Some v)
  then show ?thesis
    using assms(1) first_some_mem [OF Some] by (auto simp: first_some_append Let_def)
qed

definition log_suppressed :: "go_lib \<Rightarrow> 't bart \<Rightarrow> 't LogRules \<Rightarrow> LogRulesConfig \<Rightarrow> string \<Rightarrow> string \<Rightarrow> string \<Rightarrow> bool" where
  "log_suppressed lib bt l cfg host rawURL ext =
     (list_ex (urlRuleMatches rawURL) (exceptionLogURLs l) \<or> list_ex (\<lambda>rx. rx_match rx rawURL) (exceptionLogRegexURLs l) \<or>
      list_ex (\<lambda>rx. rx_match rx host) (exceptionLogRegexSites l) \<or> domain_listed (lc_NoLogSites cfg) host \<or>
      ipPrefixTableMatches lib bt (noLogSiteIPs l) host \<or> list_ex (urlRuleMatches rawURL) (noLogURLs l) \<or>
      list_ex (\<lambda>rx. rx_match rx rawURL) (noLogRegexURLs l) \<or> ext \<noteq> [] \<and> ext \<in> set (noLogExtensions l))"

lemma NewLogRules_tries:
  assumes "NewLogRules lib bt cfg = Inr l" "label_total (lc_LogSites cfg) < 4294967296" "label_total (lc_NoLogSites cfg) < 4294967296"
  shows "compiled_for (logSites l) (lc_LogSites cfg)" "compiled_for (noLogSites l) (lc_NoLogSites cfg)"
  using assms by (auto simp: NewLogRules_def rbind_eq_Inr no_panic_eq_Inr intro!: Compile_foldl_Add)

lemma first_url_entry_Some: "list_ex (urlRuleMatches u) es \<longleftrightarrow> (\<exists>e. first_url_entry es u = Some e)"
  by (metis first_url_entry_def find_None_iff list_ex_iff not_None_eq)

lemma list_ex_first_regex: "list_ex (\<lambda>rx. rx_match rx s) rxs \<longleftrightarrow> (\<exists>rx. first_regex rxs s = Some rx)"
  by (metis first_regex_None list_ex_iff not_None_eq)

text \<open>
  C17: \<open>EvaluateLogging\<close> on a constructed policy: a verdict never both logs and
  suppresses, and whenever the request matches one of the eight suppressing
  lists it is suppressed and not logged, whatever log list it is on.
\<close>

theorem EvaluateLogging_suppression:
  assumes "NewPolicy lib bt cfg = Inr p" "policy_fits cfg"
  shows "\<exists>v l. EvaluateLogging lib bt (Some p) host ro scheme = Some v \<and> p_log p = Some l \<and>
    \<not> (shouldLog v \<and> suppressed v) \<and>
    (suppressed v \<longleftrightarrow> log_suppressed lib bt l (pc_Log cfg) (normalizedPolicyHost host) (canonicalPolicyURL ro scheme)
       (requestURLExtension lib ro))"
proof -
  obtain l where l: "p_log p = Some l" "NewLogRules lib bt (pc_Log cfg) = Inr l"
    using NewPolicy_Inr [OF assms(1)] by blast
  then have t: "compiled_for (logSites l) (lc_LogSites (pc_Log cfg))" "compiled_for (noLogSites l) (lc_NoLogSites (pc_Log cfg))"
    using NewLogRules_tries assms(2) by (auto simp: policy_fits_def)
  let ?h = "normalizedPolicyHost host" and ?u = "canonicalPolicyURL ro scheme" and ?x = "requestURLExtension lib ro"
  let ?sup = "[map_option (suppress_log ''url'' ''exceptionlogurllist'') (first_url_entry (exceptionLogURLs l) ?u),
      map_option (\<lambda>rx. suppress_log ''url_regex'' ''exceptionlogregexpurllist'' (rx_string rx)) (first_regex (exceptionLogRegexURLs l) ?u),
      map_option (\<lambda>rx. suppress_log ''site_regex'' ''exceptionlogregexpsitelist'' (rx_string rx)) (first_regex (exceptionLogRegexSites l) ?h),
      when_some (domain_listed (lc_NoLogSites (pc_Log cfg)) ?h) (suppress_log ''site'' ''nologsitelist'' ?h),
      when_some (ipPrefixTableMatches lib bt (noLogSiteIPs l) ?h) (suppress_log ''site_ip'' ''nologsiteiplist'' ?h),
      map_option (suppress_log ''url'' ''nologurllist'') (first_url_entry (noLogURLs l) ?u),
      map_option (\<lambda>rx. suppress_log ''url_regex'' ''nologregexpurllist'' (rx_string rx)) (first_regex (noLogRegexURLs l) ?u),
      when_some (?x \<noteq> [] \<and> ?x \<in> set (noLogExtensions l)) (suppress_log ''extension'' ''nologextensionlist'' ?x)]"
  let ?logs = "[when_some (domain_listed (lc_LogSites (pc_Log cfg)) ?h) (do_log ''site'' ''logsitelist'' ?h),
      when_some (ipPrefixTableMatches lib bt (logSiteIPs l) ?h) (do_log ''site_ip'' ''logsiteiplist'' ?h),
      map_option (do_log ''url'' ''logurllist'') (first_url_entry (logURLs l) ?u),
      map_option (\<lambda>rx. do_log ''url_regex'' ''logregexpurllist'' (rx_string rx)) (first_regex (logRegexURLs l) ?u),
      map_option (\<lambda>rx. do_log ''site_regex'' ''logregexpsitelist'' (rx_string rx)) (first_regex (logRegexSites l) ?h)]"
  have ev: "EvaluateLogging lib bt (Some p) host ro scheme =
      Some (case first_some (?sup @ ?logs) of Some v \<Rightarrow> v | None \<Rightarrow> no_log)"
    using l t [THEN Match_compiled_for] by (simp add: EvaluateLogging_def Let_def)
  have "\<And>v. Some v \<in> set ?sup \<Longrightarrow> suppressed v \<and> \<not> shouldLog v" "\<And>v. Some v \<in> set ?logs \<Longrightarrow> \<not> suppressed v"
    by (auto simp: Some_eq_when_some Some_eq_map_option)
  from suppressors_first [OF this]
  have r: "let v = (case first_some (?sup @ ?logs) of Some v \<Rightarrow> v | None \<Rightarrow> no_log)
    in (suppressed v \<longleftrightarrow> (\<exists>x\<in>set ?sup. x \<noteq> None)) \<and> \<not> (shouldLog v \<and> suppressed v)" .
  have s: "(\<exists>x\<in>set ?sup. x \<noteq> None) \<longleftrightarrow> log_suppressed lib bt l (pc_Log cfg) ?h ?u ?x"
    by (simp add: log_suppressed_def when_some_def first_url_entry_Some list_ex_first_regex)
  show ?thesis using ev r l(1) unfolding s Let_def by blast
qed

theorem EvaluateLogging_suppression_witness:
  "\<exists>p v. NewPolicy null_lib bart_list empty_PolicyConfig = Inr p \<and>
     EvaluateLogging null_lib bart_list (Some p) ''a.com'' None ''http'' = Some v \<and> \<not> suppressed v"
proof -
  have e: "empty_PolicyConfig = empty_PolicyConfig\<lparr>pc_Domains := empty_DomainRulesConfig, pc_Cookies := pc_Cookies empty_PolicyConfig\<rparr>"
    by (simp add: empty_PolicyConfig_def)
  have fit: "domain_lists_fit empty_DomainRulesConfig"
    by (simp add: domain_lists_fit_def empty_DomainRulesConfig_def label_total_def)
  obtain p where p: "policy_fits empty_PolicyConfig" "NewPolicy null_lib bart_list empty_PolicyConfig = Inr p"
    using NewPolicy_domains_total [OF fit, of "pc_Cookies empty_PolicyConfig" null_lib bart_list, folded e]
    by (auto simp: empty_DomainRulesConfig_def)
  moreover have "\<not> log_suppressed null_lib bart_list l (pc_Log empty_PolicyConfig) host u []"
    if "p_log p = Some l" for l host u
    using that NewPolicy_Inr [OF p(2)]
    by (auto simp: log_suppressed_def empty_PolicyConfig_def NewLogRules_def rbind_eq_Inr normalizePolicyURLs_def
        normalizedSet_def domain_listed_def ipPrefixTableMatches_def null_lib_def)
  ultimately show ?thesis
    using EvaluateLogging_suppression [OF p(2,1), of "''a.com''" None "''http''"]
    by (auto simp: requestURLExtension_def)
qed

lemma rewrite_url_loop_host:
  "getHost lib cur = getHost lib raw \<Longrightarrow> getHost lib (fst (rewrite_url_loop lib raw rules (cur, m))) = getHost lib raw"
  by (induction rules arbitrary: cur m) (auto simp: Let_def)

lemma rewrite_url_loop_flag:
  "\<not> snd (rewrite_url_loop lib raw rules (cur, m)) \<Longrightarrow> fst (rewrite_url_loop lib raw rules (cur, m)) = cur \<and> \<not> m"
  by (induction rules arbitrary: cur m) (auto simp: Let_def split: if_splits)

text \<open>
  C14: URL rewriting stays on the host: whatever the rewrite rules and the URL
  parser are, the URL that \<open>RewriteURL\<close> returns has the host of the URL it was
  given, and if it reports no modification the URL is unchanged.
\<close>

theorem RewriteURL_keeps_host:
  "getHost lib (fst (RewriteURL lib ro u)) = getHost lib u \<and>
   (snd (RewriteURL lib ro u) \<or> fst (RewriteURL lib ro u) = u)"
proof (cases ro)
  case (Some r)
  then show ?thesis
    using rewrite_url_loop_host [of lib u u "ul_rewrites r" False] rewrite_url_loop_flag [of lib u "ul_rewrites r" u False]
    by (auto simp: RewriteURL_def)
qed (simp add: RewriteURL_def)

lemma header_Values_Add:
  "header_Values (header_Add h k v) k' =
     (if CanonicalHeaderKey k' = CanonicalHeaderKey k then header_Values h k' @ [v] else header_Values h k')"
  by (simp add: header_Add_def header_Values_def update_conv')

lemma add_headers_loop_values:
  "prefix (header_Values h k) (header_Values (add_headers_loop rules u h) k) \<and>
   (isDangerousRequestFramingHeader k \<longrightarrow> header_Values (add_headers_loop rules u h) k = header_Values h k)"
proof (induction rules arbitrary: h)
  case (Cons rule rules)
  have "isDangerousRequestFramingHeader k = isDangerousRequestFramingHeader (ha_Key rule)"
    if "CanonicalHeaderKey k = CanonicalHeaderKey (ha_Key rule)"
    using that by (simp add: isDangerousRequestFramingHeader_def)
  then show ?case
    using Cons.IH [of h] Cons.IH [of "header_Add h (ha_Key rule) (ha_Val rule)"]
    by (auto simp: header_Values_Add split: if_splits dest: append_prefixD)
qed simp

text \<open>
  adding configured request headers never touches a framing header
  (Content-Length, Transfer-Encoding, Host, Connection, Upgrade, in any
  spelling) and keeps every existing value of every other header.
\<close>

theorem AddRequestHeaders_framing:
  "prefix (header_Values h k) (header_Values (AddRequestHeaders po h u) k) \<and>
   (isDangerousRequestFramingHeader k \<longrightarrow> header_Values (AddRequestHeaders po h u) k = header_Values h k)"
  using add_headers_loop_values by (auto simp: AddRequestHeaders_def split: option.splits)

text \<open>A policy with header rules only, for closed examples.\<close>

definition headers_policy :: "HeaderRules \<Rightarrow> unit Policy" where
  "headers_policy hr = \<lparr>p_domains = None, p_siteIPs = None, p_urls = None, p_files = None, p_headers = Some hr,
     p_cookies = None, p_log = None, p_referer = None\<rparr>"

definition header_rules_of :: "HeaderRewriteRule list \<Rightarrow> HeaderAddRule list \<Rightarrow> HeaderRules" where
  "header_rules_of rws adds = \<lparr>h_banned = [], h_exception = [], h_blockRegex = [], h_exceptionRegex = [],
     requestRewrites = rws, responseRewrites = rws, requestAdds = adds\<rparr>"

theorem AddRequestHeaders_framing_witness:
  "isDangerousRequestFramingHeader ''content-length'' \<and>
   header_Values (AddRequestHeaders (Some (headers_policy (header_rules_of []
     [\<lparr>ha_UrlRegex = None, ha_Key = ''CONTENT-length'', ha_Val = ''0''\<rparr>]))) [(''Content-Length'', [''5''])] ''http://a/'')
     ''content-length'' = [''5'']"
proof -
  have "isDangerousRequestFramingHeader ''content-length''" "header_Values [(''Content-Length'', [''5''])] ''content-length'' = [''5'']"
    by code_simp+
  then show ?thesis
    using AddRequestHeaders_framing [of "[(''Content-Length'', [''5''])]" "''content-length''"
        "Some (headers_policy (header_rules_of [] [\<lparr>ha_UrlRegex = None, ha_Key = ''CONTENT-length'', ha_Val = ''0''\<rparr>]))" "''http://a/''"]
    by (simp only: simp_thms)
qed

subsection \<open>Rewriting keeps framing headers\<close>

definition canonical_header :: "header \<Rightarrow> bool" where
  "canonical_header h = (distinct (map fst h) \<and> (\<forall>k\<in>fst ` set h. CanonicalHeaderKey k = k))"

lemma rewrite_value_cases:
  "fst (rewrite_value rules fr key st val) = fst st \<or>
   (\<exists>k v. fst (rewrite_value rules fr key st val) = header_Add (fst st) k v)"
  by (simp add: rewrite_value_def Let_def case_prod_beta split: option.split) blast

lemma rewrite_value_keeps:
  "v \<in> set (header_Values (fst st) k) \<Longrightarrow> v \<in> set (header_Values (fst (rewrite_value rules fr key st val)) k)"
  using rewrite_value_cases [of rules fr key st val] by (auto simp: header_Values_Add)

lemma rewrite_value_distinct:
  "distinct (map fst (fst st)) \<Longrightarrow> distinct (map fst (fst (rewrite_value rules fr key st val)))"
  using rewrite_value_cases [of rules fr key st val] by (auto simp: header_Add_def distinct_update)

lemma foldl_rewrite_value_keeps:
  "v \<in> set (header_Values (fst st) k) \<Longrightarrow> v \<in> set (header_Values (fst (foldl (rewrite_value rules fr key) st vals)) k)"
  by (induction vals arbitrary: st) (simp_all add: rewrite_value_keeps)

lemma foldl_rewrite_value_distinct:
  "distinct (map fst (fst st)) \<Longrightarrow> distinct (map fst (fst (foldl (rewrite_value rules fr key) st vals)))"
  by (induction vals arbitrary: st) (simp_all add: rewrite_value_distinct)

lemma trim_right_if_append: "trim_right_if P (xs @ ys) = (if trim_right_if P ys = [] then trim_right_if P xs else xs @ trim_right_if P ys)"
  by (simp add: trim_right_if_def dropWhile_append)

lemma trim_right_if_Nil: "trim_right_if P xs = [] \<longleftrightarrow> (\<forall>x\<in>set xs. P x)"
  by (simp add: trim_right_if_def dropWhile_eq_Nil_conv)

lemma dropWhile_trim_right: "dropWhile P (trim_right_if P xs) = trim_right_if P (dropWhile P xs)"
  by (induction xs) (auto simp: trim_right_if_def dropWhile_append1 dropWhile_append dropWhile_eq_Nil_conv dest: set_dropWhileD)

lemma trim_right_if_idem [simp]: "trim_right_if P (trim_right_if P xs) = trim_right_if P xs"
  by (simp add: trim_right_if_def)

lemma framing_line_value:
  assumes "k \<noteq> []" "\<not> is_space (hd k)" "colon \<notin> set k"
  shows "\<exists>t. trim_space (header_line k v) = k @ colon # t \<and> trim_space t = trim_space v"
proof -
  have sp: "\<not> is_space colon" "is_space (CHR '' '')" by (simp_all add: is_space_def)
  have "dropWhile is_space (header_line k v) = (k @ '':'') @ '' '' @ v"
    using assms(1,2) by (cases k) (auto simp: header_line_def)
  moreover have "trim_right_if is_space (k @ '':'') = k @ '':''"
    using sp by (simp add: trim_right_if_def)
  ultimately have "trim_space (header_line k v) = k @ colon # trim_right_if is_space ('' '' @ v)"
    by (simp only: trim_space_def trim_right_if_append) auto
  moreover have "trim_space (trim_right_if is_space ('' '' @ v)) = trim_space v"
    using sp by (simp add: trim_space_def dropWhile_trim_right)
  ultimately show ?thesis by blast
qed

lemma index_byte_append: "c \<notin> set k \<Longrightarrow> index_byte (k @ c # t) c = Some (length k)"
  by (induction k) auto

lemma rewrite_value_framing:
  assumes "k \<noteq> []" "list_all (\<lambda>c. \<not> is_space c) k" "colon \<notin> set k" "CanonicalHeaderKey k = k"
  shows "trim_space v \<in> set (header_Values (fst (rewrite_value rules True k st v)) k)"
proof -
  have h: "\<not> is_space (hd k)" using assms(1,2) by (cases k) auto
  have tk: "trim_space k = k"
  proof -
    have "dropWhile is_space k = k" using assms(2) by (cases k) auto
    moreover have "dropWhile is_space (rev k) = rev k" using assms(2) by (cases k rule: rev_cases) (auto simp: list_all_iff)
    ultimately show ?thesis by (simp add: trim_space_def trim_right_if_def)
  qed
  obtain t where t: "trim_space (header_line k v) = k @ colon # t" "trim_space t = trim_space v"
    using framing_line_value [OF assms(1) h assms(3)] by blast
  then show ?thesis
    using assms tk by (cases st) (simp add: rewrite_value_def Let_def index_byte_append header_Values_Add)
qed

lemma foldl_header_Del: "foldl header_Del g ks = filter (\<lambda>p. fst p \<notin> CanonicalHeaderKey ` set ks) g"
proof (induction ks arbitrary: g)
  case (Cons k ks)
  have "header_Del g k = filter (\<lambda>p. fst p \<noteq> CanonicalHeaderKey k) g"
    unfolding header_Del_def AList.delete_eq by (rule filter_cong) auto
  then show ?case by (simp add: Cons.IH)
qed simp

lemma foldl_header_Del_canonical:
  assumes "canonical_header h"
  shows "foldl header_Del h (map fst h) = []"
proof -
  have "fst p \<in> CanonicalHeaderKey ` set (map fst h)" if "p \<in> set h" for p
  proof (rule image_eqI)
    show "fst p \<in> set (map fst h)" using that by simp
    show "fst p = CanonicalHeaderKey (fst p)" using assms that by (simp add: canonical_header_def)
  qed
  then show ?thesis unfolding foldl_header_Del by (simp only: filter_empty_conv) blast
qed

lemma map_of_foldl_update:
  "distinct (map fst new) \<Longrightarrow> map_of (foldl (\<lambda>h (k, v). AList.update k v h) h new) = map_of h ++ map_of new"
proof (induction new arbitrary: h)
  case (Cons p new)
  have "map_of new (fst p) = None" using Cons.prems by (simp add: map_of_eq_None_iff)
  then show ?case using Cons
    by (cases p) (simp add: update_conv fun_eq_iff map_add_def split: option.split)
qed simp

lemma foldl_headers_keeps:
  "v \<in> set (header_Values (fst st) k) \<Longrightarrow>
     v \<in> set (header_Values (fst (foldl (\<lambda>st (key, values). foldl (rewrite_value rules (fr key) key) st values) st h)) k)"
proof (induction h arbitrary: st)
  case (Cons p h)
  then show ?case by (cases p) (simp add: foldl_rewrite_value_keeps)
qed simp

lemma foldl_headers_distinct:
  "distinct (map fst (fst st)) \<Longrightarrow>
     distinct (map fst (fst (foldl (\<lambda>st (key, values). foldl (rewrite_value rules (fr key) key) st values) st h)))"
proof (induction h arbitrary: st)
  case (Cons p h)
  then show ?case by (cases p) (simp add: foldl_rewrite_value_distinct)
qed simp

lemma foldl_rewrite_value_framing:
  assumes "v \<in> set vals" "k \<noteq> []" "list_all (\<lambda>c. \<not> is_space c) k" "colon \<notin> set k" "CanonicalHeaderKey k = k"
  shows "trim_space v \<in> set (header_Values (fst (foldl (rewrite_value rules True k) st vals)) k)"
  using assms(1)
proof (induction vals arbitrary: st)
  case (Cons w vals)
  show ?case
  proof (cases "v = w")
    case True
    then show ?thesis
      using foldl_rewrite_value_keeps [OF rewrite_value_framing [OF assms(2-5), of v rules st]] by simp
  next
    case False
    then show ?thesis using Cons by simp
  qed
qed simp

lemma foldl_headers_framing:
  assumes "(k, vals) \<in> set h" "v \<in> set vals" "fr k"
    "k \<noteq> []" "list_all (\<lambda>c. \<not> is_space c) k" "colon \<notin> set k" "CanonicalHeaderKey k = k"
  shows "trim_space v \<in> set (header_Values
    (fst (foldl (\<lambda>st (key, values). foldl (rewrite_value rules (fr key) key) st values) st h)) k)"
  using assms(1)
proof (induction h arbitrary: st)
  case (Cons p h)
  show ?case
  proof (cases "p = (k, vals)")
    case True
    then show ?thesis
      using foldl_headers_keeps [OF foldl_rewrite_value_framing [OF assms(2,4-7), of rules st], of rules fr h] assms(3) by simp
  next
    case False
    then have "(k, vals) \<in> set h" using Cons.prems by simp
    then show ?thesis using Cons.IH by (simp add: case_prod_beta)
  qed
qed simp

lemma rewrite_headers_framing:
  assumes c: "canonical_header h" and k: "(k, vals) \<in> set h" "v \<in> set vals" "fr k"
    "k \<noteq> []" "list_all (\<lambda>c. \<not> is_space c) k" "colon \<notin> set k"
  shows "v \<in> set (header_Values (rewrite_headers rules fr h) k) \<or> trim_space v \<in> set (header_Values (rewrite_headers rules fr h) k)"
proof -
  have ck: "CanonicalHeaderKey k = k" using c k(1) by (force simp: canonical_header_def)
  let ?st = "foldl (\<lambda>st (key, values). foldl (rewrite_value rules (fr key) key) st values) ([], False) h"
  obtain new m where nm: "?st = (new, m)" by (cases ?st)
  have new: "trim_space v \<in> set (header_Values new k)" "distinct (map fst new)"
    using foldl_headers_framing [where fr = fr, OF k ck, of rules "([], False)"] foldl_headers_distinct [of "([], False)" rules fr h] nm by simp_all
  show ?thesis
  proof (cases m)
    case True
    have "map_of (foldl (\<lambda>h (k, v). AList.update k v h) [] new) = map_of new"
      using map_of_foldl_update [OF new(2), of "[]"] by simp
    then show ?thesis
      using new(1) nm True by (simp add: rewrite_headers_def foldl_header_Del_canonical [OF c] header_Values_def ck)
  next
    case False
    have "map_of h k = Some vals" using c k(1) by (simp add: canonical_header_def)
    then show ?thesis using False nm k(2) by (simp add: rewrite_headers_def header_Values_def ck)
  qed
qed

text \<open>
  C15: rewriting request headers never drops or changes a framing header of
  the request: each of its values is still there afterwards (up to surrounding
  white space), whatever the rules do to the other headers.
\<close>

theorem RewriteRequestHeaders_framing:
  assumes "canonical_header h" "(k, vals) \<in> set h" "v \<in> set vals" "isDangerousRequestFramingHeader k"
  shows "v \<in> set (header_Values (RewriteRequestHeaders po h) k) \<or>
    trim_space v \<in> set (header_Values (RewriteRequestHeaders po h) k)"
proof -
  have ck: "CanonicalHeaderKey k = k" using assms(1,2) by (force simp: canonical_header_def)
  then have "k \<in> {''Content-Length'', ''Transfer-Encoding'', ''Host'', ''Connection'', ''Upgrade''}"
    using assms(4) by (simp add: isDangerousRequestFramingHeader_def)
  then have k: "k \<noteq> []" "list_all (\<lambda>c. \<not> is_space c) k" "colon \<notin> set k"
    by (auto simp: is_space_def)
  have "map_of h k = Some vals" using assms(1,2) by (simp add: canonical_header_def)
  then have "v \<in> set (header_Values h k)" using assms(3) by (simp add: header_Values_def ck)
  moreover note rewrite_headers_framing [where fr = isDangerousRequestFramingHeader, OF assms k]
  moreover have "RewriteRequestHeaders po h = h \<or> (\<exists>rules. RewriteRequestHeaders po h = rewrite_headers rules isDangerousRequestFramingHeader h)"
    by (simp add: RewriteRequestHeaders_def split: option.split) blast
  ultimately show ?thesis by metis
qed

text \<open>A rule that renames \<open>X-Frame\<close>, as a compiled regex.\<close>

definition frame_rule :: HeaderRewriteRule where
  "frame_rule = \<lparr>hr_Regex = \<lparr>rx_string = ''X-Frame'', rx_match = (\<lambda>s. sublist ''X-Frame'' s),
       rx_replace_all = (\<lambda>s r. r @ drop 7 s)\<rparr>, hr_Replace = ''Transfer-Encoding''\<rparr>"

theorem RewriteRequestHeaders_framing_witness:
  "''5'' \<in> set (header_Values (RewriteRequestHeaders (Some (headers_policy (header_rules_of [frame_rule] [])))
     [(''Content-Length'', [''5'']), (''X-Frame'', [''a''])]) ''Content-Length'')"
proof -
  let ?h = "[(''Content-Length'', [''5'']), (''X-Frame'', [''a''])]"
  have "CanonicalHeaderKey ''Content-Length'' = ''Content-Length''" "CanonicalHeaderKey ''X-Frame'' = ''X-Frame''"
    by code_simp+
  then have c: "canonical_header ?h" "isDangerousRequestFramingHeader ''Content-Length''"
    by (simp_all add: canonical_header_def isDangerousRequestFramingHeader_def)
  have t: "trim_space ''5'' = ''5''" by code_simp
  show ?thesis
    using RewriteRequestHeaders_framing [OF c(1) _ _ c(2), of "[''5'']" "''5''"
        "Some (headers_policy (header_rules_of [frame_rule] []))", unfolded t] by (simp only: list.set) blast
qed

text \<open>
  the guard of the rewrite looks at the old name of a header only: a rule
  that turns a harmless header into a framing header is applied, so a request
  can leave the rewrite with a \<open>Transfer-Encoding\<close> it did not have.
\<close>

theorem rewrite_can_create_framing:
  "isDangerousRequestFramingHeader ''Transfer-Encoding'' \<and>
   header_Values [(''X-Frame'', [''chunked''])] ''Transfer-Encoding'' = [] \<and>
   header_Values (RewriteRequestHeaders (Some (headers_policy (header_rules_of [frame_rule] [])))
     [(''X-Frame'', [''chunked''])]) ''Transfer-Encoding'' = [''chunked'']"
  by code_simp

end
