(* ===== verification/Stream_Engine.thy ===== *)
theory Stream_Engine
  imports Go_Lib
begin

text \<open>
  The reader that drives a content filter (\<open>InspectReader\<close> in
  \<open>proxy/relay.go\<close>) and the contract a \<open>FilterEngine\<close> has with it.

  A filter is a pair of functions on its state: \<open>process\<close> is its
  \<open>ProcessChunk\<close>, \<open>flush\<close> its \<open>Flush\<close>; a filter without a \<open>Flush\<close> method
  returns the empty tail.  The source of the reader is the script of the results
  its \<open>Read\<close> will give: bytes and, possibly together with them, an error.  When the script
  is used up the source is at its end.
\<close>

section \<open>The inspecting reader\<close>

type_synonym 's process_fn = "'s \<Rightarrow> string \<Rightarrow> (string \<times> bool \<times> 's) result"
type_synonym 's flush_fn = "'s \<Rightarrow> (string \<times> 's) result"

definition io_EOF :: gate_error where
  "io_EOF = Failure ''EOF''"

datatype src_read = Read_result (rr_data: string) (rr_err: "gate_error option")

record 's InspectReader =
  ir_src :: "src_read list"
  ir_engine :: 's
  ir_out :: string
  ir_blocked :: bool
  ir_flushed :: bool

definition newInspectReader :: "src_read list \<Rightarrow> 's \<Rightarrow> 's InspectReader" where
  "newInspectReader src engine = \<lparr>ir_src = src, ir_engine = engine, ir_out = [], ir_blocked = False, ir_flushed = False\<rparr>"

definition flushEngine :: "'s flush_fn \<Rightarrow> 's InspectReader \<Rightarrow> gate_error option \<times> 's InspectReader" where
  "flushEngine flush r =
     (if ir_flushed r then (None, r)
      else let r = r\<lparr>ir_flushed := True\<rparr>
           in case flush (ir_engine r) of
                Inl e \<Rightarrow> (Some e, r)
              | Inr (out, s) \<Rightarrow> (None, r\<lparr>ir_engine := s, ir_out := out\<rparr>))"

text \<open>
  The error branch of \<open>Read\<close>: at the end of the source the engine is flushed,
  any other error is returned; \<open>None\<close> is the \<open>break\<close> out of the loop.
\<close>

definition read_error :: "'s flush_fn \<Rightarrow> 's InspectReader \<Rightarrow> gate_error \<Rightarrow> gate_error option \<times> 's InspectReader" where
  "read_error flush r err =
     (if ir_out r \<noteq> [] \<and> err = io_EOF then (None, r)
      else if err = io_EOF
      then case flushEngine flush r of
             (Some e, r) \<Rightarrow> (Some e, r)
           | (None, r) \<Rightarrow> if ir_out r \<noteq> [] then (None, r) else (Some err, r)
      else (Some err, r))"

text \<open>The chunk branch: the engine sees the bytes read and its output is the reader's.\<close>

definition read_chunk :: "'s process_fn \<Rightarrow> 's InspectReader \<Rightarrow> string \<Rightarrow> gate_error option \<times> 's InspectReader" where
  "read_chunk process r data =
     (if data = [] then (None, r)
      else case process (ir_engine r) data of
             Inl e \<Rightarrow> (Some e, r\<lparr>ir_blocked := False\<rparr>)
           | Inr (out, blocked, s) \<Rightarrow> (None, r\<lparr>ir_engine := s, ir_blocked := blocked, ir_out := out\<rparr>))"

function fill :: "'s process_fn \<Rightarrow> 's flush_fn \<Rightarrow> 's InspectReader \<Rightarrow> gate_error option \<times> 's InspectReader" where
  "fill process flush r =
     (if ir_out r \<noteq> [] then (None, r)
      else if ir_blocked r then (Some io_EOF, r)
      else case ir_src r of
             [] \<Rightarrow> read_error flush r io_EOF
           | rd # src \<Rightarrow>
               (case read_chunk process (r\<lparr>ir_src := src\<rparr>) (rr_data rd) of
                  (Some e, r) \<Rightarrow> (Some e, r)
                | (None, r) \<Rightarrow>
                    (case rr_err rd of
                       Some err \<Rightarrow> read_error flush r err
                     | None \<Rightarrow> fill process flush r)))"
  by pat_completeness auto
termination
  by (relation "measure (\<lambda>(process, flush, r). length (ir_src r))")
     (auto simp: read_chunk_def split: if_splits sum.splits)

definition InspectReader_Read :: "'s process_fn \<Rightarrow> 's flush_fn \<Rightarrow> nat \<Rightarrow> 's InspectReader \<Rightarrow> (string \<times> gate_error option) \<times> 's InspectReader" where
  "InspectReader_Read process flush plen r =
     (case fill process flush r of
        (Some e, r) \<Rightarrow> (([], Some e), r)
      | (None, r) \<Rightarrow> ((take plen (ir_out r), None), r\<lparr>ir_out := drop plen (ir_out r)\<rparr>))"

lemma read_error_facts:
  "read_error flush r err = (None, r') \<Longrightarrow> ir_out r' \<noteq> []"
  "read_error flush r err = (x, r') \<Longrightarrow> ir_src r' = ir_src r"
  "read_error flush r err = (None, r') \<Longrightarrow> ir_out r = [] \<Longrightarrow> \<not> ir_flushed r \<and> ir_flushed r'"
  by (auto simp: read_error_def flushEngine_def Let_def split: if_splits sum.splits option.splits)

lemma fill_progress:
  assumes "fill process flush r = (None, r')"
  shows "ir_out r' \<noteq> []" "length (ir_src r') \<le> length (ir_src r)"
    "ir_out r = [] \<Longrightarrow> length (ir_src r') < length (ir_src r) \<or> ir_src r' = ir_src r \<and> \<not> ir_flushed r \<and> ir_flushed r'"
    "ir_out r \<noteq> [] \<Longrightarrow> r' = r"
proof -
  have "ir_out r' \<noteq> [] \<and> length (ir_src r') \<le> length (ir_src r) \<and>
    (ir_out r = [] \<longrightarrow> length (ir_src r') < length (ir_src r) \<or> ir_src r' = ir_src r \<and> \<not> ir_flushed r \<and> ir_flushed r')"
    using assms
  proof (induction process flush r rule: fill.induct)
    case (1 process flush r)
    show ?case
    proof (cases "ir_out r \<noteq> []")
      case True
      then show ?thesis using 1(2) by simp
    next
      case False
      then have nb: "\<not> ir_blocked r" using 1(2) by auto
      show ?thesis
      proof (cases "ir_src r")
        case Nil
        then have e: "read_error flush r io_EOF = (None, r')" using 1(2) False nb by simp
        show ?thesis
          using read_error_facts(1) [OF e] read_error_facts(2) [OF e] read_error_facts(3) [OF e] False by simp
      next
        case (Cons rd src)
        obtain x r1 where c: "read_chunk process (r\<lparr>ir_src := src\<rparr>) (rr_data rd) = (x, r1)" by fastforce
        then have s1: "ir_src r1 = src" by (auto simp: read_chunk_def split: if_splits sum.splits)
        have x: "x = None" using 1(2) False nb Cons c by (cases x) auto
        show ?thesis
        proof (cases "rr_err rd")
          case None
          then have f: "fill process flush r1 = (None, r')" using 1(2) False nb Cons c x by simp
          have "ir_out r' \<noteq> [] \<and> length (ir_src r') \<le> length (ir_src r1)"
            using 1(1) [OF _ nb Cons c [symmetric] x None f] False by blast
          then show ?thesis using s1 Cons by simp
        next
          case (Some err)
          then have e: "read_error flush r1 err = (None, r')" using 1(2) False nb Cons c x by simp
          then show ?thesis using read_error_facts(1) [OF e] read_error_facts(2) [OF e] s1 Cons by simp
        qed
      qed
    qed
  qed
  then show "ir_out r' \<noteq> []" "length (ir_src r') \<le> length (ir_src r)"
    "ir_out r = [] \<Longrightarrow> length (ir_src r') < length (ir_src r) \<or> ir_src r' = ir_src r \<and> \<not> ir_flushed r \<and> ir_flushed r'"
    by auto
  show "ir_out r \<noteq> [] \<Longrightarrow> r' = r" using assms by simp
qed

declare fill.simps [simp del]

text \<open>
  \<open>io.CopyBuffer\<close> as \<open>copyBufferPooled\<close> calls it, with a buffer of \<open>plen\<close>
  bytes: read until an error, \<open>EOF\<close> being success; an empty buffer panics.
\<close>

function copyBufferPooled :: "'s process_fn \<Rightarrow> 's flush_fn \<Rightarrow> nat \<Rightarrow> 's InspectReader \<Rightarrow> (gate_error option \<times> string) \<times> 's InspectReader" where
  "copyBufferPooled process flush plen r =
     (if plen = 0 then ((Some Panic, []), r)
      else case InspectReader_Read process flush plen r of
             ((out, Some e), r) \<Rightarrow> ((if e = io_EOF then None else Some e, out), r)
           | ((out, None), r) \<Rightarrow>
               (case copyBufferPooled process flush plen r of ((e, rest), r) \<Rightarrow> ((e, out @ rest), r)))"
  by pat_completeness auto
termination
proof (relation "measures [\<lambda>(process, flush, plen, r). length (ir_src r),
    \<lambda>(process, flush, plen, r). if ir_flushed r then 0 else 1, \<lambda>(process, flush, plen, r). length (ir_out r)]", goal_cases)
  case (2 process flush plen r res r'' out e)
  obtain y r1 where f: "fill process flush r = (y, r1)" by fastforce
  have "y = None" "r'' = r1\<lparr>ir_out := drop plen (ir_out r1)\<rparr>"
    using 2 f by (auto simp: InspectReader_Read_def split: option.splits)
  note f = f [unfolded this(1)] and r'' = this(2)
  show ?case
  proof (cases "ir_out r = []")
    case True
    then show ?thesis using fill_progress(3) [OF f] r'' by auto
  next
    case False
    then show ?thesis using fill_progress(4) [OF f] r'' 2(1) by simp
  qed
qed simp

declare copyBufferPooled.simps [simp del]

text \<open>The passage of the text through a script whose only error is the end of the source.\<close>

fun eof_script :: "src_read list \<Rightarrow> bool" where
  "eof_script [] = True"
| "eof_script (Read_result d None # src) = eof_script src"
| "eof_script (Read_result d (Some e) # src) = (e = io_EOF \<and> src = [])"

definition script_text :: "src_read list \<Rightarrow> string" where
  "script_text src = concat (map rr_data src)"

section \<open>The contract of a filter engine\<close>

text \<open>
  \<open>R s w e\<close>: state \<open>s\<close> is reached when the text \<open>w\<close> went in and \<open>e\<close> came out.
  \<open>spec w out blocked\<close>: what the whole stream \<open>w\<close> may become.  A filter keeps
  \<open>R\<close> with every chunk, meets \<open>spec\<close> when it is flushed, and when it blocks meets
  \<open>spec\<close> whatever would have followed.
\<close>

locale stream_filter =
  fixes process :: "'s process_fn"
    and flush :: "'s flush_fn"
    and R :: "'s \<Rightarrow> string \<Rightarrow> string \<Rightarrow> bool"
    and spec :: "string \<Rightarrow> string \<Rightarrow> bool \<Rightarrow> bool"
  assumes process_ok: "R s w e \<Longrightarrow> c \<noteq> [] \<Longrightarrow>
      \<exists>out b s'. process s c = Inr (out, b, s') \<and>
        (if b then (\<forall>rest. spec (w @ c @ rest) (e @ out) True) \<and> (out = [] \<longrightarrow> (\<exists>s''. flush s' = Inr ([], s'')))
         else R s' (w @ c) (e @ out))"
    and flush_ok: "R s w e \<Longrightarrow> \<exists>out s'. flush s = Inr (out, s') \<and> spec w (e @ out) False"
begin

definition good :: "string \<Rightarrow> string \<Rightarrow> 's InspectReader \<Rightarrow> bool" where
  "good whole e r =
     (if ir_blocked r then spec whole (e @ ir_out r) True
      else if ir_flushed r then spec whole (e @ ir_out r) False \<and> ir_src r = []
      else eof_script (ir_src r) \<and> (\<exists>w. whole = w @ script_text (ir_src r) \<and> R (ir_engine r) w (e @ ir_out r)))"

lemma read_error_good:
  assumes "good whole e r" "ir_src r = []" "ir_blocked r \<longrightarrow> ir_out r = [] \<longrightarrow> (\<exists>s''. flush (ir_engine r) = Inr ([], s''))"
    "read_error flush r io_EOF = (res, r')"
  shows "good whole e r' \<and> (case res of None \<Rightarrow> ir_out r' \<noteq> [] | Some x \<Rightarrow> x = io_EOF \<and> ir_out r' = [] \<and> (ir_blocked r' \<or> ir_flushed r'))"
proof (cases "ir_out r \<noteq> []")
  case True
  then show ?thesis using assms(1,4) by (auto simp: read_error_def)
next
  case False
  note o = this
  show ?thesis
  proof (cases "ir_flushed r")
    case True
    then show ?thesis using assms(1,4) o by (auto simp: read_error_def flushEngine_def)
  next
    case False
    show ?thesis
    proof (cases "ir_blocked r")
      case True
      then obtain s'' where "flush (ir_engine r) = Inr ([], s'')" using assms(3) o by blast
      then show ?thesis using assms(1,4) o False True
        by (auto simp: read_error_def flushEngine_def good_def)
    next
      case nb: False
      then have "R (ir_engine r) whole e" using assms(1,2) o False by (auto simp: good_def script_text_def)
      from flush_ok [OF this] obtain out s' where "flush (ir_engine r) = Inr (out, s')" "spec whole (e @ out) False" by blast
      then show ?thesis using assms(2,4) o False nb
        by (auto simp: read_error_def flushEngine_def good_def split: if_splits)
    qed
  qed
qed

lemma fill_good:
  assumes "good whole e r" "fill process flush r = (res, r')"
  shows "good whole e r' \<and> (case res of None \<Rightarrow> ir_out r' \<noteq> [] | Some x \<Rightarrow> x = io_EOF \<and> ir_out r' = [] \<and> (ir_blocked r' \<or> ir_flushed r'))"
  using assms
proof (induction "ir_src r" arbitrary: r)
  case Nil
  show ?case
  proof (cases "ir_out r \<noteq> [] \<or> ir_blocked r")
    case True
    then show ?thesis using Nil by (auto simp: fill.simps [of process flush r] split: if_splits)
  next
    case False
    then have "read_error flush r io_EOF = (res, r')" using Nil by (simp add: fill.simps [of process flush r] Nil(1) [symmetric])
    then show ?thesis using read_error_good [OF Nil(2)] Nil(1) False by simp
  qed
next
  case (Cons rd src)
  note src = Cons(2) [symmetric] and good = Cons(3) and fill = Cons(4) [unfolded fill.simps [of process flush r]]
  show ?case
  proof (cases "ir_out r \<noteq> [] \<or> ir_blocked r")
    case True
    then show ?thesis using good fill by (auto split: if_splits)
  next
    case False
    note nb = this
    then have nf: "\<not> ir_flushed r" using good src by (auto simp: good_def)
    then obtain w where w: "whole = w @ rr_data rd @ script_text src" "R (ir_engine r) w e" and scr: "eof_script (rd # src)"
      using good nb src by (auto simp: good_def script_text_def)
    have tail: "rr_err rd = None \<and> eof_script src \<or> rr_err rd = Some io_EOF \<and> src = []"
      using scr by (cases rd; cases "rr_err rd") auto
    obtain r1 where r1: "read_chunk process (r\<lparr>ir_src := src\<rparr>) (rr_data rd) = (None, r1)" "ir_src r1 = src" "good whole e r1"
      "ir_blocked r1 \<longrightarrow> ir_out r1 = [] \<longrightarrow> (\<exists>s''. flush (ir_engine r1) = Inr ([], s''))"
    proof (cases "rr_data rd = []")
      case True
      have "eof_script src" using tail by auto
      then show thesis using that [of "r\<lparr>ir_src := src\<rparr>"] True nb nf w by (auto simp: read_chunk_def good_def)
    next
      case False
      from process_ok [OF w(2) this] obtain out b s' where p: "process (ir_engine r) (rr_data rd) = Inr (out, b, s')"
        "if b then (\<forall>rest. spec (w @ rr_data rd @ rest) (e @ out) True) \<and> (out = [] \<longrightarrow> (\<exists>s''. flush s' = Inr ([], s'')))
         else R s' (w @ rr_data rd) (e @ out)" by blast
      let ?r1 = "r\<lparr>ir_src := src, ir_engine := s', ir_blocked := b, ir_out := out\<rparr>"
      have "read_chunk process (r\<lparr>ir_src := src\<rparr>) (rr_data rd) = (None, ?r1)" using False p(1) by (simp add: read_chunk_def)
      moreover have "good whole e ?r1"
        using p(2) w(1) nf tail by (cases b) (auto simp: good_def)
      ultimately show thesis using that [of ?r1] p(2) by (cases b) auto
    qed
    show ?thesis
    proof (cases "rr_err rd")
      case None
      then have "fill process flush r1 = (res, r')" using fill nb src r1(1) by simp
      from Cons(1) [OF r1(2) [symmetric] r1(3) this] show ?thesis .
    next
      case (Some err)
      then have "read_error flush r1 io_EOF = (res, r')" "ir_src r1 = []" using fill nb src r1(1,2) tail by auto
      from read_error_good [OF r1(3) this(2) r1(4) this(1)] show ?thesis .
    qed
  qed
qed

text \<open>Whatever the chunks and the buffer, the reader delivers what the filter promises for the whole text.\<close>

lemma copy_spec_aux:
  assumes "p = process" "f = flush" "good whole e r" "0 < plen"
  shows "\<exists>out r'. copyBufferPooled p f plen r = ((None, out), r') \<and> spec whole (e @ out) (ir_blocked r')"
  using assms
proof (induction p f plen r arbitrary: e rule: copyBufferPooled.induct)
  case (1 p f plen r)
  note pf = 1(2,3)
  obtain res r1 where fill: "fill process flush r = (res, r1)" by fastforce
  note g = fill_good [OF 1(4) fill]
  show ?case
  proof (cases res)
    case (Some x)
    then have "spec whole e (ir_blocked r1)" using g by (auto simp: good_def split: if_splits)
    then show ?thesis
      using fill g Some 1(5) pf by (auto simp: copyBufferPooled.simps [of process flush plen r] InspectReader_Read_def)
  next
    case None
    let ?r2 = "r1\<lparr>ir_out := drop plen (ir_out r1)\<rparr>"
    have rd: "InspectReader_Read process flush plen r = ((take plen (ir_out r1), None), ?r2)"
      using fill None by (simp add: InspectReader_Read_def)
    have "good whole (e @ take plen (ir_out r1)) ?r2" using g by (auto simp: good_def split: if_splits)
    from 1(1) [OF _ _ refl refl pf this] rd pf 1(5) obtain out r'
      where "copyBufferPooled process flush plen ?r2 = ((None, out), r')" "spec whole ((e @ take plen (ir_out r1)) @ out) (ir_blocked r')"
      by auto
    then show ?thesis using rd 1(5) pf by (auto simp: copyBufferPooled.simps [of process flush plen r])
  qed
qed

theorem copy_spec:
  assumes "R s [] []" "eof_script src" "0 < plen"
  shows "\<exists>out r'. copyBufferPooled process flush plen (newInspectReader src s) = ((None, out), r') \<and>
    spec (script_text src) out (ir_blocked r')"
proof -
  have "good (script_text src) [] (newInspectReader src s)"
    using assms by (simp add: good_def newInspectReader_def)
  from copy_spec_aux [OF refl refl this assms(3)] show ?thesis by simp
qed

end

end
