(* ===== verification/Phrase_Filter.thy ===== *)
theory Phrase_Filter
  imports Stream_Engine
begin

text \<open>
  The phrase filter of \<open>proxy/semantic_filter.go\<close>: an Aho-Corasick automaton
  with dense transition tables, built by \<open>addPhrase\<close> and \<open>buildFailures\<close>,
  and the per-stream scanner \<open>phraseStreamFilter\<close>.  The lemmas show that the
  automaton's state after any text is the longest suffix of the text that is a
  prefix of a phrase, so that its flags and scores are those of the phrases
  ending at that byte, and from that what a stream of chunks is blocked for,
  independently of how the text is cut into chunks.

  The table \<open>next [256]int32\<close> is a function on bytes and its entries are
  natural numbers: a node takes more than 1 KiB, so 2^31 nodes are out of
  reach.  Scores are 32-bit words, read as signed numbers.
\<close>

section \<open>The automaton\<close>

record ahoNode =
  an_next :: "char \<Rightarrow> nat"
  an_fail :: nat
  an_hard :: bool
  an_excpt :: bool
  an_score :: "32 word"
  an_phrase :: string

definition empty_ahoNode :: ahoNode where
  "empty_ahoNode = \<lparr>an_next = (\<lambda>_. 0), an_fail = 0, an_hard = False, an_excpt = False, an_score = 0, an_phrase = []\<rparr>"

record PhraseFilter =
  pf_nodes :: "ahoNode list"
  pf_threshold :: int

record WeightedPhrase =
  wp_Phrase :: string
  wp_Weight :: int

definition normalizePhrase :: "string \<Rightarrow> string" where
  "normalizePhrase phrase = to_lower (trim_space phrase)"

text \<open>The loop of \<open>addPhrase\<close> over the bytes of the normalised phrase.  Every access to \<open>nodes\<close> is checked.\<close>

fun insert_bytes :: "ahoNode list \<Rightarrow> nat \<Rightarrow> string \<Rightarrow> (ahoNode list \<times> nat) option" where
  "insert_bytes ns node [] = Some (ns, node)"
| "insert_bytes ns node (b # bs) = do {
     nd \<leftarrow> at ns node;
     let nx = an_next nd b in
     if nx = 0
     then do {
       let nx = length ns;
       let ns = ns @ [empty_ahoNode];
       nd \<leftarrow> at ns node;
       insert_bytes (ns[node := nd\<lparr>an_next := (an_next nd)(b := nx)\<rparr>]) nx bs }
     else insert_bytes ns nx bs }"

definition addPhrase :: "ahoNode list \<Rightarrow> string \<Rightarrow> int \<Rightarrow> bool \<Rightarrow> bool \<Rightarrow> ahoNode list option" where
  "addPhrase ns phrase score hard excptn =
     (let normalized = normalizePhrase phrase
      in if normalized = [] then Some ns
         else do {
           (ns, node) \<leftarrow> insert_bytes ns 0 normalized;
           nd \<leftarrow> at ns node;
           Some (ns[node := nd\<lparr>an_hard := an_hard nd \<or> hard, an_excpt := an_excpt nd \<or> excptn,
                               an_score := an_score nd + word_of_int score,
                               an_phrase := (if hard \<or> score > 0 \<or> excptn then phrase else an_phrase nd)\<rparr>]) })"

definition all_bytes :: string where
  "all_bytes = map char_of [0..<256 :: nat]"

text \<open>The inner loop of \<open>buildFailures\<close>: one byte of one node.\<close>

definition bfs_byte :: "nat \<Rightarrow> ahoNode list \<times> nat list \<Rightarrow> char \<Rightarrow> (ahoNode list \<times> nat list) option" where
  "bfs_byte node st b =
     (case st of (ns, queue) \<Rightarrow> do {
        nd \<leftarrow> at ns node;
        let child = an_next nd b;
        failnd \<leftarrow> at ns (an_fail nd);
        let target = an_next failnd b in
        if child = 0 then Some (ns[node := nd\<lparr>an_next := (an_next nd)(b := target)\<rparr>], queue)
        else do {
          cn \<leftarrow> at ns child;
          fn \<leftarrow> at (ns[child := cn\<lparr>an_fail := target\<rparr>]) target;
          Some (ns[child := cn\<lparr>an_fail := target,
                     an_hard := an_hard cn \<or> an_hard fn, an_excpt := an_excpt cn \<or> an_excpt fn,
                     an_score := an_score cn + an_score fn,
                     an_phrase := (if an_phrase cn = [] then an_phrase fn else an_phrase cn)\<rparr>],
                queue @ [child]) } })"

text \<open>
  The outer loop, on the part of the queue that is left.  The loop has no
  bound in the code; \<open>fuel\<close> is one step per node, and \<open>None\<close> is a panic or
  means that it did not suffice (lemma \<open>bfs_complete\<close> shows it always does).
\<close>

fun bfs :: "nat \<Rightarrow> ahoNode list \<Rightarrow> nat list \<Rightarrow> ahoNode list option" where
  "bfs fuel ns [] = Some ns"
| "bfs 0 ns (node # queue) = None"
| "bfs (Suc fuel) ns (node # queue) =
     Option.bind (foldl_opt (bfs_byte node) (ns, queue) all_bytes) (\<lambda>(ns, queue). bfs fuel ns queue)"

definition root_queue :: "ahoNode list \<Rightarrow> nat list" where
  "root_queue ns = filter (\<lambda>child. child \<noteq> 0) (map (an_next (ns ! 0)) all_bytes)"

definition reset_fail :: "ahoNode list \<Rightarrow> nat \<Rightarrow> ahoNode list option" where
  "reset_fail ns child = do { nd \<leftarrow> at ns child; Some (ns[child := nd\<lparr>an_fail := 0\<rparr>]) }"

definition buildFailures :: "ahoNode list \<Rightarrow> ahoNode list option" where
  "buildFailures ns = do {
     _ \<leftarrow> at ns 0;
     ns' \<leftarrow> foldl_opt reset_fail ns (root_queue ns);
     bfs (length ns) ns' (root_queue ns) }"

fun add_weighted :: "int \<Rightarrow> ahoNode list \<Rightarrow> WeightedPhrase list \<Rightarrow> ahoNode list result" where
  "add_weighted threshold ns [] = Inr ns"
| "add_weighted threshold ns (p # ps) =
     (if wp_Weight p \<le> 0 then Inl (Failure ''semantic phrase weight must be positive'')
      else if threshold = 0 then Inl (Failure ''semantic score threshold must be positive when weighted phrases are configured'')
      else rbind (no_panic (addPhrase ns (wp_Phrase p) (wp_Weight p) False False)) (\<lambda>ns. add_weighted threshold ns ps))"

definition NewPhraseFilterWithExceptions ::
  "string list \<Rightarrow> WeightedPhrase list \<Rightarrow> string list \<Rightarrow> int \<Rightarrow> PhraseFilter result" where
  "NewPhraseFilterWithExceptions blocked weighted excptns threshold =
     (if threshold < 0 then Inl (Failure ''semantic score threshold cannot be negative'')
      else rbind (no_panic (foldl_opt (\<lambda>ns p. addPhrase ns p 0 True False) [empty_ahoNode] blocked)) (\<lambda>ns.
           rbind (add_weighted threshold ns weighted) (\<lambda>ns.
           rbind (no_panic (foldl_opt (\<lambda>ns p. addPhrase ns p 0 False True) ns excptns)) (\<lambda>ns.
           rbind (no_panic (buildFailures ns)) (\<lambda>ns.
           Inr \<lparr>pf_nodes = ns, pf_threshold = threshold\<rparr>)))))"

definition NewScoredPhraseFilter :: "string list \<Rightarrow> WeightedPhrase list \<Rightarrow> int \<Rightarrow> PhraseFilter result" where
  "NewScoredPhraseFilter blocked weighted threshold = NewPhraseFilterWithExceptions blocked weighted [] threshold"

definition NewPhraseFilter :: "string list \<Rightarrow> PhraseFilter result" where
  "NewPhraseFilter phrases = NewScoredPhraseFilter phrases [] 0"

section \<open>The stream scanner\<close>

record phraseStreamFilter =
  ps_compiled :: "PhraseFilter option"
  ps_node :: nat
  ps_score :: "32 word"
  ps_excepted :: bool
  ps_blockedPhrase :: string
  ps_blockedType :: string
  ps_observeOnly :: bool

definition PhraseFilter_NewFilter :: "PhraseFilter option \<Rightarrow> phraseStreamFilter" where
  "PhraseFilter_NewFilter f = \<lparr>ps_compiled = f, ps_node = 0, ps_score = 0, ps_excepted = False,
     ps_blockedPhrase = [], ps_blockedType = [], ps_observeOnly = False\<rparr>"

definition ps_Decision :: "phraseStreamFilter \<Rightarrow> bool \<times> string \<times> string" where
  "ps_Decision f =
     (if ps_blockedPhrase f \<noteq> [] \<and> \<not> ps_observeOnly f then (True, ps_blockedType f, ps_blockedPhrase f)
      else (False, [], []))"

definition ps_LogDecision :: "phraseStreamFilter \<Rightarrow> bool \<times> bool \<times> string \<times> string" where
  "ps_LogDecision f =
     (if ps_observeOnly f \<and> ps_excepted f then (False, True, [], [])
      else if ps_observeOnly f \<and> ps_blockedPhrase f \<noteq> [] then (True, False, ps_blockedType f, ps_blockedPhrase f)
      else (False, False, [], []))"

text \<open>
  The loop of \<open>matchChunk\<close> and its body: the filter record carries \<open>node\<close>,
  \<open>score\<close> and \<open>excepted\<close>, which the code keeps in locals and stores on every
  exit; \<open>i\<close> is the number of bytes consumed.
\<close>

definition match_byte :: "ahoNode list \<Rightarrow> 32 word \<Rightarrow> phraseStreamFilter \<Rightarrow> char \<Rightarrow> (bool \<times> phraseStreamFilter) option" where
  "match_byte ns thr f b = do {
     nd \<leftarrow> at ns (ps_node f);
     let node = an_next nd (lower_char b);
     cur \<leftarrow> at ns node;
     let f = f\<lparr>ps_node := node, ps_excepted := ps_excepted f \<or> an_excpt cur\<rparr> in
     Some (if ps_excepted f then (False, f)
           else let f = (if an_hard cur then f\<lparr>ps_blockedPhrase := an_phrase cur, ps_blockedType := ''phrase''\<rparr> else f)
                in if an_hard cur \<and> \<not> ps_observeOnly f then (True, f)
                   else if sint (an_score cur) > 0
                   then let f = f\<lparr>ps_score := ps_score f + an_score cur\<rparr>
                        in if sint thr > 0 \<and> sint (ps_score f) \<ge> sint thr
                           then (\<not> ps_observeOnly f, f\<lparr>ps_blockedPhrase := an_phrase cur, ps_blockedType := ''phrase_score''\<rparr>)
                           else (False, f)
                   else (False, f)) }"

fun match_loop :: "ahoNode list \<Rightarrow> 32 word \<Rightarrow> phraseStreamFilter \<Rightarrow> nat \<Rightarrow> string \<Rightarrow> (bool \<times> nat \<times> phraseStreamFilter) option" where
  "match_loop ns thr f i [] = Some (False, i, f)"
| "match_loop ns thr f i (b # bs) = do {
     (stop, f) \<leftarrow> match_byte ns thr f b;
     if stop then Some (True, Suc i, f) else match_loop ns thr f (Suc i) bs }"

definition matchChunk :: "PhraseFilter \<Rightarrow> phraseStreamFilter \<Rightarrow> string \<Rightarrow> (bool \<times> nat \<times> phraseStreamFilter) result" where
  "matchChunk c f inp =
     (if pf_nodes c = [] then Inl (Failure ''phrase filter is not initialized'')
      else no_panic (match_loop (pf_nodes c) (word_of_int (pf_threshold c)) f 0 inp))"

definition ps_ProcessChunk :: "phraseStreamFilter \<Rightarrow> string \<Rightarrow> (string \<times> bool \<times> phraseStreamFilter) result" where
  "ps_ProcessChunk f inp =
     (case ps_compiled f of
        None \<Rightarrow> Inr (inp, False, f)
      | Some c \<Rightarrow>
          (if length (pf_nodes c) \<le> 1 \<or> inp = [] then Inr (inp, False, f)
           else rbind (matchChunk c f inp) (\<lambda>(blocked, outLen, f).
                  Inr (if blocked then take outLen inp else inp, blocked, f))))"

text \<open>The stream scanner has no \<open>Flush\<close> method.\<close>

definition ps_Flush :: "phraseStreamFilter flush_fn" where
  "ps_Flush f = Inr ([], f)"

section \<open>The loops with every index in range\<close>

text \<open>
  The same loops on total list access.  As long as the transitions and failure
  links of the nodes are indexes of nodes, which every step keeps, no access
  panics and the checked loops compute what these compute.
\<close>

fun insert_bytes_pure :: "ahoNode list \<Rightarrow> nat \<Rightarrow> string \<Rightarrow> ahoNode list \<times> nat" where
  "insert_bytes_pure ns node [] = (ns, node)"
| "insert_bytes_pure ns node (b # bs) =
     (let nx = an_next (ns ! node) b
      in if nx = 0
         then let nx = length ns;
                  ns = ns @ [empty_ahoNode];
                  ns = ns[node := (ns ! node)\<lparr>an_next := (an_next (ns ! node))(b := nx)\<rparr>]
              in insert_bytes_pure ns nx bs
         else insert_bytes_pure ns nx bs)"

definition addPhrase_pure :: "ahoNode list \<Rightarrow> string \<Rightarrow> int \<Rightarrow> bool \<Rightarrow> bool \<Rightarrow> ahoNode list" where
  "addPhrase_pure ns phrase score hard excptn =
     (let normalized = normalizePhrase phrase
      in if normalized = [] then ns
         else let (ns, node) = insert_bytes_pure ns 0 normalized; nd = ns ! node
              in ns[node := nd\<lparr>an_hard := an_hard nd \<or> hard, an_excpt := an_excpt nd \<or> excptn,
                               an_score := an_score nd + word_of_int score,
                               an_phrase := (if hard \<or> score > 0 \<or> excptn then phrase else an_phrase nd)\<rparr>])"

definition bfs_byte_pure :: "nat \<Rightarrow> ahoNode list \<times> nat list \<Rightarrow> char \<Rightarrow> ahoNode list \<times> nat list" where
  "bfs_byte_pure node st b =
     (case st of (ns, queue) \<Rightarrow>
       (let child = an_next (ns ! node) b; fail = an_fail (ns ! node); target = an_next (ns ! fail) b
        in if child = 0
           then (ns[node := (ns ! node)\<lparr>an_next := (an_next (ns ! node))(b := target)\<rparr>], queue)
           else let cn = ns ! child; fn = (ns[child := cn\<lparr>an_fail := target\<rparr>]) ! target
                in (ns[child := cn\<lparr>an_fail := target,
                         an_hard := an_hard cn \<or> an_hard fn, an_excpt := an_excpt cn \<or> an_excpt fn,
                         an_score := an_score cn + an_score fn,
                         an_phrase := (if an_phrase cn = [] then an_phrase fn else an_phrase cn)\<rparr>],
                    queue @ [child])))"

fun bfs_pure :: "nat \<Rightarrow> ahoNode list \<Rightarrow> nat list \<Rightarrow> ahoNode list option" where
  "bfs_pure fuel ns [] = Some ns"
| "bfs_pure 0 ns (node # queue) = None"
| "bfs_pure (Suc fuel) ns (node # queue) =
     (let (ns, queue) = foldl (bfs_byte_pure node) (ns, queue) all_bytes in bfs_pure fuel ns queue)"

definition buildFailures_pure :: "ahoNode list \<Rightarrow> ahoNode list option" where
  "buildFailures_pure ns =
     bfs_pure (length ns) (foldl (\<lambda>ns child. ns[child := (ns ! child)\<lparr>an_fail := 0\<rparr>]) ns (root_queue ns)) (root_queue ns)"

fun add_weighted_pure :: "int \<Rightarrow> ahoNode list \<Rightarrow> WeightedPhrase list \<Rightarrow> ahoNode list result" where
  "add_weighted_pure threshold ns [] = Inr ns"
| "add_weighted_pure threshold ns (p # ps) =
     (if wp_Weight p \<le> 0 then Inl (Failure ''semantic phrase weight must be positive'')
      else if threshold = 0 then Inl (Failure ''semantic score threshold must be positive when weighted phrases are configured'')
      else add_weighted_pure threshold (addPhrase_pure ns (wp_Phrase p) (wp_Weight p) False False) ps)"

definition match_byte_pure :: "ahoNode list \<Rightarrow> 32 word \<Rightarrow> phraseStreamFilter \<Rightarrow> char \<Rightarrow> bool \<times> phraseStreamFilter" where
  "match_byte_pure ns thr f b =
     (let node = an_next (ns ! ps_node f) (lower_char b); cur = ns ! node;
          f = f\<lparr>ps_node := node, ps_excepted := ps_excepted f \<or> an_excpt cur\<rparr>
      in if ps_excepted f then (False, f)
         else let f = (if an_hard cur then f\<lparr>ps_blockedPhrase := an_phrase cur, ps_blockedType := ''phrase''\<rparr> else f)
              in if an_hard cur \<and> \<not> ps_observeOnly f then (True, f)
                 else if sint (an_score cur) > 0
                 then let f = f\<lparr>ps_score := ps_score f + an_score cur\<rparr>
                      in if sint thr > 0 \<and> sint (ps_score f) \<ge> sint thr
                         then (\<not> ps_observeOnly f, f\<lparr>ps_blockedPhrase := an_phrase cur, ps_blockedType := ''phrase_score''\<rparr>)
                         else (False, f)
                 else (False, f))"

fun match_loop_pure :: "ahoNode list \<Rightarrow> 32 word \<Rightarrow> phraseStreamFilter \<Rightarrow> nat \<Rightarrow> string \<Rightarrow> bool \<times> nat \<times> phraseStreamFilter" where
  "match_loop_pure ns thr f i [] = (False, i, f)"
| "match_loop_pure ns thr f i (b # bs) =
     (case match_byte_pure ns thr f b of
        (True, f) \<Rightarrow> (True, Suc i, f)
      | (False, f) \<Rightarrow> match_loop_pure ns thr f (Suc i) bs)"

definition next_ok :: "ahoNode list \<Rightarrow> bool" where
  "next_ok ns \<longleftrightarrow> ns \<noteq> [] \<and> (\<forall>nd\<in>set ns. \<forall>b. an_next nd b < length ns)"

definition nodes_ok :: "ahoNode list \<Rightarrow> bool" where
  "nodes_ok ns \<longleftrightarrow> next_ok ns \<and> (\<forall>nd\<in>set ns. an_fail nd < length ns)"

lemma nodes_okD: "nodes_ok ns \<Longrightarrow> i < length ns \<Longrightarrow> an_next (ns ! i) b < length ns \<and> an_fail (ns ! i) < length ns"
  by (simp add: nodes_ok_def next_ok_def)

lemma nodes_ok_root: "nodes_ok [empty_ahoNode]"
  by (simp add: nodes_ok_def next_ok_def empty_ahoNode_def)

lemma nodes_ok_update:
  assumes "nodes_ok ns" "\<And>b. an_next nd b < length ns" "an_fail nd < length ns"
  shows "nodes_ok (ns[i := nd])"
  using assms set_update_subset_insert [of ns i nd] unfolding nodes_ok_def next_ok_def by (simp, blast)

lemma nodes_ok_snoc: "nodes_ok ns \<Longrightarrow> nodes_ok (ns @ [empty_ahoNode])"
  by (auto simp: nodes_ok_def next_ok_def empty_ahoNode_def intro: less_SucI)

lemma insert_bytes_checked:
  "nodes_ok ns \<Longrightarrow> node < length ns \<Longrightarrow>
     \<exists>ns' node'. insert_bytes ns node w = Some (ns', node') \<and> insert_bytes_pure ns node w = (ns', node') \<and> nodes_ok ns' \<and> node' < length ns'"
proof (induction w arbitrary: ns node)
  case (Cons b bs)
  let ?ns = "ns @ [empty_ahoNode]" and ?nx = "an_next (ns ! node) b"
  show ?case
  proof (cases "?nx = 0")
    case True
    let ?ns' = "?ns[node := (?ns ! node)\<lparr>an_next := (an_next (?ns ! node))(b := length ns)\<rparr>]"
    have ok: "nodes_ok ?ns" using Cons.prems(1) by (rule nodes_ok_snoc)
    have "nodes_ok ?ns'"
      by (rule nodes_ok_update [OF ok]) (use nodes_okD [OF ok, of node] Cons.prems(2) in auto)
    from Cons.IH [OF this, of "length ns"] Cons.prems(2) True show ?thesis by (simp add: Let_def)
  next
    case False
    then show ?thesis using Cons.IH [OF Cons.prems(1), of ?nx] nodes_okD [OF Cons.prems] Cons.prems(2) by (simp add: Let_def)
  qed
qed simp

lemma addPhrase_checked:
  assumes "nodes_ok ns"
  shows "addPhrase ns phrase score hard excptn = Some (addPhrase_pure ns phrase score hard excptn) \<and> nodes_ok (addPhrase_pure ns phrase score hard excptn)"
proof (cases "normalizePhrase phrase = []")
  case False
  have "0 < length ns" using assms by (simp add: nodes_ok_def next_ok_def)
  from insert_bytes_checked [OF assms this] obtain ns' node' where i: "insert_bytes ns 0 (normalizePhrase phrase) = Some (ns', node')"
    "insert_bytes_pure ns 0 (normalizePhrase phrase) = (ns', node')" "nodes_ok ns'" "node' < length ns'" by blast
  have "nodes_ok (ns'[node' := nd])" if "an_next nd = an_next (ns' ! node')" "an_fail nd = an_fail (ns' ! node')" for nd
    using nodes_ok_update [OF i(3)] nodes_okD [OF i(3,4)] that by simp
  then show ?thesis using i False by (simp add: addPhrase_def addPhrase_pure_def Let_def)
qed (use assms in \<open>simp add: addPhrase_def addPhrase_pure_def\<close>)

definition bfs_ok :: "nat \<Rightarrow> ahoNode list \<times> nat list \<Rightarrow> bool" where
  "bfs_ok n st \<longleftrightarrow> nodes_ok (fst st) \<and> length (fst st) = n \<and> (\<forall>i\<in>set (snd st). i < n)"

lemma bfs_byte_checked:
  assumes "bfs_ok n st" "node < n"
  shows "bfs_byte node st b = Some (bfs_byte_pure node st b) \<and> bfs_ok n (bfs_byte_pure node st b)"
proof -
  obtain ns queue where st: "st = (ns, queue)" by fastforce
  have ok: "nodes_ok ns" "length ns = n" "\<And>i. i \<in> set queue \<Longrightarrow> i < n" using assms(1) st by (auto simp: bfs_ok_def)
  have node: "node < length ns" using assms(2) ok(2) by simp
  note nd = nodes_okD [OF ok(1) node]
  have target: "an_next (ns ! an_fail (ns ! node)) b < length ns" using nodes_okD [OF ok(1)] nd by blast
  have child: "an_next (ns ! node) b < length ns" using nd by blast
  show ?thesis
  proof (cases "an_next (ns ! node) b = 0")
    case True
    have "nodes_ok (ns[node := (ns ! node)\<lparr>an_next := (an_next (ns ! node))(b := an_next (ns ! an_fail (ns ! node)) b)\<rparr>])"
      by (rule nodes_ok_update [OF ok(1)]) (use nd target in auto)
    then show ?thesis using True node nd target ok st by (simp add: bfs_byte_def bfs_byte_pure_def bfs_ok_def Let_def)
  next
    case False
    have "nodes_ok (ns[an_next (ns ! node) b := x])"
      if "an_next x = an_next (ns ! an_next (ns ! node) b)" "an_fail x = an_next (ns ! an_fail (ns ! node)) b" for x
      by (rule nodes_ok_update [OF ok(1)]) (use nodes_okD [OF ok(1) child] target that in auto)
    then show ?thesis using False node nd target child ok st by (auto simp: bfs_byte_def bfs_byte_pure_def bfs_ok_def Let_def)
  qed
qed

lemma bfs_checked: "bfs_ok n (ns, queue) \<Longrightarrow> bfs fuel ns queue = bfs_pure fuel ns queue"
proof (induction fuel ns queue rule: bfs.induct)
  case (3 fuel ns node queue)
  have st: "bfs_ok n (ns, queue)" "node < n" using 3(2) by (auto simp: bfs_ok_def)
  from foldl_opt_inv [where I = "bfs_ok n" and f = "bfs_byte node" and g = "bfs_byte_pure node" and xs = all_bytes, OF _ st(1)] bfs_byte_checked st(2)
  have f: "foldl_opt (bfs_byte node) (ns, queue) all_bytes = Some (foldl (bfs_byte_pure node) (ns, queue) all_bytes)"
    "bfs_ok n (foldl (bfs_byte_pure node) (ns, queue) all_bytes)" by blast+
  obtain ns' q' where fo: "foldl (bfs_byte_pure node) (ns, queue) all_bytes = (ns', q')" by fastforce
  have "bfs fuel ns' q' = bfs_pure fuel ns' q'" using 3(1) [OF f(1)] fo f(2) by simp
  then show ?case using f(1) fo by simp
qed simp_all

lemma buildFailures_checked:
  assumes "nodes_ok ns"
  shows "buildFailures ns = buildFailures_pure ns"
proof -
  have ne: "0 < length ns" using assms by (simp add: nodes_ok_def next_ok_def)
  have q: "\<And>i. i \<in> set (root_queue ns) \<Longrightarrow> i < length ns" using nodes_okD [OF assms ne] by (auto simp: root_queue_def)
  let ?I = "\<lambda>ns'. nodes_ok ns' \<and> length ns' = length ns" and ?g = "\<lambda>ns child. ns[child := (ns ! child)\<lparr>an_fail := 0\<rparr>]"
  have step: "reset_fail ns' child = Some (?g ns' child) \<and> ?I (?g ns' child)" if "?I ns'" "child \<in> set (root_queue ns)" for ns' child
    using that q [OF that(2)] nodes_ok_update [of ns' "(ns' ! child)\<lparr>an_fail := 0\<rparr>" child] nodes_okD [of ns' child] ne by (simp add: reset_fail_def)
  from foldl_opt_inv [where I = ?I and f = reset_fail and g = ?g, OF step] assms
  have f: "foldl_opt reset_fail ns (root_queue ns) = Some (foldl ?g ns (root_queue ns))" "?I (foldl ?g ns (root_queue ns))" by blast+
  have "bfs_ok (length ns) (foldl ?g ns (root_queue ns), root_queue ns)" using f(2) q by (simp add: bfs_ok_def)
  from bfs_checked [OF this] f(1) ne show ?thesis by (simp add: buildFailures_def buildFailures_pure_def)
qed

lemma add_weighted_checked:
  "nodes_ok ns \<Longrightarrow> add_weighted threshold ns ps = add_weighted_pure threshold ns ps \<and> (\<forall>ns'. add_weighted_pure threshold ns ps = Inr ns' \<longrightarrow> nodes_ok ns')"
proof (induction ps arbitrary: ns)
  case (Cons p ps)
  note a = addPhrase_checked [OF Cons.prems, of "wp_Phrase p" "wp_Weight p" False False]
  show ?case using a Cons.IH [OF conjunct2 [OF a]] by simp
qed simp

lemma foldl_addPhrase_checked:
  assumes "nodes_ok ns"
  shows "foldl_opt (\<lambda>ns p. addPhrase ns p 0 hard excptn) ns phrases = Some (foldl (\<lambda>ns p. addPhrase_pure ns p 0 hard excptn) ns phrases) \<and>
    nodes_ok (foldl (\<lambda>ns p. addPhrase_pure ns p 0 hard excptn) ns phrases)"
  by (rule foldl_opt_inv [where I = nodes_ok]) (use addPhrase_checked assms in blast)+

lemma NewPhraseFilterWithExceptions_checked:
  "NewPhraseFilterWithExceptions blocked weighted excptns threshold =
     (if threshold < 0 then Inl (Failure ''semantic score threshold cannot be negative'')
      else let ns = foldl (\<lambda>ns p. addPhrase_pure ns p 0 True False) [empty_ahoNode] blocked
           in rbind (add_weighted_pure threshold ns weighted) (\<lambda>ns.
              rbind (no_panic (buildFailures_pure (foldl (\<lambda>ns p. addPhrase_pure ns p 0 False True) ns excptns))) (\<lambda>ns.
              Inr \<lparr>pf_nodes = ns, pf_threshold = threshold\<rparr>)))"
proof -
  let ?ns = "foldl (\<lambda>ns p. addPhrase_pure ns p 0 True False) [empty_ahoNode] blocked"
  note 1 = foldl_addPhrase_checked [OF nodes_ok_root, of True False blocked]
  note 2 = add_weighted_checked [of ?ns threshold weighted]
  show ?thesis
  proof (cases "add_weighted_pure threshold ?ns weighted")
    case (Inr ns')
    then have "nodes_ok ns'" using 1 2 by blast
    note 3 = foldl_addPhrase_checked [OF this, of False True excptns]
    show ?thesis using 1 2 3 Inr buildFailures_checked by (simp add: NewPhraseFilterWithExceptions_def)
  qed (use 1 2 in \<open>simp add: NewPhraseFilterWithExceptions_def\<close>)
qed

lemma match_byte_checked:
  assumes "next_ok ns" "ps_node f < length ns"
  shows "match_byte ns thr f b = Some (match_byte_pure ns thr f b) \<and> ps_node (snd (match_byte_pure ns thr f b)) < length ns"
proof -
  have "an_next (ns ! ps_node f) (lower_char b) < length ns" using assms by (simp add: next_ok_def)
  then show ?thesis using assms(2) by (simp add: match_byte_def match_byte_pure_def Let_def)
qed

lemma match_loop_checked: "next_ok ns \<Longrightarrow> ps_node f < length ns \<Longrightarrow> match_loop ns thr f i bs = Some (match_loop_pure ns thr f i bs)"
proof (induction bs arbitrary: f i)
  case (Cons b bs)
  obtain stop f' where m: "match_byte_pure ns thr f b = (stop, f')" by fastforce
  then show ?case using match_byte_checked [OF Cons.prems, of thr b] Cons.IH [OF Cons.prems(1), of f'] by (cases stop) simp_all
qed simp

section \<open>Longest suffixes\<close>

fun lsuf :: "string set \<Rightarrow> string \<Rightarrow> string" where
  "lsuf P [] = []"
| "lsuf P (c # w) = (if c # w \<in> P then c # w else lsuf P w)"

definition closed_dict :: "string set \<Rightarrow> bool" where
  "closed_dict P = ([] \<in> P \<and> (\<forall>s c. s @ [c] \<in> P \<longrightarrow> s \<in> P))"

lemma lsuf_in: "[] \<in> P \<Longrightarrow> lsuf P w \<in> P"
  by (induction w) auto

lemma lsuf_suffix: "suffix (lsuf P w) w"
  by (induction w) (auto intro: suffix_ConsI)

lemma lsuf_max: "s \<in> P \<Longrightarrow> suffix s w \<Longrightarrow> suffix s (lsuf P w)"
  by (induction w) (auto simp: suffix_Cons)

lemma lsuf_id: "w \<in> P \<Longrightarrow> lsuf P w = w"
  by (cases w) auto

lemma lsuf_unique:
  assumes "[] \<in> P" "t \<in> P" "suffix t w" "\<And>s. s \<in> P \<Longrightarrow> suffix s w \<Longrightarrow> suffix s t"
  shows "lsuf P w = t"
  using assms lsuf_in lsuf_max lsuf_suffix suffix_order.antisym by metis

lemma lsuf_step:
  assumes "closed_dict P"
  shows "lsuf P (lsuf P w @ [c]) = lsuf P (w @ [c])"
proof (rule lsuf_unique [symmetric])
  show e: "[] \<in> P" using assms by (simp add: closed_dict_def)
  show "lsuf P (lsuf P w @ [c]) \<in> P" using e by (rule lsuf_in)
  have "suffix (lsuf P w @ [c]) (w @ [c])" using lsuf_suffix [of P w] by simp
  then show "suffix (lsuf P (lsuf P w @ [c])) (w @ [c])" using lsuf_suffix suffix_order.trans by blast
  fix s assume s: "s \<in> P" "suffix s (w @ [c])"
  show "suffix s (lsuf P (lsuf P w @ [c]))"
  proof (cases s rule: rev_cases)
    case (snoc s' d)
    then have "d = c" "suffix s' w" using s(2) by auto
    moreover have "s' \<in> P" using assms s(1) snoc by (auto simp: closed_dict_def)
    ultimately have "suffix s (lsuf P w @ [c])" using lsuf_max snoc by auto
    then show ?thesis using s(1) lsuf_max by blast
  qed simp
qed

lemma lsuf_tl: "w \<notin> P \<Longrightarrow> w \<noteq> [] \<Longrightarrow> lsuf P w = lsuf P (tl w)"
  by (cases w) auto

lemma lsuf_length: "length (lsuf P w) \<le> length w"
  using lsuf_suffix suffix_length_le by blast

section \<open>Entries and their flags\<close>

lemma sum_list_if_none:
  "(\<And>e. e \<in> set es \<Longrightarrow> \<not> R e) \<Longrightarrow> sum_list (map (\<lambda>e. if R e then f e else 0) es) = (0 :: 'a :: monoid_add)"
  by (induction es) auto

text \<open>The phrases added to an automaton: normalised text, weight, hard and exception marks.\<close>

datatype entry = Entry (e_path: string) (e_weight: "32 word") (e_hard: bool) (e_exc: bool)

definition flags_for :: "(string \<Rightarrow> bool) \<Rightarrow> entry list \<Rightarrow> ahoNode \<Rightarrow> bool" where
  "flags_for R es nd =
     (an_hard nd = list_ex (\<lambda>e. R (e_path e) \<and> e_hard e) es \<and>
      an_excpt nd = list_ex (\<lambda>e. R (e_path e) \<and> e_exc e) es \<and>
      an_score nd = sum_list (map (\<lambda>e. if R (e_path e) then e_weight e else 0) es) \<and>
      (an_phrase nd \<noteq> []) = list_ex (\<lambda>e. R (e_path e)) es)"

abbreviation flags_init :: "entry list \<Rightarrow> ahoNode \<Rightarrow> string \<Rightarrow> bool" where
  "flags_init es nd s \<equiv> flags_for (\<lambda>p. p = s) es nd"

abbreviation flags_fin :: "entry list \<Rightarrow> ahoNode \<Rightarrow> string \<Rightarrow> bool" where
  "flags_fin es nd s \<equiv> flags_for (\<lambda>p. suffix p s) es nd"

definition entries_in :: "entry list \<Rightarrow> string set \<Rightarrow> bool" where
  "entries_in es P = (\<forall>e\<in>set es. e_path e \<in> P \<and> e_path e \<noteq> [])"

lemma flags_for_next [simp]: "flags_for R es (nd\<lparr>an_next := f\<rparr>) = flags_for R es nd"
  by (simp add: flags_for_def)

lemma flags_for_fail [simp]: "flags_for R es (nd\<lparr>an_fail := f\<rparr>) = flags_for R es nd"
  by (simp add: flags_for_def)

lemma flags_init_root: "entries_in es P \<Longrightarrow> flags_init es nd [] \<longleftrightarrow> flags_fin es nd []"
  by (simp add: flags_for_def)

lemma flags_for_cong:
  assumes "\<And>e. e \<in> set es \<Longrightarrow> R (e_path e) = S (e_path e)"
  shows "flags_for R es nd = flags_for S es nd"
proof -
  have "list_ex (\<lambda>e. R (e_path e) \<and> Q e) es = list_ex (\<lambda>e. S (e_path e) \<and> Q e) es" for Q
    using assms by (auto simp: list_ex_iff)
  moreover have "list_ex (\<lambda>e. R (e_path e)) es = list_ex (\<lambda>e. S (e_path e)) es"
    using assms by (auto simp: list_ex_iff)
  moreover have "map (\<lambda>e. if R (e_path e) then e_weight e else 0) es = map (\<lambda>e. if S (e_path e) then e_weight e else 0) es"
    using assms by auto
  ultimately show ?thesis by (simp only: flags_for_def)
qed

lemma flags_for_disj:
  assumes "flags_for R es a" "flags_for S es b" "\<And>e. e \<in> set es \<Longrightarrow> \<not> (R (e_path e) \<and> S (e_path e))"
  shows "flags_for (\<lambda>p. R p \<or> S p) es (a\<lparr>an_fail := f, an_hard := an_hard a \<or> an_hard b, an_excpt := an_excpt a \<or> an_excpt b,
    an_score := an_score a + an_score b, an_phrase := (if an_phrase a = [] then an_phrase b else an_phrase a)\<rparr>)"
proof -
  have "sum_list (map (\<lambda>e. if R (e_path e) \<or> S (e_path e) then e_weight e else 0) es) =
    sum_list (map (\<lambda>e. if R (e_path e) then e_weight e else 0) es) + sum_list (map (\<lambda>e. if S (e_path e) then e_weight e else 0) es)"
    using assms(3) by (induction es) auto
  moreover have "list_ex (\<lambda>e. (R (e_path e) \<or> S (e_path e)) \<and> Q e) es =
      (list_ex (\<lambda>e. R (e_path e) \<and> Q e) es \<or> list_ex (\<lambda>e. S (e_path e) \<and> Q e) es)" for Q
    by (induction es) auto
  moreover have "list_ex (\<lambda>e. R (e_path e) \<or> S (e_path e)) es = (list_ex (\<lambda>e. R (e_path e)) es \<or> list_ex (\<lambda>e. S (e_path e)) es)"
    by (induction es) auto
  ultimately show ?thesis using assms(1,2) unfolding flags_for_def
    by (simp only: ahoNode.simps) (cases "an_phrase a = []"; simp)
qed

lemma flags_combine:
  assumes "entries_in es P" "s \<noteq> []" "flags_init es cn s" "flags_fin es fn (lsuf P (tl s))"
  shows "flags_fin es (cn\<lparr>an_fail := f, an_hard := an_hard cn \<or> an_hard fn, an_excpt := an_excpt cn \<or> an_excpt fn,
    an_score := an_score cn + an_score fn, an_phrase := (if an_phrase cn = [] then an_phrase fn else an_phrase cn)\<rparr>) s"
proof -
  have sub: "suffix (e_path e) (lsuf P (tl s)) = suffix (e_path e) (tl s)" if "e \<in> set es" for e
    using that assms(1) lsuf_max [of "e_path e" P "tl s"] lsuf_suffix [of P "tl s"] suffix_order.trans
    unfolding entries_in_def by blast
  have split: "suffix p s = (p = s \<or> suffix p (tl s))" for p
    using assms(2) by (cases s) (auto simp: suffix_Cons)
  have "\<not> suffix s (tl s)"
    using assms(2) suffix_length_le by (cases s) fastforce+
  then have dis: "\<not> (e_path e = s \<and> suffix (e_path e) (tl s))" for e by auto
  have "flags_for (\<lambda>p. suffix p (tl s)) es fn"
    using assms(4) flags_for_cong [of es "\<lambda>p. suffix p (lsuf P (tl s))" "\<lambda>p. suffix p (tl s)"] sub by simp
  from flags_for_disj [OF assms(3) this dis] show ?thesis
    by (simp add: split)
qed

section \<open>Building the trie\<close>

text \<open>
  \<open>trie_ok ns ps\<close>: \<open>ps\<close> lists, for each node, the path that leads to it; the
  transitions are exactly the edges of that prefix-closed set of paths.
\<close>

definition trie_ok :: "ahoNode list \<Rightarrow> string list \<Rightarrow> bool" where
  "trie_ok ns ps =
     (length ns = length ps \<and> ps \<noteq> [] \<and> ps ! 0 = [] \<and> distinct ps \<and> closed_dict (set ps) \<and>
      (\<forall>i<length ps. \<forall>c. an_next (ns ! i) c < length ps \<and>
         (if ps ! i @ [c] \<in> set ps then ps ! an_next (ns ! i) c = ps ! i @ [c] else an_next (ns ! i) c = 0)))"

definition built :: "ahoNode list \<Rightarrow> string list \<Rightarrow> entry list \<Rightarrow> bool" where
  "built ns ps es =
     (trie_ok ns ps \<and> entries_in es (set ps) \<and> (\<forall>i<length ps. flags_init es (ns ! i) (ps ! i)))"

lemma built_empty: "built [empty_ahoNode] [[]] []"
  by (simp add: built_def trie_ok_def entries_in_def closed_dict_def flags_for_def empty_ahoNode_def)

lemma trie_ok_root_edge:
  assumes "trie_ok ns ps" "i < length ps"
  shows "an_next (ns ! i) c = 0 \<longleftrightarrow> ps ! i @ [c] \<notin> set ps"
proof -
  have "ps ! 0 = []" using assms(1) by (simp add: trie_ok_def)
  then show ?thesis using assms unfolding trie_ok_def by (metis Nil_is_append_conv not_Cons_self2)
qed

lemma built_extend:
  assumes "built ns ps es" "node < length ps" "an_next (ns ! node) b = 0"
  defines "ns1 \<equiv> ns @ [empty_ahoNode]"
  shows "built (ns1[node := (ns1 ! node)\<lparr>an_next := (an_next (ns1 ! node))(b := length ns)\<rparr>]) (ps @ [ps ! node @ [b]]) es"
proof -
  have t: "trie_ok ns ps" and len: "length ns = length ps" and ne: "ps \<noteq> []" "ps ! 0 = []"
    and d: "distinct ps" and cl: "closed_dict (set ps)"
    and fl: "\<And>i. i < length ps \<Longrightarrow> flags_init es (ns ! i) (ps ! i)" and en: "entries_in es (set ps)"
    using assms(1) by (auto simp: built_def trie_ok_def)
  let ?p = "ps ! node @ [b]"
  define ns2 where "ns2 = ns1[node := (ns1 ! node)\<lparr>an_next := (an_next (ns1 ! node))(b := length ns)\<rparr>]"
  have fresh: "?p \<notin> set ps" using trie_ok_root_edge [OF t assms(2)] assms(3) by simp
  have mem: "ps ! node \<in> set ps" using assms(2) by simp
  have leaf: "?p @ [c] \<notin> set ps" for c using fresh cl unfolding closed_dict_def by blast
  have old: "ns2 ! i = (if i = node then (ns ! i)\<lparr>an_next := (an_next (ns ! i))(b := length ns)\<rparr> else ns ! i)" if "i < length ps" for i
    using that len assms(2) by (auto simp: ns2_def ns1_def nth_append nth_list_update)
  have new: "ns2 ! length ps = empty_ahoNode" using len assms(2) by (simp add: ns2_def ns1_def nth_append)
  have edge: "an_next (ns ! i) c < length ps \<and>
      (if ps ! i @ [c] \<in> set ps then ps ! an_next (ns ! i) c = ps ! i @ [c] else an_next (ns ! i) c = 0)" if "i < length ps" for i c
    using t that by (simp add: trie_ok_def)
  have inj: "ps ! i @ [c] = ?p \<longleftrightarrow> i = node \<and> c = b" if "i < length ps" for i c
    using that assms(2) d by (auto simp: nth_eq_iff_index_eq)
  have "trie_ok ns2 (ps @ [?p])"
    unfolding trie_ok_def
  proof (intro conjI allI impI)
    show "length ns2 = length (ps @ [?p])" using len by (simp add: ns2_def ns1_def)
    show "distinct (ps @ [?p])" using d fresh by simp
    show "closed_dict (set (ps @ [?p]))" using cl mem by (auto simp: closed_dict_def)
    fix i c assume "i < length (ps @ [?p])"
    then consider "i < length ps" | "i = length ps" by fastforce
    then show "an_next (ns2 ! i) c < length (ps @ [?p])"
      using edge len by cases (auto simp: old new less_Suc_eq empty_ahoNode_def)
  next
    fix i c assume "i < length (ps @ [?p])"
    then consider "i < length ps" | "i = length ps" by fastforce
    then show "if (ps @ [?p]) ! i @ [c] \<in> set (ps @ [?p])
        then (ps @ [?p]) ! an_next (ns2 ! i) c = (ps @ [?p]) ! i @ [c] else an_next (ns2 ! i) c = 0"
    proof cases
      case 1
      then show ?thesis using edge [of i c] inj [of i c] fresh len
        by (auto simp: old nth_append)
    next
      case 2
      then show ?thesis using leaf by (simp add: new empty_ahoNode_def)
    qed
  qed (use ne in \<open>auto simp: nth_append\<close>)
  moreover have "flags_init es (ns2 ! i) ((ps @ [?p]) ! i)" if "i < length (ps @ [?p])" for i
  proof (cases "i < length ps")
    case True
    then show ?thesis using fl [OF True] by (auto simp: old nth_append)
  next
    case False
    then have i: "i = length ps" using that by simp
    have "e_path e \<noteq> ?p" if "e \<in> set es" for e using that en fresh by (auto simp: entries_in_def)
    then have "flags_init es empty_ahoNode ?p"
      by (auto simp: flags_for_def empty_ahoNode_def list_ex_iff sum_list_if_none)
    then show ?thesis by (simp add: i new nth_append)
  qed
  ultimately show ?thesis using en unfolding ns2_def by (auto simp: built_def entries_in_def)
qed

lemma insert_bytes_built:
  assumes "built ns ps es" "node < length ps" "insert_bytes_pure ns node w = (ns', node')"
  shows "\<exists>ps'. built ns' (ps @ ps') es \<and> node' < length (ps @ ps') \<and> (ps @ ps') ! node' = ps ! node @ w"
  using assms
proof (induction w arbitrary: ns ps node)
  case Nil
  then show ?case by (intro exI [of _ "[]"]) auto
next
  case (Cons b bs)
  let ?nx = "an_next (ns ! node) b"
  have t: "trie_ok ns ps" and len: "length ns = length ps" using Cons.prems(1) by (auto simp: built_def trie_ok_def)
  show ?case
  proof (cases "?nx = 0")
    case True
    note ext = built_extend [OF Cons.prems(1,2) True]
    have "\<exists>ps'. built ns' ((ps @ [ps ! node @ [b]]) @ ps') es \<and> node' < length ((ps @ [ps ! node @ [b]]) @ ps') \<and>
        ((ps @ [ps ! node @ [b]]) @ ps') ! node' = (ps @ [ps ! node @ [b]]) ! length ns @ bs"
      by (rule Cons.IH [OF ext]) (use Cons.prems(3) True len in \<open>auto simp: Let_def\<close>)
    then show ?thesis using len by (auto simp: nth_append)
  next
    case False
    then have "ps ! node @ [b] \<in> set ps" using trie_ok_root_edge [OF t Cons.prems(2)] by simp
    then have nx: "?nx < length ps" "ps ! ?nx = ps ! node @ [b]" using t Cons.prems(2) by (auto simp: trie_ok_def)
    have "insert_bytes_pure ns ?nx bs = (ns', node')" using Cons.prems(3) False by (simp add: Let_def)
    from Cons.IH [OF Cons.prems(1) nx(1) this] show ?thesis by (simp add: nx(2))
  qed
qed

definition entry_of :: "string \<Rightarrow> int \<Rightarrow> bool \<Rightarrow> bool \<Rightarrow> entry list" where
  "entry_of phrase score hard excptn =
     (if normalizePhrase phrase = [] then [] else [Entry (normalizePhrase phrase) (word_of_int score) hard excptn])"

lemma trie_ok_same_next:
  assumes "trie_ok ns ps" "length ns' = length ns" "\<And>i. i < length ns \<Longrightarrow> an_next (ns' ! i) = an_next (ns ! i)"
  shows "trie_ok ns' ps"
  using assms by (auto simp: trie_ok_def)

lemma addPhrase_built:
  assumes "built ns ps es" "hard \<or> score > 0 \<or> excptn"
  shows "\<exists>ps'. built (addPhrase_pure ns phrase score hard excptn) ps' (es @ entry_of phrase score hard excptn)"
proof (cases "normalizePhrase phrase = []")
  case True
  then show ?thesis using assms(1) by (auto simp: addPhrase_pure_def entry_of_def)
next
  case False
  let ?w = "normalizePhrase phrase"
  have ph: "phrase \<noteq> []" using False by (auto simp: normalizePhrase_def trim_space_def trim_right_if_def)
  obtain ns' node where ib: "insert_bytes_pure ns 0 ?w = (ns', node)" by (cases "insert_bytes_pure ns 0 ?w")
  have "0 < length ps" "ps ! 0 = []" using assms(1) by (auto simp: built_def trie_ok_def)
  with insert_bytes_built [OF assms(1) this(1) ib] obtain ps' where b: "built ns' ps' es"
    and node: "node < length ps'" "ps' ! node = ?w" by auto
  have t: "trie_ok ns' ps'" and len: "length ns' = length ps'" and d: "distinct ps'"
    and fl: "\<And>i. i < length ps' \<Longrightarrow> flags_init es (ns' ! i) (ps' ! i)" and en: "entries_in es (set ps')"
    using b by (auto simp: built_def trie_ok_def)
  let ?nd = "ns' ! node" and ?e = "Entry ?w (word_of_int score) hard excptn"
  let ?new = "?nd\<lparr>an_hard := an_hard ?nd \<or> hard, an_excpt := an_excpt ?nd \<or> excptn,
      an_score := an_score ?nd + word_of_int score, an_phrase := (if hard \<or> score > 0 \<or> excptn then phrase else an_phrase ?nd)\<rparr>"
  have eq: "addPhrase_pure ns phrase score hard excptn = ns'[node := ?new]"
    using False ib by (simp add: addPhrase_pure_def Let_def)
  have t': "trie_ok (ns'[node := ?new]) ps'"
    by (rule trie_ok_same_next [OF t]) (use node len in \<open>auto simp: nth_list_update\<close>)
  have "flags_init (es @ [?e]) (ns'[node := ?new] ! i) (ps' ! i)" if i: "i < length ps'" for i
  proof (cases "i = node")
    case True
    then show ?thesis using fl [OF i] assms(2) ph node len by (auto simp: flags_for_def)
  next
    case False
    then have "?w \<noteq> ps' ! i" using d i node by (metis nth_eq_iff_index_eq)
    then show ?thesis using fl [OF i] False by (simp add: flags_for_def)
  qed
  moreover have "entries_in (es @ [?e]) (set ps')"
    using en node False nth_mem [OF node(1)] by (simp add: entries_in_def)
  ultimately show ?thesis
    unfolding eq using t' False by (auto simp: built_def entry_of_def)
qed

lemma foldl_addPhrase_built:
  assumes "built ns ps es" "hard \<or> excptn"
  shows "\<exists>ps'. built (foldl (\<lambda>ns p. addPhrase_pure ns p 0 hard excptn) ns phrases) ps'
    (es @ concat (map (\<lambda>p. entry_of p 0 hard excptn) phrases))"
  using assms(1)
proof (induction phrases arbitrary: ns ps es)
  case (Cons p phrases)
  obtain ps1 where "built (addPhrase_pure ns p 0 hard excptn) ps1 (es @ entry_of p 0 hard excptn)"
    using addPhrase_built [OF Cons.prems, of hard 0 excptn p] assms(2) by auto
  from Cons.IH [OF this] show ?case by simp
qed auto

lemma add_weighted_built:
  assumes "built ns ps es" "add_weighted_pure threshold ns phrases = Inr ns'"
  shows "\<exists>ps'. built ns' ps' (es @ concat (map (\<lambda>p. entry_of (wp_Phrase p) (wp_Weight p) False False) phrases))"
  using assms
proof (induction phrases arbitrary: ns ps es)
  case (Cons p phrases)
  then have pos: "wp_Weight p > 0" "add_weighted_pure threshold (addPhrase_pure ns (wp_Phrase p) (wp_Weight p) False False) phrases = Inr ns'"
    by (auto split: if_splits)
  obtain ps1 where "built (addPhrase_pure ns (wp_Phrase p) (wp_Weight p) False False) ps1
      (es @ entry_of (wp_Phrase p) (wp_Weight p) False False)"
    using addPhrase_built [OF Cons.prems(1), of False "wp_Weight p" False "wp_Phrase p"] pos(1) by auto
  from Cons.IH [OF this pos(2)] show ?case by simp
qed auto

section \<open>Failure links and the completed table\<close>

definition edge_fin :: "string list \<Rightarrow> ahoNode list \<Rightarrow> nat \<Rightarrow> char \<Rightarrow> bool" where
  "edge_fin ps ns i c =
     (an_next (ns ! i) c < length ps \<and> ps ! an_next (ns ! i) c = lsuf (set ps) (ps ! i @ [c]))"

definition node_fin :: "string list \<Rightarrow> entry list \<Rightarrow> ahoNode list \<Rightarrow> nat \<Rightarrow> bool" where
  "node_fin ps es ns i =
     (flags_fin es (ns ! i) (ps ! i) \<and>
      (i \<noteq> 0 \<longrightarrow> an_fail (ns ! i) < length ps \<and> ps ! an_fail (ns ! i) = lsuf (set ps) (tl (ps ! i))))"

text \<open>
  The state while node \<open>i\<close> is processed: \<open>D\<close> are the nodes already done, \<open>B\<close>
  the bytes of \<open>i\<close> already seen, \<open>q0\<close> the queue when the node was taken from it.
\<close>

definition inner_inv :: "ahoNode list \<Rightarrow> string list \<Rightarrow> entry list \<Rightarrow> nat set \<Rightarrow> nat \<Rightarrow> nat list \<Rightarrow> char set \<Rightarrow>
    ahoNode list \<times> nat list \<Rightarrow> bool" where
  "inner_inv ns0 ps es D i q0 B st =
     (case st of (ns, q) \<Rightarrow>
       length ns = length ps \<and>
       (\<forall>j\<in>D. \<forall>c. edge_fin ps ns j c) \<and>
       (\<forall>j<length ps. j \<notin> D \<and> j \<noteq> i \<longrightarrow> an_next (ns ! j) = an_next (ns0 ! j)) \<and>
       (\<forall>c. if c \<in> B then edge_fin ps ns i c else an_next (ns ! i) c = an_next (ns0 ! i) c) \<and>
       (\<forall>j\<in>D \<union> {i} \<union> set q. node_fin ps es ns j) \<and>
       (\<forall>j<length ps. j \<notin> D \<union> {i} \<union> set q \<longrightarrow> flags_init es (ns ! j) (ps ! j)) \<and>
       (\<exists>new. q = q0 @ new \<and> distinct new \<and> set new = {j. j < length ps \<and> (\<exists>c\<in>B. ps ! j = ps ! i @ [c])}))"

text \<open>What is known about node \<open>i\<close> when it is taken from the queue.\<close>

definition ready :: "ahoNode list \<Rightarrow> string list \<Rightarrow> entry list \<Rightarrow> nat set \<Rightarrow> nat \<Rightarrow> nat list \<Rightarrow> bool" where
  "ready ns0 ps es D i q0 =
     (trie_ok ns0 ps \<and> entries_in es (set ps) \<and> D \<subseteq> {..<length ps} \<and> 0 \<in> D \<and> i < length ps \<and> i \<notin> D \<and>
      set q0 \<subseteq> {..<length ps} \<and>
      (\<forall>j<length ps. length (ps ! j) < length (ps ! i) \<longrightarrow> j \<in> D) \<and>
      (\<forall>j<length ps. length (ps ! j) \<le> length (ps ! i) \<longrightarrow> j \<in> D \<union> {i} \<union> set q0) \<and>
      (\<forall>j\<in>D \<union> {i} \<union> set q0. \<forall>c. ps ! j \<noteq> ps ! i @ [c]))"

lemma ready_path: 
  assumes "ready ns0 ps es D i q0"
  shows "ps ! i \<noteq> []"
proof
  assume "ps ! i = []"
  moreover have "ps ! 0 = []" "distinct ps" "0 < length ps" "i < length ps" "0 \<in> D" "i \<notin> D"
    using assms by (auto simp: ready_def trie_ok_def)
  ultimately show False by (metis nth_eq_iff_index_eq)
qed

lemma edge_fin_update:
  "k < length ns \<Longrightarrow> an_next nd = an_next (ns ! k) \<Longrightarrow> edge_fin ps (ns[k := nd]) j c = edge_fin ps ns j c"
  by (cases "j = k") (auto simp: edge_fin_def)

lemma node_fin_update_next:
  "node_fin ps es (ns[k := (ns ! k)\<lparr>an_next := f\<rparr>]) j = node_fin ps es ns j"
proof (cases "j = k \<and> k < length ns")
  case True
  then show ?thesis by (simp add: node_fin_def)
next
  case False
  then have "ns[k := (ns ! k)\<lparr>an_next := f\<rparr>] ! j = ns ! j"
    by (cases "k < length ns") (auto simp: list_update_beyond)
  then show ?thesis by (simp add: node_fin_def)
qed

lemma bfs_byte_inv:
  assumes r: "ready ns0 ps es D i q0" and inv: "inner_inv ns0 ps es D i q0 B (ns, q)" and b: "b \<notin> B"
  shows "inner_inv ns0 ps es D i q0 (insert b B) (bfs_byte_pure i (ns, q) b)"
proof -
  let ?P = "set ps" and ?s = "ps ! i"
  have t: "trie_ok ns0 ps" and i: "i < length ps" "i \<notin> D" and D: "D \<subseteq> {..<length ps}"
    and en: "entries_in es ?P" using r by (auto simp: ready_def)
  have cl: "closed_dict ?P" and dist: "distinct ps" and root: "ps ! 0 = []" using t by (auto simp: trie_ok_def)
  have s: "?s \<noteq> []" using r by (rule ready_path)
  then have i0: "i \<noteq> 0" using root by metis
  have len: "length ns = length ps" and Dfin: "\<And>j c. j \<in> D \<Longrightarrow> edge_fin ps ns j c"
    and oth: "\<And>j. j < length ps \<Longrightarrow> j \<notin> D \<Longrightarrow> j \<noteq> i \<Longrightarrow> an_next (ns ! j) = an_next (ns0 ! j)"
    and ifin: "\<And>c. c \<in> B \<Longrightarrow> edge_fin ps ns i c" and iold: "\<And>c. c \<notin> B \<Longrightarrow> an_next (ns ! i) c = an_next (ns0 ! i) c"
    and nfin: "\<And>j. j \<in> D \<union> {i} \<union> set q \<Longrightarrow> node_fin ps es ns j"
    and init: "\<And>j. j < length ps \<Longrightarrow> j \<notin> D \<union> {i} \<union> set q \<Longrightarrow> flags_init es (ns ! j) (ps ! j)"
    using inv unfolding inner_inv_def by (auto split: if_splits)
  obtain new where new: "q = q0 @ new" "distinct new" "set new = {j. j < length ps \<and> (\<exists>c\<in>B. ps ! j = ?s @ [c])}"
    using inv unfolding inner_inv_def by auto
  define child where "child = an_next (ns ! i) b"
  define fail where "fail = an_fail (ns ! i)"
  define target where "target = an_next (ns ! fail) b"
  have f: "fail < length ps" "ps ! fail = lsuf ?P (tl ?s)"
    using nfin [of i] i0 by (auto simp: node_fin_def fail_def)
  have "length (ps ! fail) < length ?s"
    using f(2) lsuf_length [of ?P "tl ?s"] s by (cases ?s) auto
  then have "fail \<in> D" using r f(1) by (auto simp: ready_def)
  then have tg: "target < length ps" "ps ! target = lsuf ?P (tl ?s @ [b])"
    using Dfin [of fail b] f(2) lsuf_step [OF cl] by (auto simp: edge_fin_def target_def)
  have child0: "child = an_next (ns0 ! i) b" using iold [OF b] by (simp add: child_def)
  show ?thesis
  proof (cases "?s @ [b] \<in> ?P")
    case False
    then have c0: "child = 0" using trie_ok_root_edge [OF t i(1)] child0 by simp
    let ?ns = "ns[i := (ns ! i)\<lparr>an_next := (an_next (ns ! i))(b := target)\<rparr>]"
    have st: "bfs_byte_pure i (ns, q) b = (?ns, q)"
      using c0 by (simp add: bfs_byte_pure_def Let_def child_def fail_def target_def)
    have "lsuf ?P (?s @ [b]) = lsuf ?P (tl ?s @ [b])" using lsuf_tl [OF False] s by simp
    then have new_edge: "edge_fin ps ?ns i b" using tg i len by (simp add: edge_fin_def)
    have "edge_fin ps ?ns i c" if "c \<in> B" for c
      using ifin [OF that] that b i len by (auto simp: edge_fin_def)
    moreover have "an_next (?ns ! i) c = an_next (ns0 ! i) c" if "c \<notin> insert b B" for c
      using iold [of c] that i len by auto
    moreover have "edge_fin ps ?ns j c" if "j \<in> D" for j c
    proof -
      have "j \<noteq> i" using that i by auto
      then show ?thesis using Dfin [OF that] by (simp add: edge_fin_def)
    qed
    moreover have "an_next (?ns ! j) = an_next (ns0 ! j)" if "j < length ps" "j \<notin> D" "j \<noteq> i" for j
      using oth [OF that] that by simp
    moreover have "flags_init es (?ns ! j) (ps ! j)" if "j < length ps" "j \<notin> D \<union> {i} \<union> set q" for j
      using init [OF that] that by simp
    moreover have "set new = {j. j < length ps \<and> (\<exists>c\<in>insert b B. ps ! j = ?s @ [c])}"
    proof -
      have "ps ! j \<noteq> ?s @ [b]" if "j < length ps" for j using nth_mem [OF that] False by auto
      then show ?thesis using new(3) by auto
    qed
    ultimately show ?thesis
      unfolding st inner_inv_def using new new_edge len nfin by (auto simp: node_fin_update_next)
  next
    case True
    have ch: "child < length ps" "ps ! child = ?s @ [b]"
      using t i True child0 by (auto simp: trie_ok_def)
    have cn0: "child \<noteq> 0" using ch(2) root by (metis Nil_is_append_conv not_Cons_self2)
    have child_new: "child \<notin> D \<union> {i} \<union> set q0" using r ch(2) by (auto simp: ready_def)
    have "child \<notin> set new" using new(3) ch(2) b by auto
    then have und: "child \<notin> D \<union> {i} \<union> set q" using child_new new(1) by auto
    have lt: "length (ps ! target) \<le> length ?s"
      using tg(2) lsuf_length [of ?P "tl ?s @ [b]"] s by (cases ?s) auto
    then have tdisc: "target \<in> D \<union> {i} \<union> set q0" using r tg(1) by (auto simp: ready_def)
    have tne: "target \<noteq> child" using lt ch(2) by auto
    define cn where "cn = ns ! child"
    define fn where "fn = ns ! target"
    define nd where "nd = cn\<lparr>an_fail := target, an_hard := an_hard cn \<or> an_hard fn, an_excpt := an_excpt cn \<or> an_excpt fn,
        an_score := an_score cn + an_score fn, an_phrase := (if an_phrase cn = [] then an_phrase fn else an_phrase cn)\<rparr>"
    let ?ns = "ns[child := nd]"
    have st: "bfs_byte_pure i (ns, q) b = (?ns, q @ [child])"
      using cn0 tne by (simp add: bfs_byte_pure_def Let_def nd_def cn_def fn_def child_def [symmetric] fail_def [symmetric] target_def [symmetric])
    have same_next: "an_next nd = an_next (ns ! child)" by (simp add: nd_def cn_def)
    have kl: "child < length ns" using ch(1) len by simp
    have ef: "edge_fin ps ?ns j c = edge_fin ps ns j c" for j c
      by (rule edge_fin_update [OF kl same_next])
    have "flags_init es cn (?s @ [b])" using init [OF ch(1) und] ch(2) by (simp add: cn_def)
    moreover have "flags_fin es fn (lsuf ?P (tl (?s @ [b])))"
      using nfin [of target] tdisc new(1) tg(2) s by (auto simp: node_fin_def fn_def)
    ultimately have "flags_fin es nd (?s @ [b])"
      unfolding nd_def by (intro flags_combine [OF en]) auto
    then have cfin: "node_fin ps es ?ns child" using kl ch tg s by (simp add: node_fin_def nd_def)
    have nf: "node_fin ps es ?ns j" if "j \<in> D \<union> {i} \<union> set (q @ [child])" for j
    proof (cases "j = child")
      case False
      then have "node_fin ps es ns j" using nfin that by auto
      then show ?thesis using False by (simp add: node_fin_def)
    qed (use cfin in simp)
    have eb: "edge_fin ps ?ns i b"
      unfolding ef using ch True by (simp add: edge_fin_def child_def [symmetric] lsuf_id)
    have nx: "an_next (?ns ! j) = an_next (ns ! j)" for j
      using same_next kl by (cases "j = child") auto
    have setnew: "set (new @ [child]) = {j. j < length ps \<and> (\<exists>c\<in>insert b B. ps ! j = ?s @ [c])}"
    proof -
      have "ps ! j = ?s @ [b] \<longleftrightarrow> j = child" if "j < length ps" for j
        using nth_eq_iff_index_eq [OF dist that ch(1)] ch(2) by simp
      then show ?thesis using new(3) ch by auto
    qed
    show ?thesis
      unfolding st inner_inv_def prod.case
    proof (intro conjI)
      show "length ?ns = length ps" using len by simp
      show "\<forall>j\<in>D. \<forall>c. edge_fin ps ?ns j c" using Dfin by (simp add: ef)
      show "\<forall>j<length ps. j \<notin> D \<and> j \<noteq> i \<longrightarrow> an_next (?ns ! j) = an_next (ns0 ! j)" using oth by (simp add: nx)
      show "\<forall>c. if c \<in> insert b B then edge_fin ps ?ns i c else an_next (?ns ! i) c = an_next (ns0 ! i) c"
        using eb ifin iold by (auto simp: ef nx)
      show "\<forall>j\<in>D \<union> {i} \<union> set (q @ [child]). node_fin ps es ?ns j" using nf by blast
      show "\<forall>j<length ps. j \<notin> D \<union> {i} \<union> set (q @ [child]) \<longrightarrow> flags_init es (?ns ! j) (ps ! j)"
        using init by auto
      show "\<exists>na. q @ [child] = q0 @ na \<and> distinct na \<and> set na = {j. j < length ps \<and> (\<exists>c\<in>insert b B. ps ! j = ?s @ [c])}"
        using setnew new(1,2) \<open>child \<notin> set new\<close> by (intro exI [of _ "new @ [child]"]) auto
    qed
  qed
qed

lemma foldl_bfs_byte_inv:
  assumes "ready ns0 ps es D i q0" "inner_inv ns0 ps es D i q0 B st" "distinct bs" "set bs \<inter> B = {}"
  shows "inner_inv ns0 ps es D i q0 (B \<union> set bs) (foldl (bfs_byte_pure i) st bs)"
  using assms(2-)
proof (induction bs arbitrary: B st)
  case (Cons b bs)
  obtain ns q where st: "st = (ns, q)" by (cases st)
  have "inner_inv ns0 ps es D i q0 (insert b B) (bfs_byte_pure i st b)"
    using bfs_byte_inv [OF assms(1), of B ns q b] Cons.prems st by auto
  from Cons.IH [OF this] show ?case using Cons.prems by auto
qed simp

lemma set_all_bytes: "set all_bytes = UNIV"
  by (simp add: all_bytes_def UNIV_char_of_nat)

lemma distinct_all_bytes: "distinct all_bytes"
  by (simp add: all_bytes_def distinct_map)

text \<open>The state between two rounds of the outer loop.\<close>

definition outer_inv :: "ahoNode list \<Rightarrow> string list \<Rightarrow> entry list \<Rightarrow> nat set \<Rightarrow> ahoNode list \<Rightarrow> nat list \<Rightarrow> bool" where
  "outer_inv ns0 ps es D ns q =
     (length ns = length ps \<and> D \<subseteq> {..<length ps} \<and> 0 \<in> D \<and> distinct q \<and> set q \<subseteq> {..<length ps} \<and> set q \<inter> D = {} \<and>
      (\<forall>j\<in>D. \<forall>c. edge_fin ps ns j c) \<and>
      (\<forall>j<length ps. j \<notin> D \<longrightarrow> an_next (ns ! j) = an_next (ns0 ! j)) \<and>
      (\<forall>j\<in>D \<union> set q. node_fin ps es ns j) \<and>
      (\<forall>j<length ps. j \<notin> D \<union> set q \<longrightarrow> flags_init es (ns ! j) (ps ! j)) \<and>
      (\<forall>j<length ps. \<forall>k\<in>D. (\<exists>c. ps ! j = ps ! k @ [c]) \<longrightarrow> j \<in> D \<union> set q) \<and>
      (\<forall>j\<in>D \<union> set q. j \<noteq> 0 \<longrightarrow> (\<exists>k\<in>D. \<exists>c. ps ! j = ps ! k @ [c])) \<and>
      sorted (map (\<lambda>j. length (ps ! j)) q) \<and>
      (\<forall>j\<in>set q. length (ps ! j) \<le> Suc (length (ps ! hd q))) \<and>
      (q \<noteq> [] \<longrightarrow> (\<forall>j<length ps. length (ps ! j) < length (ps ! hd q) \<longrightarrow> j \<in> D)))"

lemma outer_invD:
  assumes "outer_inv ns0 ps es D ns q"
  shows "length ns = length ps" "D \<subseteq> {..<length ps}" "0 \<in> D" "distinct q" "set q \<subseteq> {..<length ps}" "set q \<inter> D = {}"
    "\<forall>j\<in>D. \<forall>c. edge_fin ps ns j c" "\<forall>j\<in>D \<union> set q. node_fin ps es ns j"
    "\<forall>j<length ps. \<forall>k\<in>D. (\<exists>c. ps ! j = ps ! k @ [c]) \<longrightarrow> j \<in> D \<union> set q"
    "\<forall>j\<in>D \<union> set q. j \<noteq> 0 \<longrightarrow> (\<exists>k\<in>D. \<exists>c. ps ! j = ps ! k @ [c])"
  using assms unfolding outer_inv_def by - (elim conjE, assumption)+

lemma sorted_map_same_length: "(\<And>j. j \<in> set xs \<Longrightarrow> f j = (m :: nat)) \<Longrightarrow> sorted (map f xs)"
  by (induction xs) auto

lemma trie_ok_path0:
  assumes "trie_ok ns ps" "j < length ps" "ps ! j = []"
  shows "j = 0"
  using assms unfolding trie_ok_def by (metis length_greater_0_conv nth_eq_iff_index_eq)

lemma trie_ok_parent:
  assumes "trie_ok ns ps" "j < length ps" "j \<noteq> 0"
  shows "\<exists>k c. k < length ps \<and> ps ! j = ps ! k @ [c]"
proof -
  have "ps ! j \<noteq> []" using trie_ok_path0 [OF assms(1,2)] assms(3) by blast
  then obtain s c where s: "ps ! j = s @ [c]" by (metis rev_exhaust)
  then have "s \<in> set ps" using assms(1) nth_mem [OF assms(2)] by (auto simp: trie_ok_def closed_dict_def)
  then show ?thesis using s by (metis in_set_conv_nth)
qed

lemma outer_ready:
  assumes inv: "outer_inv ns0 ps es D ns (i # q)" and t: "trie_ok ns0 ps" "entries_in es (set ps)"
  shows "ready ns0 ps es D i q" "inner_inv ns0 ps es D i q {} (ns, q)"
proof -
  have i: "i < length ps" "i \<notin> D" "0 \<in> D" and D: "D \<subseteq> {..<length ps}" and q: "set q \<subseteq> {..<length ps}"
    and low: "\<And>j. j < length ps \<Longrightarrow> length (ps ! j) < length (ps ! i) \<Longrightarrow> j \<in> D"
    using inv unfolding outer_inv_def by auto
  have "\<forall>j<length ps. \<forall>k\<in>D. (\<exists>c. ps ! j = ps ! k @ [c]) \<longrightarrow> j \<in> D \<union> set (i # q)"
    using inv unfolding outer_inv_def by (elim conjE)
  then have ch: "\<And>j k c. j < length ps \<Longrightarrow> k \<in> D \<Longrightarrow> ps ! j = ps ! k @ [c] \<Longrightarrow> j \<in> D \<union> {i} \<union> set q"
    by auto
  have "\<forall>j\<in>D \<union> set (i # q). j \<noteq> 0 \<longrightarrow> (\<exists>k\<in>D. \<exists>c. ps ! j = ps ! k @ [c])"
    using inv unfolding outer_inv_def by (elim conjE)
  then have par: "\<And>j. j \<in> D \<union> {i} \<union> set q \<Longrightarrow> j \<noteq> 0 \<Longrightarrow> \<exists>k\<in>D. \<exists>c. ps ! j = ps ! k @ [c]"
    by auto
  have dist: "distinct ps" and root: "ps ! 0 = []" using t(1) by (auto simp: trie_ok_def)
  have "j \<in> D \<union> {i} \<union> set q" if j: "j < length ps" "length (ps ! j) \<le> length (ps ! i)" for j
  proof (cases "j = 0")
    case False
    then obtain k c where k: "k < length ps" "ps ! j = ps ! k @ [c]" using trie_ok_parent [OF t(1) j(1)] by blast
    then have "k \<in> D" using low j(2) by simp
    then show ?thesis using ch j(1) k(2) by blast
  qed (use i in simp)
  moreover have "ps ! j \<noteq> ps ! i @ [c]" if j: "j \<in> D \<union> {i} \<union> set q" for j c
  proof
    assume e: "ps ! j = ps ! i @ [c]"
    then have "j \<noteq> 0" using root by (metis Nil_is_append_conv not_Cons_self2)
    then obtain k d where k: "k \<in> D" "ps ! j = ps ! k @ [d]" using par j by blast
    then have "ps ! k = ps ! i" "k < length ps" using e D by auto
    then have "k = i" using nth_eq_iff_index_eq [OF dist _ i(1)] by blast
    then show False using k i by simp
  qed
  ultimately show "ready ns0 ps es D i q"
    unfolding ready_def using t i D q low by auto
  show "inner_inv ns0 ps es D i q {} (ns, q)"
    using inv unfolding inner_inv_def outer_inv_def by auto
qed

lemma outer_step:
  assumes inv: "outer_inv ns0 ps es D ns (i # q)" and t: "trie_ok ns0 ps" "entries_in es (set ps)"
    and inner: "inner_inv ns0 ps es D i q UNIV (ns', q')"
  shows "outer_inv ns0 ps es (insert i D) ns' q'"
proof -
  note r = outer_ready(1) [OF inv t]
  obtain new where new: "q' = q @ new" "distinct new" "set new = {j. j < length ps \<and> (\<exists>c. ps ! j = ps ! i @ [c])}"
    using inner unfolding inner_inv_def by auto
  have nlen: "length (ps ! j) = Suc (length (ps ! i))" if "j \<in> set new" for j
    using that unfolding new(3) by auto
  have srt: "sorted (map (\<lambda>j. length (ps ! j)) (i # q))"
    using inv unfolding outer_inv_def by (elim conjE)
  have "\<forall>j\<in>set (i # q). length (ps ! j) \<le> Suc (length (ps ! hd (i # q)))"
    using inv unfolding outer_inv_def by (elim conjE)
  then have bnd: "\<And>j. j \<in> set q \<Longrightarrow> length (ps ! j) \<le> Suc (length (ps ! i))" by simp
  have fresh: "set new \<inter> (D \<union> {i} \<union> set q) = {}" using r new(3) by (auto simp: ready_def)
  have sorted': "sorted (map (\<lambda>j. length (ps ! j)) q')"
  proof -
    have "sorted (map (\<lambda>j. length (ps ! j)) new)" using nlen by (rule sorted_map_same_length)
    moreover have "sorted (map (\<lambda>j. length (ps ! j)) q)" using srt by simp
    ultimately show ?thesis using bnd nlen unfolding new(1) by (simp add: sorted_append)
  qed
  have hd_ge: "length (ps ! i) \<le> length (ps ! hd q')" if "q' \<noteq> []"
  proof (cases q)
    case Nil
    then have "hd q' \<in> set new" using that new(1) by simp
    then show ?thesis using nlen [of "hd q'"] by simp
  next
    case (Cons a q2)
    then show ?thesis using srt new(1) by simp
  qed
  have all_le: "length (ps ! j) \<le> Suc (length (ps ! hd q'))" if "j \<in> set q'" for j
  proof -
    have "length (ps ! j) \<le> Suc (length (ps ! i))" using that bnd [of j] nlen [of j] new(1) by auto
    moreover have "q' \<noteq> []" using that by auto
    ultimately show ?thesis using hd_ge by simp
  qed
  have low: "j \<in> insert i D" if "q' \<noteq> []" "j < length ps" "length (ps ! j) < length (ps ! hd q')" for j
  proof -
    have "hd q' \<in> set q'" using that(1) by simp
    then have "length (ps ! hd q') \<le> Suc (length (ps ! i))"
      using bnd [of "hd q'"] nlen [of "hd q'"] new(1) by auto
    then have "j \<in> D \<union> {i} \<union> set q" using r that by (auto simp: ready_def)
    moreover have "j \<notin> set q"
    proof
      assume j: "j \<in> set q"
      then have "hd q' = hd q" using new(1) by (cases q) auto
      moreover have "length (ps ! hd q) \<le> length (ps ! j)" using srt j by (cases q) auto
      ultimately show False using that(3) by simp
    qed
    ultimately show ?thesis by auto
  qed
  have kids: "j \<in> insert i D \<union> set q'" if "j < length ps" "k \<in> insert i D" "ps ! j = ps ! k @ [c]" for j k c
  proof (cases "k = i")
    case True
    then have "j \<in> set new" unfolding new(3) using that by blast
    then show ?thesis unfolding new(1) by simp
  next
    case False
    then have "j \<in> D \<union> set (i # q)" using that outer_invD(9) [OF inv] by blast
    then show ?thesis unfolding new(1) by auto
  qed
  have parents: "\<exists>k\<in>insert i D. \<exists>c. ps ! j = ps ! k @ [c]" if "j \<in> insert i D \<union> set q'" "j \<noteq> 0" for j
  proof (cases "j \<in> set new")
    case True
    then show ?thesis unfolding new(3) by blast
  next
    case False
    then have "j \<in> D \<union> set (i # q)" using that(1) new(1) by auto
    then show ?thesis using outer_invD(10) [OF inv] that(2) by blast
  qed
  have edges: "edge_fin ps ns' j c" if "j \<in> insert i D" for j c
    using that inner unfolding inner_inv_def by auto
  show ?thesis
    unfolding outer_inv_def
  proof (intro conjI)
    show "length ns' = length ps" "\<forall>j<length ps. j \<notin> insert i D \<longrightarrow> an_next (ns' ! j) = an_next (ns0 ! j)"
      "\<forall>j\<in>insert i D \<union> set q'. node_fin ps es ns' j"
      "\<forall>j<length ps. j \<notin> insert i D \<union> set q' \<longrightarrow> flags_init es (ns' ! j) (ps ! j)"
      using inner unfolding inner_inv_def by auto
    have "set new \<subseteq> {..<length ps}" unfolding new(3) by auto
    then show "insert i D \<subseteq> {..<length ps}" "0 \<in> insert i D" "set q' \<subseteq> {..<length ps}"
      using outer_invD(2,3,5) [OF inv] unfolding new(1) by auto
    show "distinct q'" "set q' \<inter> insert i D = {}"
      using outer_invD(4,6) [OF inv] fresh new(2) unfolding new(1) by auto
  qed (use sorted' all_le low kids parents edges in blast)+
qed

lemma bfs_complete:
  assumes "outer_inv ns0 ps es D ns q" "trie_ok ns0 ps" "entries_in es (set ps)" "length ps \<le> fuel + card D"
  shows "\<exists>ns' D'. bfs_pure fuel ns q = Some ns' \<and> outer_inv ns0 ps es D' ns' []"
  using assms
proof (induction fuel arbitrary: D ns q)
  case 0
  note d = outer_invD [OF 0(1)]
  have "card D \<le> length ps" using card_mono [OF _ d(2)] by simp
  then have "D = {..<length ps}" using 0(4) d(2) by (intro card_subset_eq) auto
  then have "q = []" using d(5,6) by (cases q) auto
  then show ?case using 0(1) by auto
next
  case (Suc fuel)
  show ?case
  proof (cases q)
    case Nil
    then show ?thesis using Suc.prems(1) by (cases fuel) auto
  next
    case (Cons i q1)
    obtain ns' q' where st: "foldl (bfs_byte_pure i) (ns, q1) all_bytes = (ns', q')" by (cases "foldl (bfs_byte_pure i) (ns, q1) all_bytes")
    note rd = outer_ready [OF Suc.prems(1) [unfolded Cons] Suc.prems(2,3)]
    have "inner_inv ns0 ps es D i q1 UNIV (ns', q')"
      using foldl_bfs_byte_inv [OF rd distinct_all_bytes] st by (simp add: set_all_bytes)
    from outer_step [OF Suc.prems(1) [unfolded Cons] Suc.prems(2,3) this]
    have o: "outer_inv ns0 ps es (insert i D) ns' q'" .
    have "i \<notin> D" "finite D" using outer_invD(2,6) [OF Suc.prems(1)] Cons finite_subset by auto
    then have "length ps \<le> fuel + card (insert i D)" using Suc.prems(4) by simp
    from Suc.IH [OF o Suc.prems(2,3) this] show ?thesis using Cons st by simp
  qed
qed

definition automaton :: "ahoNode list \<Rightarrow> string list \<Rightarrow> entry list \<Rightarrow> bool" where
  "automaton ns ps es =
     (length ns = length ps \<and> ps \<noteq> [] \<and> ps ! 0 = [] \<and> closed_dict (set ps) \<and> entries_in es (set ps) \<and>
      (\<forall>i<length ps. (\<forall>c. edge_fin ps ns i c) \<and> flags_fin es (ns ! i) (ps ! i)))"

lemma automaton_next_ok: "automaton ns ps es \<Longrightarrow> next_ok ns"
  unfolding automaton_def next_ok_def edge_fin_def by (metis in_set_conv_nth length_0_conv)

lemma outer_inv_final:
  assumes "outer_inv ns0 ps es D ns []" "trie_ok ns0 ps" "entries_in es (set ps)"
  shows "automaton ns ps es"
proof -
  note d = outer_invD [OF assms(1)]
  have "j \<in> D" if "j < length ps" for j
    using that
  proof (induction "length (ps ! j)" arbitrary: j)
    case 0
    then show ?case using trie_ok_path0 [OF assms(2)] d(3) by auto
  next
    case (Suc n)
    have "ps ! 0 = []" using assms(2) by (simp add: trie_ok_def)
    then have "j \<noteq> 0" using Suc.hyps(2) by (cases "j = 0") auto
    then obtain k c where k: "k < length ps" "ps ! j = ps ! k @ [c]" using trie_ok_parent [OF assms(2) Suc.prems] by blast
    then have "k \<in> D" using Suc.hyps by simp
    then show ?case using d(9) Suc.prems k(2) by auto
  qed
  then show ?thesis
    using d(1,7,8) assms(2,3) by (auto simp: automaton_def node_fin_def trie_ok_def)
qed

lemma foldl_clear_fail:
  "length (foldl (\<lambda>ns child. ns[child := (ns ! child)\<lparr>an_fail := 0\<rparr>]) ns q) = length ns \<and>
   (\<forall>j<length ns. foldl (\<lambda>ns child. ns[child := (ns ! child)\<lparr>an_fail := 0\<rparr>]) ns q ! j =
      (if j \<in> set q then (ns ! j)\<lparr>an_fail := 0\<rparr> else ns ! j))"
proof (induction q arbitrary: ns)
  case (Cons c q)
  have upd: "j < length ns \<Longrightarrow> ns[c := x] ! j = (if c = j then x else ns ! j)" for j x
    by auto
  show ?case using Cons.IH [of "ns[c := (ns ! c)\<lparr>an_fail := 0\<rparr>]"] by (auto simp: upd)
qed simp

lemma outer_inv_start:
  assumes b: "built ns ps es"
  shows "outer_inv ns ps es {0} (foldl (\<lambda>ns child. ns[child := (ns ! child)\<lparr>an_fail := 0\<rparr>]) ns (root_queue ns)) (root_queue ns)"
proof -
  let ?q = "root_queue ns"
  define ns1 where "ns1 = foldl (\<lambda>ns child. ns[child := (ns ! child)\<lparr>an_fail := 0\<rparr>]) ns ?q"
  have t: "trie_ok ns ps" and en: "entries_in es (set ps)" and fl: "\<And>i. i < length ps \<Longrightarrow> flags_init es (ns ! i) (ps ! i)"
    using b by (auto simp: built_def)
  have len: "length ns = length ps" and n0: "0 < length ps" "ps ! 0 = []" and dist: "distinct ps"
    and edge: "\<And>c. an_next (ns ! 0) c < length ps"
      "\<And>c. [c] \<in> set ps \<Longrightarrow> ps ! an_next (ns ! 0) c = [c]" "\<And>c. [c] \<notin> set ps \<Longrightarrow> an_next (ns ! 0) c = 0"
    using t by (auto simp: trie_ok_def split: if_splits)
  have zero: "an_next (ns ! 0) c = 0 \<longleftrightarrow> [c] \<notin> set ps" for c
    using trie_ok_root_edge [OF t n0(1), of c] n0(2) by simp
  have node: "ns1 ! j = (if j \<in> set ?q then (ns ! j)\<lparr>an_fail := 0\<rparr> else ns ! j)" "length ns1 = length ps" if "j < length ps" for j
    using foldl_clear_fail [of ns ?q] that len by (auto simp: ns1_def)
  have q: "j \<in> set ?q \<longleftrightarrow> j < length ps \<and> (\<exists>c. ps ! j = [c])" for j
  proof
    assume "j \<in> set ?q"
    then obtain c where "j = an_next (ns ! 0) c" "j \<noteq> 0" by (auto simp: root_queue_def)
    then show "j < length ps \<and> (\<exists>c. ps ! j = [c])" using edge zero by auto
  next
    assume j: "j < length ps \<and> (\<exists>c. ps ! j = [c])"
    then obtain c where c: "ps ! j = [c]" by blast
    then have in_ps: "[c] \<in> set ps" using j by (metis nth_mem)
    then have "an_next (ns ! 0) c = j"
      using edge(1,2) c j nth_eq_iff_index_eq [OF dist edge(1)] by metis
    moreover have "j \<noteq> 0" using c n0(2) by (metis not_Cons_self2)
    ultimately show "j \<in> set ?q" by (auto simp: root_queue_def set_all_bytes)
  qed
  have dq: "distinct ?q"
  proof -
    have "inj_on (an_next (ns ! 0)) {c \<in> set all_bytes. an_next (ns ! 0) c \<noteq> 0}"
    proof (rule inj_onI)
      fix x y assume "x \<in> {c \<in> set all_bytes. an_next (ns ! 0) c \<noteq> 0}" "y \<in> {c \<in> set all_bytes. an_next (ns ! 0) c \<noteq> 0}"
        "an_next (ns ! 0) x = an_next (ns ! 0) y"
      then show "x = y" using zero edge(2) by (metis (mono_tags, lifting) list.inject mem_Collect_eq)
    qed
    then show ?thesis
      using distinct_all_bytes by (simp add: root_queue_def filter_map distinct_map comp_def)
  qed
  have fin_root: "node_fin ps es ns1 0"
  proof -
    have "0 \<notin> set ?q" using q n0(2) by auto
    then have "ns1 ! 0 = ns ! 0" using node(1) [OF n0(1)] by (simp only: if_False)
    moreover have "flags_fin es (ns ! 0) []" using fl [OF n0(1)] flags_init_root [OF en] n0(2) by metis
    ultimately show ?thesis unfolding node_fin_def using n0(2) by metis
  qed
  have fin_q: "node_fin ps es ns1 j" if jq: "j \<in> set ?q" for j
  proof -
    obtain c where c: "j < length ps" "ps ! j = [c]" using jq q [of j] by blast
    have "flags_for (\<lambda>p. suffix p [c]) es (ns ! j) = flags_init es (ns ! j) [c]"
    proof (rule flags_for_cong)
      fix e assume "e \<in> set es"
      then have "e_path e \<noteq> []" using en by (simp add: entries_in_def)
      then show "suffix (e_path e) [c] = (e_path e = [c])" by (simp add: suffix_Cons)
    qed
    then have "flags_fin es (ns ! j) (ps ! j)" using fl [OF c(1)] c(2) by metis
    moreover have "ns1 ! j = (ns ! j)\<lparr>an_fail := 0\<rparr>" using node(1) [OF c(1)] jq by (simp only: if_True)
    ultimately show ?thesis using c(2) n0 by (simp add: node_fin_def)
  qed
  have nx: "an_next (ns1 ! j) = an_next (ns ! j)" if "j < length ps" for j using node(1) [OF that] by (cases "j \<in> set ?q") simp_all
  have "edge_fin ps ns1 0 c" for c
    using edge(1) [of c] edge(2,3) [of c] n0 nx [OF n0(1)] by (cases "[c] \<in> set ps") (simp_all add: edge_fin_def)
  moreover have "flags_init es (ns1 ! j) (ps ! j)" if "j < length ps" for j
    using fl [OF that] node(1) [OF that] by (cases "j \<in> set ?q") simp_all
  moreover have one: "length (ps ! j) = 1" if "j \<in> set ?q" for j
  proof -
    have "\<exists>c. ps ! j = [c]" using that q [of j] by blast
    then show ?thesis by auto
  qed
  then have "sorted (map (\<lambda>j. length (ps ! j)) ?q)" by (rule sorted_map_same_length)
  moreover have "length (ps ! j) \<le> Suc (length (ps ! hd ?q))" if "j \<in> set ?q" for j
    using one [OF that] by simp
  moreover have "j = 0" if "?q \<noteq> []" "j < length ps" "length (ps ! j) < length (ps ! hd ?q)" for j
    using that(3) one [of "hd ?q"] trie_ok_path0 [OF t that(2)] that(1) by simp
  moreover have "0 \<notin> set ?q" using one [of 0] n0(2) by auto
  moreover have "set ?q \<subseteq> {..<length ps}" using q by blast
  moreover have "j \<in> set ?q" if "j < length ps" "ps ! j = ps ! 0 @ [c]" for j c
    using that q [of j] n0(2) by simp
  moreover have "\<exists>c. ps ! j = ps ! 0 @ [c]" if "j \<in> set ?q" for j
    using that q [of j] n0(2) by simp
  ultimately show ?thesis
    unfolding ns1_def [symmetric] outer_inv_def
    using node(2) [OF n0(1)] n0(1) dq nx fin_root fin_q by (intro conjI) blast+
qed

lemma buildFailures_ok:
  assumes "built ns ps es"
  shows "\<exists>ns'. buildFailures_pure ns = Some ns' \<and> automaton ns' ps es"
proof -
  have t: "trie_ok ns ps" "entries_in es (set ps)" using assms by (auto simp: built_def)
  then have "length ps \<le> length ns + card {0 :: nat}" by (simp add: trie_ok_def)
  from bfs_complete [OF outer_inv_start [OF assms] t this] show ?thesis
    unfolding buildFailures_pure_def using outer_inv_final t by blast
qed

section \<open>What a stream is blocked for\<close>

text \<open>
  The phrases that end where the (lower-cased) text \<open>w\<close> ends, the exceptions
  met anywhere in it, the running 32-bit score, and whether the scanner stops there.
\<close>

definition ends_hard :: "entry list \<Rightarrow> string \<Rightarrow> bool" where
  "ends_hard es w = list_ex (\<lambda>e. suffix (e_path e) w \<and> e_hard e) es"

definition ends_exc :: "entry list \<Rightarrow> string \<Rightarrow> bool" where
  "ends_exc es w = list_ex (\<lambda>e. suffix (e_path e) w \<and> e_exc e) es"

definition ends_score :: "entry list \<Rightarrow> string \<Rightarrow> 32 word" where
  "ends_score es w = sum_list (map (\<lambda>e. if suffix (e_path e) w then e_weight e else 0) es)"

definition exc_seen :: "entry list \<Rightarrow> string \<Rightarrow> bool" where
  "exc_seen es w = list_ex (ends_exc es) (tl (prefixes w))"

definition score_sum :: "entry list \<Rightarrow> string \<Rightarrow> 32 word" where
  "score_sum es w = sum_list (map (\<lambda>v. if 0 < sint (ends_score es v) then ends_score es v else 0) (tl (prefixes w)))"

definition stops_at :: "entry list \<Rightarrow> 32 word \<Rightarrow> string \<Rightarrow> bool" where
  "stops_at es thr w =
     (\<not> exc_seen es w \<and>
      (ends_hard es w \<or> 0 < sint (ends_score es w) \<and> 0 < sint thr \<and> sint thr \<le> sint (score_sum es w)))"

lemma tl_prefixes_snoc: "tl (prefixes (w @ [c])) = tl (prefixes w) @ [w @ [c]]"
  by (cases "prefixes w") auto

lemma exc_seen_snoc: "exc_seen es (w @ [c]) = (exc_seen es w \<or> ends_exc es (w @ [c]))"
  by (simp add: exc_seen_def tl_prefixes_snoc)

lemma score_sum_snoc:
  "score_sum es (w @ [c]) = score_sum es w + (if 0 < sint (ends_score es (w @ [c])) then ends_score es (w @ [c]) else 0)"
  by (simp add: score_sum_def tl_prefixes_snoc)

lemma automaton_flags:
  assumes "automaton ns ps es" "i < length ps" "ps ! i = lsuf (set ps) w"
  shows "an_hard (ns ! i) = ends_hard es w" "an_excpt (ns ! i) = ends_exc es w" "an_score (ns ! i) = ends_score es w"
    "ends_hard es w \<or> 0 < sint (ends_score es w) \<Longrightarrow> an_phrase (ns ! i) \<noteq> []"
proof -
  have "suffix (e_path e) (ps ! i) = suffix (e_path e) w" if "e \<in> set es" for e
  proof -
    have "e_path e \<in> set ps" using that assms(1) by (simp add: automaton_def entries_in_def)
    then show ?thesis
      using assms(3) lsuf_max [of "e_path e" "set ps" w] lsuf_suffix [of "set ps" w] suffix_order.trans by metis
  qed
  then have "flags_for (\<lambda>p. suffix p w) es (ns ! i) = flags_fin es (ns ! i) (ps ! i)"
    by (intro flags_for_cong) simp
  then have fl: "flags_for (\<lambda>p. suffix p w) es (ns ! i)" using assms(1,2) by (simp add: automaton_def)
  then show "an_hard (ns ! i) = ends_hard es w" "an_excpt (ns ! i) = ends_exc es w" "an_score (ns ! i) = ends_score es w"
    by (simp_all add: flags_for_def ends_hard_def ends_exc_def ends_score_def)
  have "(an_phrase (ns ! i) \<noteq> []) = list_ex (\<lambda>e. suffix (e_path e) w) es" using fl by (simp add: flags_for_def)
  moreover assume "ends_hard es w \<or> 0 < sint (ends_score es w)"
  then have "list_ex (\<lambda>e. suffix (e_path e) w) es"
  proof
    assume "ends_hard es w"
    then show ?thesis by (auto simp: ends_hard_def list_ex_iff)
  next
    assume "0 < sint (ends_score es w)"
    then have "ends_score es w \<noteq> 0" by auto
    then show ?thesis using sum_list_if_none [of es "\<lambda>e. suffix (e_path e) w" e_weight]
      by (auto simp: ends_score_def list_ex_iff)
  qed
  ultimately show "an_phrase (ns ! i) \<noteq> []" by blast
qed

text \<open>The scanner's state after the lower-cased text \<open>w\<close>, when it has not stopped.\<close>

definition scan_state :: "string list \<Rightarrow> entry list \<Rightarrow> phraseStreamFilter \<Rightarrow> string \<Rightarrow> bool" where
  "scan_state ps es f w =
     (ps_node f < length ps \<and> ps ! ps_node f = lsuf (set ps) w \<and> ps_excepted f = exc_seen es w \<and>
      (\<not> exc_seen es w \<longrightarrow> ps_score f = score_sum es w))"

lemma match_byte_scan:
  assumes a: "automaton ns ps es" and st: "scan_state ps es f w" and obs: "\<not> ps_observeOnly f"
    and step: "match_byte_pure ns thr f b = (stop, f')"
  shows "stop = stops_at es thr (w @ [lower_char b])" "stop \<Longrightarrow> ps_blockedPhrase f' \<noteq> []"
    "\<not> stop \<Longrightarrow> scan_state ps es f' (w @ [lower_char b])"
    "ps_compiled f' = ps_compiled f" "\<not> ps_observeOnly f'" "\<not> stop \<Longrightarrow> ps_blockedPhrase f' = ps_blockedPhrase f"
proof -
  let ?w = "w @ [lower_char b]" and ?i = "an_next (ns ! ps_node f) (lower_char b)"
  have "edge_fin ps ns (ps_node f) (lower_char b)" using a st by (simp add: automaton_def scan_state_def)
  then have i: "?i < length ps" "ps ! ?i = lsuf (set ps) ?w"
    using a st lsuf_step [of "set ps" w "lower_char b"] by (auto simp: edge_fin_def scan_state_def automaton_def)
  note fl = automaton_flags [OF a i]
  show "stop = stops_at es thr ?w" "stop \<Longrightarrow> ps_blockedPhrase f' \<noteq> []"
    "\<not> stop \<Longrightarrow> scan_state ps es f' ?w"
    "ps_compiled f' = ps_compiled f" "\<not> ps_observeOnly f'" "\<not> stop \<Longrightarrow> ps_blockedPhrase f' = ps_blockedPhrase f"
    using step fl i st obs
    by (auto simp: match_byte_pure_def Let_def stops_at_def scan_state_def exc_seen_snoc score_sum_snoc split: if_splits)
qed

lemma match_loop_scan:
  assumes "automaton ns ps es" "scan_state ps es f (to_lower pre)" "\<not> ps_observeOnly f" "match_loop_pure ns thr f i bs = (stop, n, f')"
  shows "if stop then \<exists>k. 0 < k \<and> k \<le> length bs \<and> n = i + k \<and> stops_at es thr (to_lower (pre @ take k bs)) \<and>
             (\<forall>m. 0 < m \<longrightarrow> m < k \<longrightarrow> \<not> stops_at es thr (to_lower (pre @ take m bs))) \<and> ps_blockedPhrase f' \<noteq> [] \<and> \<not> ps_observeOnly f'
         else n = i + length bs \<and> scan_state ps es f' (to_lower (pre @ bs)) \<and> ps_compiled f' = ps_compiled f \<and> \<not> ps_observeOnly f' \<and>
             ps_blockedPhrase f' = ps_blockedPhrase f \<and>
             (\<forall>m. 0 < m \<longrightarrow> m \<le> length bs \<longrightarrow> \<not> stops_at es thr (to_lower (pre @ take m bs)))"
  using assms(2-)
proof (induction bs arbitrary: f i pre)
  case Nil
  then show ?case by auto
next
  case (Cons b bs)
  obtain s1 f1 where step: "match_byte_pure ns thr f b = (s1, f1)" by (cases "match_byte_pure ns thr f b")
  note mb = match_byte_scan [OF assms(1) Cons.prems(1,2) step]
  show ?case
  proof (cases s1)
    case True
    then have "stop" "n = i + 1" "f' = f1" using Cons.prems(3) step by auto
    moreover have "stops_at es thr (to_lower (pre @ take 1 (b # bs)))" using mb(1) True by simp
    moreover have "\<forall>m. 0 < m \<longrightarrow> m < 1 \<longrightarrow> \<not> stops_at es thr (to_lower (pre @ take m (b # bs)))" by simp
    ultimately show ?thesis using mb(2) [OF True] mb(5) by (simp only: if_True) (intro exI [of _ 1] conjI; simp)
  next
    case False
    then have st: "scan_state ps es f1 (to_lower (pre @ [b]))" and ml: "match_loop_pure ns thr f1 (Suc i) bs = (stop, n, f')"
      using mb(3) Cons.prems(3) step by auto
    have first: "\<not> stops_at es thr (to_lower (pre @ [b]))" using mb(1) False by simp
    have shift: "\<not> stops_at es thr (to_lower (pre @ take m (b # bs)))"
      if m: "0 < m" and "m \<le> Suc k" "\<And>j. 0 < j \<Longrightarrow> j \<le> k \<Longrightarrow> \<not> stops_at es thr (to_lower ((pre @ [b]) @ take j bs))" for m k
    proof (cases "m - 1")
      case 0
      then have "m = 1" using m by simp
      then show ?thesis using first by simp
    next
      case (Suc j)
      then have "m = Suc (Suc j)" by simp
      then show ?thesis using that(2) that(3) [of "Suc j"] by simp
    qed
    note ih = Cons.IH [OF st mb(5) ml]
    show ?thesis
    proof (cases stop)
      case True
      then obtain k where k: "0 < k" "k \<le> length bs" "n = Suc i + k" "stops_at es thr (to_lower ((pre @ [b]) @ take k bs))"
        "\<And>m. 0 < m \<Longrightarrow> m < k \<Longrightarrow> \<not> stops_at es thr (to_lower ((pre @ [b]) @ take m bs))"
        "ps_blockedPhrase f' \<noteq> []" "\<not> ps_observeOnly f'" using ih by auto
      have "\<not> stops_at es thr (to_lower (pre @ take m (b # bs)))" if "0 < m" "m < Suc k" for m
        using shift [OF that(1), of "k - 1"] that k(1,5) by simp
      moreover have "stops_at es thr (to_lower (pre @ take (Suc k) (b # bs)))" using k(4) by simp
      ultimately show ?thesis using True k(2,3,6,7) by (simp only: if_True) (intro exI [of _ "Suc k"] conjI; simp)
    next
      case nstop: False
      have "\<not> stops_at es thr (to_lower (pre @ take m (b # bs)))" if "0 < m" "m \<le> Suc (length bs)" for m
        using shift [OF that] ih nstop by simp
      then show ?thesis using ih nstop mb(4,6) False by simp
    qed
  qed
qed

text \<open>What the scanner promises for a whole text: all of it, or the bytes up to the first stop.\<close>

definition phrase_spec :: "entry list \<Rightarrow> 32 word \<Rightarrow> string \<Rightarrow> string \<Rightarrow> bool \<Rightarrow> bool" where
  "phrase_spec es thr text out blocked =
     (if blocked
      then \<exists>n. 0 < n \<and> n \<le> length text \<and> out = take n text \<and> stops_at es thr (to_lower (take n text)) \<and>
             (\<forall>m. 0 < m \<longrightarrow> m < n \<longrightarrow> \<not> stops_at es thr (to_lower (take m text)))
      else out = text \<and> (\<forall>m. 0 < m \<longrightarrow> m \<le> length text \<longrightarrow> \<not> stops_at es thr (to_lower (take m text))))"

definition phrase_inv :: "PhraseFilter \<Rightarrow> entry list \<Rightarrow> phraseStreamFilter \<Rightarrow> string \<Rightarrow> string \<Rightarrow> bool" where
  "phrase_inv c es f w out =
     (out = w \<and> ps_compiled f = Some c \<and> \<not> ps_observeOnly f \<and> ps_blockedPhrase f = [] \<and>
      (\<exists>ps. automaton (pf_nodes c) ps es \<and> scan_state ps es f (to_lower w)) \<and>
      (\<forall>m. 0 < m \<longrightarrow> m \<le> length w \<longrightarrow> \<not> stops_at es (word_of_int (pf_threshold c)) (to_lower (take m w))))"

lemma automaton_trivial:
  assumes "automaton ns ps es" "length ns \<le> 1"
  shows "es = []"
proof -
  have "length ps = 1" using assms by (cases ps) (auto simp: automaton_def)
  then have "set ps = {[]}" using assms(1) by (cases ps) (auto simp: automaton_def)
  then show ?thesis using assms(1) by (cases es) (auto simp: automaton_def entries_in_def)
qed

lemma stops_at_Nil: "\<not> stops_at [] thr w"
  by (simp add: stops_at_def ends_hard_def ends_score_def)

lemma take_append_split: "0 < (m :: nat) \<Longrightarrow> m \<le> length (w @ c) \<Longrightarrow> m \<le> length w \<and> take m (w @ c) = take m w \<or>
    (\<exists>k. 0 < k \<and> k \<le> length c \<and> m = length w + k \<and> take m (w @ c) = w @ take k c)"
  by (cases "m \<le> length w") (auto intro!: exI [of _ "m - length w"])

lemma phrase_process_ok:
  assumes inv: "phrase_inv c es f w e" and ne: "chunk \<noteq> []"
  shows "\<exists>out b f'. ps_ProcessChunk f chunk = Inr (out, b, f') \<and>
    (if b then (\<forall>rest. phrase_spec es (word_of_int (pf_threshold c)) (w @ chunk @ rest) (e @ out) True) \<and>
               fst (ps_Decision f')
     else phrase_inv c es f' (w @ chunk) (e @ out))"
proof -
  let ?thr = "word_of_int (pf_threshold c) :: 32 word"
  obtain ps where a: "automaton (pf_nodes c) ps es" and st: "scan_state ps es f (to_lower w)" using inv by (auto simp: phrase_inv_def)
  have old: "\<And>m. 0 < m \<Longrightarrow> m \<le> length w \<Longrightarrow> \<not> stops_at es ?thr (to_lower (take m w))" using inv by (simp add: phrase_inv_def)
  show ?thesis
  proof (cases "length (pf_nodes c) \<le> 1")
    case True
    have es: "es = []" using automaton_trivial [OF a True] .
    have ps: "ps = [[]]" using a True by (cases ps) (auto simp: automaton_def)
    have "lsuf {[]} x = []" for x by (induction x) auto
    then have "scan_state ps es f (to_lower (w @ chunk))"
      using st es ps by (auto simp: scan_state_def exc_seen_def ends_exc_def list_ex_iff score_sum_def ends_score_def)
    then show ?thesis using inv a True es stops_at_Nil ne by (auto simp: ps_ProcessChunk_def phrase_inv_def)
  next
    case False
    obtain stop n f' where ml: "match_loop_pure (pf_nodes c) ?thr f 0 chunk = (stop, n, f')" by (cases "match_loop_pure (pf_nodes c) ?thr f 0 chunk")
    have obs: "\<not> ps_observeOnly f" using inv by (simp add: phrase_inv_def)
    have "match_loop (pf_nodes c) ?thr f 0 chunk = Some (stop, n, f')"
      using match_loop_checked [OF automaton_next_ok [OF a]] st a ml by (simp add: scan_state_def automaton_def)
    then have pc: "ps_ProcessChunk f chunk = Inr (if stop then take n chunk else chunk, stop, f')"
      using inv False ne by (auto simp: ps_ProcessChunk_def phrase_inv_def matchChunk_def)
    note scan = match_loop_scan [OF a st obs ml]
    show ?thesis
    proof (cases stop)
      case True
      then obtain k where k: "0 < k" "k \<le> length chunk" "n = k" "stops_at es ?thr (to_lower (w @ take k chunk))"
        "\<And>m. 0 < m \<Longrightarrow> m < k \<Longrightarrow> \<not> stops_at es ?thr (to_lower (w @ take m chunk))"
        "ps_blockedPhrase f' \<noteq> []" "\<not> ps_observeOnly f'"
        using scan by auto
      have before: "\<not> stops_at es ?thr (to_lower (take m (w @ chunk @ rest)))" if "0 < m" "m < length w + k" for m rest
        using take_append_split [of m w "chunk @ rest"] that old k(2,5) by fastforce
      have "phrase_spec es ?thr (w @ chunk @ rest) (e @ take k chunk) True" for rest
        using k(1,2,4) inv before by (auto simp: phrase_spec_def phrase_inv_def intro!: exI [of _ "length w + k"])
      moreover have "fst (ps_Decision f')" using k(6,7) by (simp add: ps_Decision_def)
      ultimately show ?thesis using pc True k(3) by (intro exI [of _ "take k chunk"] exI [of _ True] exI [of _ f']) simp
    next
      case False
      have "\<not> stops_at es ?thr (to_lower (take m (w @ chunk)))" if "0 < m" "m \<le> length (w @ chunk)" for m
        using take_append_split [OF that] old scan False that by auto
      then have "phrase_inv c es f' (w @ chunk) (e @ chunk)"
        using inv scan False a by (auto simp: phrase_inv_def)
      then show ?thesis using pc False by (intro exI [of _ chunk] exI [of _ False] exI [of _ f']) simp
    qed
  qed
qed

interpretation phrase: stream_filter ps_ProcessChunk ps_Flush "phrase_inv c es" "phrase_spec es (word_of_int (pf_threshold c))" for c es
proof unfold_locales
  fix f w e and chunk :: string
  assume "phrase_inv c es f w e" "chunk \<noteq> []"
  from phrase_process_ok [OF this] obtain out b f' where p: "ps_ProcessChunk f chunk = Inr (out, b, f')"
    "if b then (\<forall>rest. phrase_spec es (word_of_int (pf_threshold c)) (w @ chunk @ rest) (e @ out) True) \<and> fst (ps_Decision f')
     else phrase_inv c es f' (w @ chunk) (e @ out)" by blast
  then show "\<exists>out b f'. ps_ProcessChunk f chunk = Inr (out, b, f') \<and>
    (if b then (\<forall>rest. phrase_spec es (word_of_int (pf_threshold c)) (w @ chunk @ rest) (e @ out) True) \<and>
               (out = [] \<longrightarrow> (\<exists>s''. ps_Flush f' = Inr ([], s'')))
     else phrase_inv c es f' (w @ chunk) (e @ out))"
    by (intro exI [of _ out] exI [of _ b] exI [of _ f']) (auto simp: ps_Flush_def)
next
  fix f w e assume "phrase_inv c es f w e"
  then show "\<exists>out s'. ps_Flush f = Inr (out, s') \<and> phrase_spec es (word_of_int (pf_threshold c)) w (e @ out) False"
    by (simp add: ps_Flush_def phrase_inv_def phrase_spec_def)
qed

section \<open>The constructed filter\<close>

text \<open>The entries a list of phrases stands for.\<close>

definition phrase_entries :: "string list \<Rightarrow> WeightedPhrase list \<Rightarrow> string list \<Rightarrow> entry list" where
  "phrase_entries blocked weighted excptns =
     concat (map (\<lambda>p. entry_of p 0 True False) blocked) @
     concat (map (\<lambda>p. entry_of (wp_Phrase p) (wp_Weight p) False False) weighted) @
     concat (map (\<lambda>p. entry_of p 0 False True) excptns)"

lemma add_weighted_error:
  "(\<exists>ns'. add_weighted_pure threshold ns ps = Inr ns') \<longleftrightarrow> (\<forall>p\<in>set ps. 0 < wp_Weight p \<and> threshold \<noteq> 0)"
  by (induction ps arbitrary: ns) (auto simp: not_le)

lemma NewPhraseFilterWithExceptions_built:
  assumes "0 \<le> threshold" "\<forall>p\<in>set weighted. 0 < wp_Weight p \<and> threshold \<noteq> 0"
  shows "\<exists>c ps. NewPhraseFilterWithExceptions blocked weighted excptns threshold = Inr c \<and> pf_threshold c = threshold \<and>
    automaton (pf_nodes c) ps (phrase_entries blocked weighted excptns)"
proof -
  let ?ns1 = "foldl (\<lambda>ns p. addPhrase_pure ns p 0 True False) [empty_ahoNode] blocked"
  obtain ps1 where b1: "built ?ns1 ps1 (concat (map (\<lambda>p. entry_of p 0 True False) blocked))"
    using foldl_addPhrase_built [OF built_empty, of True False blocked] by auto
  obtain ns2 where w: "add_weighted_pure threshold ?ns1 weighted = Inr ns2" using assms(2) add_weighted_error [of threshold ?ns1 weighted] by blast
  obtain ps2 where b2: "built ns2 ps2 (concat (map (\<lambda>p. entry_of p 0 True False) blocked) @
      concat (map (\<lambda>p. entry_of (wp_Phrase p) (wp_Weight p) False False) weighted))"
    using add_weighted_built [OF b1 w] by blast
  obtain ps3 where b3: "built (foldl (\<lambda>ns p. addPhrase_pure ns p 0 False True) ns2 excptns) ps3 (phrase_entries blocked weighted excptns)"
    using foldl_addPhrase_built [OF b2, of False True excptns] by (auto simp: phrase_entries_def)
  obtain ns' where "buildFailures_pure (foldl (\<lambda>ns p. addPhrase_pure ns p 0 False True) ns2 excptns) = Some ns'"
    "automaton ns' ps3 (phrase_entries blocked weighted excptns)" using buildFailures_ok [OF b3] by blast
  then show ?thesis using assms(1) w by (auto simp: NewPhraseFilterWithExceptions_checked)
qed

lemma phrase_inv_start:
  assumes "automaton (pf_nodes c) ps es"
  shows "phrase_inv c es (PhraseFilter_NewFilter (Some c)) [] []"
  using assms
  by (auto simp: phrase_inv_def PhraseFilter_NewFilter_def scan_state_def exc_seen_def score_sum_def automaton_def intro!: exI [of _ ps])

lemma sublist_iff_suffix_take: "sublist p w \<longleftrightarrow> (\<exists>n\<le>length w. suffix p (take n w))"
proof
  assume "sublist p w"
  then obtain a b where "w = a @ p @ b" by (auto simp: sublist_def)
  then show "\<exists>n\<le>length w. suffix p (take n w)" by (intro exI [of _ "length (a @ p)"]) (simp add: suffix_def)
next
  assume "\<exists>n\<le>length w. suffix p (take n w)"
  then show "sublist p w" using sublist_order.order.trans suffix_imp_sublist sublist_take by blast
qed

lemma stops_at_hard_only:
  "stops_at (concat (map (\<lambda>p. entry_of p 0 True False) phrases)) thr w \<longleftrightarrow>
     (\<exists>p\<in>set phrases. normalizePhrase p \<noteq> [] \<and> suffix (normalizePhrase p) w)"
proof -
  define es where "es = concat (map (\<lambda>p. entry_of p 0 True False) phrases)"
  have mem: "e \<in> set es \<longleftrightarrow> (\<exists>p\<in>set phrases. normalizePhrase p \<noteq> [] \<and> e = Entry (normalizePhrase p) 0 True False)" for e
    by (auto simp: es_def entry_of_def)
  have "ends_hard es w \<longleftrightarrow> (\<exists>p\<in>set phrases. normalizePhrase p \<noteq> [] \<and> suffix (normalizePhrase p) w)"
    unfolding ends_hard_def list_ex_iff Bex_def mem by auto
  moreover have "\<not> ends_exc es v" for v
    unfolding ends_exc_def list_ex_iff Bex_def mem by auto
  then have "\<not> exc_seen es w" by (simp add: exc_seen_def list_ex_iff)
  moreover have "map (\<lambda>e. if suffix (e_path e) w then e_weight e else 0) es = map (\<lambda>_. 0) es"
    unfolding map_eq_conv Ball_def mem by auto
  then have "ends_score es w = 0" unfolding ends_score_def by (simp only: sum_list_0)
  ultimately show ?thesis by (simp add: stops_at_def es_def)
qed

lemma occurs_iff_hit:
  "(\<exists>p\<in>P. normalizePhrase p \<noteq> [] \<and> sublist (normalizePhrase p) (to_lower t)) \<longleftrightarrow>
   (\<exists>n. 0 < n \<and> n \<le> length t \<and> (\<exists>p\<in>P. normalizePhrase p \<noteq> [] \<and> suffix (normalizePhrase p) (to_lower (take n t))))"
proof -
  have "sublist q (to_lower t) \<longleftrightarrow> (\<exists>n. 0 < n \<and> n \<le> length t \<and> suffix q (to_lower (take n t)))" if "q \<noteq> []" for q
  proof -
    have "suffix q (take n (to_lower t)) \<Longrightarrow> 0 < n" for n using that by (cases n) auto
    then show ?thesis unfolding sublist_iff_suffix_take by (auto simp: to_lower_def take_map)
  qed
  then show ?thesis by blast
qed

lemma exc_seen_take:
  assumes "ends_exc es (to_lower (take m t))" "0 < m" "m \<le> length t"
  shows "exc_seen es (to_lower t)"
proof -
  have "to_lower (take m t) \<in> set (tl (prefixes (to_lower t)))"
  proof -
    have "to_lower (take m t) \<in> set (prefixes (to_lower t))" by (simp add: to_lower_def take_map [symmetric] take_is_prefix)
    moreover have "prefixes (to_lower t) = [] # tl (prefixes (to_lower t))" by (cases "to_lower t") auto
    moreover have "to_lower (take m t) \<noteq> []" using assms(2,3) by (auto simp: to_lower_def)
    ultimately show ?thesis by (metis set_ConsD)
  qed
  then show ?thesis using assms(1) by (auto simp: exc_seen_def list_ex_iff)
qed

lemma add_weighted_no_panic: "add_weighted_pure threshold ns ps \<noteq> Inl Panic"
  by (induction ps arbitrary: ns) auto

text \<open>
  C1: The phrase filter is an exact detector for any chunking.  For every list of
  phrases the constructor succeeds, and a stream read through it, in whatever pieces it
  arrives and with whatever buffer it is copied, is blocked exactly when some non-empty
  normalised phrase occurs in the lower-cased text.  An unblocked stream is delivered unchanged;
  of a blocked one the client gets the bytes up to the end of the first occurrence and no more.
\<close>

theorem NewPhraseFilter_stream:
  assumes "eof_script src" "0 < plen"
  shows "\<exists>c out r. NewPhraseFilter phrases = Inr c \<and>
    copyBufferPooled ps_ProcessChunk ps_Flush plen (newInspectReader src (PhraseFilter_NewFilter (Some c))) = ((None, out), r) \<and>
    ir_blocked r = (\<exists>p\<in>set phrases. normalizePhrase p \<noteq> [] \<and> sublist (normalizePhrase p) (to_lower (script_text src))) \<and>
    (if ir_blocked r
     then prefix out (script_text src) \<and>
          (\<exists>p\<in>set phrases. normalizePhrase p \<noteq> [] \<and> suffix (normalizePhrase p) (to_lower out)) \<and>
          (\<forall>p\<in>set phrases. normalizePhrase p \<noteq> [] \<longrightarrow> \<not> sublist (normalizePhrase p) (to_lower (butlast out)))
     else out = script_text src)"
proof -
  let ?es = "phrase_entries phrases [] []" and ?text = "script_text src"
  let ?hit = "\<lambda>w. \<exists>p\<in>set phrases. normalizePhrase p \<noteq> [] \<and> suffix (normalizePhrase p) w"
  let ?occ = "\<lambda>w. \<exists>p\<in>set phrases. normalizePhrase p \<noteq> [] \<and> sublist (normalizePhrase p) w"
  obtain c ps where c: "NewPhraseFilter phrases = Inr c" "pf_threshold c = 0" "automaton (pf_nodes c) ps ?es"
    using NewPhraseFilterWithExceptions_built [of 0 "[]" phrases "[]"] by (auto simp: NewPhraseFilter_def NewScoredPhraseFilter_def)
  obtain out r where run: "copyBufferPooled ps_ProcessChunk ps_Flush plen (newInspectReader src (PhraseFilter_NewFilter (Some c))) = ((None, out), r)"
    and spec: "phrase_spec ?es (word_of_int (pf_threshold c)) ?text out (ir_blocked r)"
    using phrase.copy_spec [OF phrase_inv_start [OF c(3)] assms] by blast
  have stop: "stops_at ?es thr w = ?hit w" for thr w
    using stops_at_hard_only by (simp add: phrase_entries_def)
  have occ: "?occ (to_lower t) = (\<exists>n. 0 < n \<and> n \<le> length t \<and> ?hit (to_lower (take n t)))" for t
    by (rule occurs_iff_hit)
  have "?occ (to_lower ?text) \<and> prefix out ?text \<and> ?hit (to_lower out) \<and> \<not> ?occ (to_lower (butlast out))" if b: "ir_blocked r"
  proof -
    obtain n where n: "0 < n" "n \<le> length ?text" "out = take n ?text" "?hit (to_lower out)"
      "\<And>m. 0 < m \<Longrightarrow> m < n \<Longrightarrow> \<not> ?hit (to_lower (take m ?text))"
      using spec b unfolding phrase_spec_def stop by auto
    have bl: "butlast out = take (n - 1) ?text" using n(1-3) by (simp add: butlast_take)
    have "\<not> ?hit (to_lower (take m (butlast out)))" if "0 < m" "m \<le> length (butlast out)" for m
      using n(5) [of m] that bl n(2) by (simp add: min_absorb1)
    then have "\<not> ?occ (to_lower (butlast out))" unfolding occ by blast
    then show ?thesis using n occ take_is_prefix by blast
  qed
  moreover have "\<not> ?occ (to_lower ?text) \<and> out = ?text" if "\<not> ir_blocked r"
    using spec that unfolding phrase_spec_def stop occ by (simp only: if_False) blast
  ultimately show ?thesis using c(1) run by (cases "ir_blocked r") auto
qed

theorem NewPhraseFilter_stream_witness:
  "\<exists>c out r. NewPhraseFilter [''Bad''] = Inr c \<and>
    copyBufferPooled ps_ProcessChunk ps_Flush 2
      (newInspectReader [Read_result ''so B'' None, Read_result ''aD so'' (Some io_EOF)] (PhraseFilter_NewFilter (Some c))) = ((None, out), r) \<and>
    ir_blocked r"
proof -
  have "eof_script [Read_result ''so B'' None, Read_result ''aD so'' (Some io_EOF)]" by simp
  moreover have "sublist (normalizePhrase ''Bad'') (to_lower (script_text [Read_result ''so B'' None, Read_result ''aD so'' (Some io_EOF)]))"
    by code_simp
  moreover have "normalizePhrase ''Bad'' \<noteq> []" by code_simp
  ultimately show ?thesis
    using NewPhraseFilter_stream [of "[Read_result ''so B'' None, Read_result ''aD so'' (Some io_EOF)]" 2 "[''Bad'']"] by auto
qed

text \<open>
  C10: With weighted phrases and exceptions, and valid weights and threshold, the constructor
  succeeds and the stream, however it is cut into chunks, is cut off at the first byte where, no exception
  phrase having ended yet, a blocked phrase ends or the running 32-bit score reaches the threshold;
  so nothing is ever cut off after an exception phrase went by.
\<close>

theorem NewPhraseFilterWithExceptions_stream:
  assumes "0 \<le> threshold" "\<forall>p\<in>set weighted. 0 < wp_Weight p \<and> threshold \<noteq> 0" "eof_script src" "0 < plen"
  shows "\<exists>c out r. NewPhraseFilterWithExceptions blocked weighted excptns threshold = Inr c \<and>
    copyBufferPooled ps_ProcessChunk ps_Flush plen (newInspectReader src (PhraseFilter_NewFilter (Some c))) = ((None, out), r) \<and>
    phrase_spec (phrase_entries blocked weighted excptns) (word_of_int threshold) (script_text src) out (ir_blocked r) \<and>
    (ir_blocked r \<longrightarrow> (\<forall>x\<in>set excptns. normalizePhrase x \<noteq> [] \<longrightarrow> \<not> sublist (normalizePhrase x) (to_lower out)))"
proof -
  let ?es = "phrase_entries blocked weighted excptns"
  obtain c ps where c: "NewPhraseFilterWithExceptions blocked weighted excptns threshold = Inr c" "pf_threshold c = threshold"
    "automaton (pf_nodes c) ps ?es" using NewPhraseFilterWithExceptions_built [OF assms(1,2)] by blast
  obtain out r where run: "copyBufferPooled ps_ProcessChunk ps_Flush plen (newInspectReader src (PhraseFilter_NewFilter (Some c))) = ((None, out), r)"
    and spec: "phrase_spec ?es (word_of_int threshold) (script_text src) out (ir_blocked r)"
    using phrase.copy_spec [OF phrase_inv_start [OF c(3)] assms(3,4)] c(2) by metis
  have "\<not> sublist (normalizePhrase x) (to_lower out)" if x: "ir_blocked r" "x \<in> set excptns" "normalizePhrase x \<noteq> []" for x
  proof
    assume "sublist (normalizePhrase x) (to_lower out)"
    then obtain m where m: "0 < m" "m \<le> length out" "suffix (normalizePhrase x) (to_lower (take m out))"
      using occurs_iff_hit [of "{x}" out] x(3) by auto
    have "Entry (normalizePhrase x) 0 False True \<in> set ?es" using x by (auto simp: phrase_entries_def entry_of_def)
    then have "ends_exc ?es (to_lower (take m out))" using m(3) unfolding ends_exc_def list_ex_iff by (intro bexI [of _ "Entry (normalizePhrase x) 0 False True"]) simp_all
    then have "exc_seen ?es (to_lower out)" using m(1,2) by (rule exc_seen_take)
    then show False using spec x(1) by (auto simp: phrase_spec_def stops_at_def)
  qed
  then show ?thesis using c(1) run spec by blast
qed

theorem NewPhraseFilterWithExceptions_stream_witness:
  "\<exists>c out r. NewPhraseFilterWithExceptions [''bad''] [\<lparr>wp_Phrase = ''x'', wp_Weight = 2\<rparr>] [''ok''] 3 = Inr c \<and>
    copyBufferPooled ps_ProcessChunk ps_Flush 4 (newInspectReader [Read_result ''x ok bad'' None] (PhraseFilter_NewFilter (Some c))) = ((None, out), r) \<and>
    phrase_spec (phrase_entries [''bad''] [\<lparr>wp_Phrase = ''x'', wp_Weight = 2\<rparr>] [''ok'']) (word_of_int 3) ''x ok bad'' out (ir_blocked r)"
  using NewPhraseFilterWithExceptions_stream [of 3 "[\<lparr>wp_Phrase = ''x'', wp_Weight = 2\<rparr>]" "[Read_result ''x ok bad'' None]" 4 "[''bad'']" "[''ok'']"]
  by (auto simp: script_text_def)

text \<open>
  C21: The constructor never panics, so that every access to a node is in range and the queue of
  the failure links is emptied, and it refuses exactly the settings the configuration forbids: a
  negative threshold, a weight that is not positive, or weighted phrases without a threshold.
\<close>

theorem NewPhraseFilterWithExceptions_total:
  "(\<exists>c. NewPhraseFilterWithExceptions blocked weighted excptns threshold = Inr c) =
     (0 \<le> threshold \<and> list_all (\<lambda>p. 0 < wp_Weight p \<and> 0 < threshold) weighted)
   \<and> NewPhraseFilterWithExceptions blocked weighted excptns threshold \<noteq> Inl Panic"
proof (cases "0 \<le> threshold \<and> (\<forall>p\<in>set weighted. 0 < wp_Weight p \<and> threshold \<noteq> 0)")
  case True
  then obtain c where "NewPhraseFilterWithExceptions blocked weighted excptns threshold = Inr c"
    using NewPhraseFilterWithExceptions_built [of threshold weighted blocked excptns] by blast
  moreover have "list_all (\<lambda>p. 0 < wp_Weight p \<and> 0 < threshold) weighted" using True by (fastforce simp: list_all_iff)
  ultimately show ?thesis using True by simp
next
  case False
  then have nok: "\<not> (0 \<le> threshold \<and> list_all (\<lambda>p. 0 < wp_Weight p \<and> 0 < threshold) weighted)"
    by (auto simp: list_all_iff)
  show ?thesis
  proof (cases "threshold < 0")
    case True
    then show ?thesis using nok by (simp add: NewPhraseFilterWithExceptions_checked)
  next
    case nn: False
    let ?aw = "add_weighted_pure threshold (foldl (\<lambda>ns p. addPhrase_pure ns p 0 True False) [empty_ahoNode] blocked) weighted"
    have "\<nexists>ns'. ?aw = Inr ns'" unfolding add_weighted_error using False nn by (simp add: not_less)
    then obtain e where e: "?aw = Inl e" by (cases ?aw) blast+
    then have "NewPhraseFilterWithExceptions blocked weighted excptns threshold = Inl e"
      using nn by (simp add: NewPhraseFilterWithExceptions_checked)
    moreover have "?aw \<noteq> Inl Panic" by (rule add_weighted_no_panic)
    then have "e \<noteq> Panic" using e by (simp only: sum.inject not_False_eq_True)
    ultimately show ?thesis using nok by simp
  qed
qed

text \<open>
  Weights are 32-bit in the automaton.  A weight of 2^32 passes the constructor's checks but is
  added to the node as 0, so a phrase weighted far above the threshold never blocks anything.
\<close>

theorem weight_truncated:
  assumes "eof_script src" "0 < plen"
  shows "\<exists>c r. NewScoredPhraseFilter [] [\<lparr>wp_Phrase = phrase, wp_Weight = 4294967296\<rparr>] 1 = Inr c \<and>
    copyBufferPooled ps_ProcessChunk ps_Flush plen (newInspectReader src (PhraseFilter_NewFilter (Some c))) = ((None, script_text src), r) \<and>
    \<not> ir_blocked r"
proof -
  let ?es = "phrase_entries [] [\<lparr>wp_Phrase = phrase, wp_Weight = 4294967296\<rparr>] []"
  obtain c ps where c: "NewScoredPhraseFilter [] [\<lparr>wp_Phrase = phrase, wp_Weight = 4294967296\<rparr>] 1 = Inr c"
    "automaton (pf_nodes c) ps ?es"
    using NewPhraseFilterWithExceptions_built [of 1 "[\<lparr>wp_Phrase = phrase, wp_Weight = 4294967296\<rparr>]" "[]" "[]"]
    by (auto simp: NewScoredPhraseFilter_def)
  have "\<not> stops_at ?es thr w" for thr w
    by (auto simp: stops_at_def ends_hard_def ends_score_def phrase_entries_def entry_of_def)
  then show ?thesis
    using phrase.copy_spec [OF phrase_inv_start [OF c(2)] assms] c(1) by (fastforce simp: phrase_spec_def split: if_splits)
qed

theorem weight_truncated_witness:
  "\<exists>c r. NewScoredPhraseFilter [] [\<lparr>wp_Phrase = ''bad'', wp_Weight = 4294967296\<rparr>] 1 = Inr c \<and>
    copyBufferPooled ps_ProcessChunk ps_Flush 8 (newInspectReader [Read_result ''bad'' None] (PhraseFilter_NewFilter (Some c))) = ((None, ''bad''), r) \<and>
    \<not> ir_blocked r"
  using weight_truncated [of "[Read_result ''bad'' None]" 8 "''bad''"] by (simp add: script_text_def)

end
