(* ===== verification/Masking_Filter.thy ===== *)
theory Masking_Filter
  imports Phrase_Filter
begin

text \<open>
  The masking filter of \<open>proxy/masking_filter.go\<close>: occurrences of the
  configured phrases are overwritten with asterisks, over a window of pending
  bytes that carries over from chunk to chunk.  Streams keep their length, only bytes
  inside an occurrence change, and no phrase survives in what the client gets.
\<close>

section \<open>The filter\<close>

record MaskingFilter =
  mk_phrases :: "string list"
  mk_maxLen :: nat

definition add_mask :: "MaskingFilter \<Rightarrow> string \<Rightarrow> MaskingFilter" where
  "add_mask f phrase =
     (let p = normalizePhrase phrase
      in if p = [] then f
         else f\<lparr>mk_phrases := mk_phrases f @ [p], mk_maxLen := (if length p > mk_maxLen f then length p else mk_maxLen f)\<rparr>)"

definition NewMaskingFilter :: "string list \<Rightarrow> MaskingFilter" where
  "NewMaskingFilter phrases = foldl add_mask \<lparr>mk_phrases = [], mk_maxLen = 0\<rparr> phrases"

record maskingStreamFilter =
  ms_compiled :: "MaskingFilter option"
  ms_pending :: string

definition MaskingFilter_NewFilter :: "MaskingFilter option \<Rightarrow> maskingStreamFilter option" where
  "MaskingFilter_NewFilter f =
     (case f of
        None \<Rightarrow> None
      | Some m \<Rightarrow> if mk_maxLen m = 0 then None else Some \<lparr>ms_compiled = f, ms_pending = []\<rparr>)"

definition asciiEqualFoldBytes :: "string \<Rightarrow> string \<Rightarrow> bool" where
  "asciiEqualFoldBytes src normalized = (length src = length normalized \<and> list_all2 (\<lambda>s n. lower_char s = n) src normalized)"

definition mask_phrase :: "nat \<Rightarrow> string \<Rightarrow> string \<Rightarrow> string" where
  "mask_phrase i pending phrase =
     (if i + length phrase > length pending then pending
      else if asciiEqualFoldBytes (take (length phrase) (drop i pending)) phrase
      then foldl (\<lambda>pending j. pending[i + j := star]) pending [0..<length phrase]
      else pending)"

definition mask_at :: "string list \<Rightarrow> string \<Rightarrow> nat \<Rightarrow> string" where
  "mask_at phrases pending i = foldl (mask_phrase i) pending phrases"

definition maskPending :: "string list \<Rightarrow> string \<Rightarrow> string" where
  "maskPending phrases pending = foldl (mask_at phrases) pending [0..<length pending]"

definition ms_ProcessChunk :: "maskingStreamFilter process_fn" where
  "ms_ProcessChunk f inp =
     (case ms_compiled f of
        None \<Rightarrow> Inr (inp, False, f)
      | Some m \<Rightarrow>
          (if mk_maxLen m = 0 \<or> inp = [] then Inr (inp, False, f)
           else let pending = maskPending (mk_phrases m) (ms_pending f @ inp);
                    emit = int (length pending) - (int (mk_maxLen m) - 1)
                in if emit \<le> 0 then Inr ([], False, f\<lparr>ms_pending := pending\<rparr>)
                   else Inr (take (nat emit) pending, False, f\<lparr>ms_pending := drop (nat emit) pending\<rparr>)))"

definition ms_Flush :: "maskingStreamFilter flush_fn" where
  "ms_Flush f =
     (case ms_compiled f of
        None \<Rightarrow> Inl (Failure ''masking filter is not initialized'')
      | Some m \<Rightarrow>
          (if ms_pending f = [] then Inr ([], f)
           else Inr (maskPending (mk_phrases m) (ms_pending f), f\<lparr>ms_pending := []\<rparr>)))"

section \<open>Masked texts\<close>

definition star_free :: "string list \<Rightarrow> bool" where
  "star_free P = (\<forall>p\<in>set P. star \<notin> set p)"

text \<open>\<open>occurs p s i\<close>: the normalised phrase \<open>p\<close> stands at position \<open>i\<close> of \<open>s\<close>.\<close>

definition occurs :: "string \<Rightarrow> string \<Rightarrow> nat \<Rightarrow> bool" where
  "occurs p s i = prefix p (to_lower (drop i s))"

definition covered :: "string list \<Rightarrow> string \<Rightarrow> nat \<Rightarrow> bool" where
  "covered P s k = (\<exists>p\<in>set P. \<exists>i. i \<le> k \<and> k < i + length p \<and> occurs p s i)"

definition masked :: "string list \<Rightarrow> string \<Rightarrow> string \<Rightarrow> bool" where
  "masked P s t = (length t = length s \<and> (\<forall>k<length s. t ! k = s ! k \<or> t ! k = star \<and> (star_free P \<longrightarrow> covered P s k)))"

definition clean :: "string list \<Rightarrow> string \<Rightarrow> bool" where
  "clean P s = (\<forall>p\<in>set P. p \<noteq> [] \<longrightarrow> star \<notin> set p \<longrightarrow> (\<forall>i. \<not> occurs p s i))"

lemma prefix_iff_take: "prefix p x \<longleftrightarrow> length p \<le> length x \<and> take (length p) x = p"
  by (metis append_eq_conv_conj prefix_def prefix_length_le take_is_prefix)

lemma occurs_nth: "occurs p s i \<longleftrightarrow> (p = [] \<or> i + length p \<le> length s) \<and> (\<forall>k<length p. lower_char (s ! (i + k)) = p ! k)"
proof (cases "length p \<le> length s - i")
  case True
  then have "take (length p) (to_lower (drop i s)) = p \<longleftrightarrow> (\<forall>k<length p. lower_char (s ! (i + k)) = p ! k)"
    by (subst list_eq_iff_nth_eq) (auto simp: to_lower_def)
  moreover have "p = [] \<or> i + length p \<le> length s" using True by (cases p) auto
  ultimately show ?thesis using True by (simp add: occurs_def prefix_iff_take to_lower_def)
qed (auto simp: occurs_def prefix_iff_take to_lower_def)

lemma lower_star: "lower_char star = star"
  by code_simp

lemma masked_occurs:
  assumes "masked P s t" "star \<notin> set p" "occurs p t i"
  shows "occurs p s i"
proof -
  have "lower_char (s ! (i + k)) = p ! k" if k: "k < length p" for k
  proof -
    have "lower_char (t ! (i + k)) = p ! k" "i + k < length s" using assms(1,3) k by (auto simp: occurs_nth masked_def)
    moreover have "p ! k \<noteq> star" using assms(2) k nth_mem by metis
    ultimately show ?thesis using assms(1) lower_star by (auto simp: masked_def)
  qed
  then show ?thesis using assms(1,3) by (auto simp: occurs_nth masked_def)
qed

lemma masked_refl: "masked P s s"
  by (simp add: masked_def)

lemma masked_trans:
  assumes "masked P s t" "masked P t u"
  shows "masked P s u"
proof -
  have "covered P s k" if "covered P t k" "star_free P" for k
    using that masked_occurs [OF assms(1)] unfolding covered_def star_free_def by blast
  then show ?thesis using assms unfolding masked_def by metis
qed

lemma occurs_append: "occurs p w i \<Longrightarrow> occurs p (w @ c) i"
  by (auto simp: occurs_nth nth_append)

lemma occurs_appendD:
  assumes "occurs p (x @ c) i" "i + length p \<le> length x"
  shows "occurs p x i"
proof -
  have "(x @ c) ! (i + k) = x ! (i + k)" if "k < length p" for k using that assms(2) by (simp add: nth_append)
  then show ?thesis using assms by (simp add: occurs_nth)
qed

lemma masked_prepend:
  assumes "masked P s q"
  shows "masked P (e @ s) (e @ q)"
proof -
  have cov: "covered P (e @ s) k" if c: "covered P s (k - length e)" "length e \<le> k" for k
  proof -
    obtain p i where "p \<in> set P" "i \<le> k - length e" "k - length e < i + length p" "occurs p s i"
      using c(1) unfolding covered_def by blast
    then show ?thesis using c(2) unfolding covered_def
      by (intro bexI [of _ p] exI [of _ "length e + i"]) (auto simp: occurs_def)
  qed
  have "(e @ q) ! k = (e @ s) ! k \<or> (e @ q) ! k = star \<and> (star_free P \<longrightarrow> covered P (e @ s) k)" if "k < length (e @ s)" for k
  proof (cases "k < length e")
    case False
    then have "k - length e < length s" using that by simp
    then have "q ! (k - length e) = s ! (k - length e) \<or>
        q ! (k - length e) = star \<and> (star_free P \<longrightarrow> covered P s (k - length e))"
      using assms by (simp only: masked_def)
    then show ?thesis using False cov [of k] by (auto simp: nth_append)
  qed (simp add: nth_append)
  then show ?thesis using assms by (simp add: masked_def)
qed

lemma masked_append:
  assumes "masked P w o1" "masked P (o2 @ c) q" "o1 = e @ o2"
  shows "masked P (w @ c) (e @ q)"
proof (rule masked_trans)
  have "covered P (w @ c) k" if "covered P w k" for k
    using that occurs_append [of _ w _ c] unfolding covered_def by blast
  then show "masked P (w @ c) (o1 @ c)" using assms(1) by (auto simp: masked_def nth_append)
  show "masked P (o1 @ c) (e @ q)" using masked_prepend [OF assms(2), of e] assms(3) by simp
qed

lemma foldl_stars:
  assumes "i + n \<le> length s"
  shows "length (foldl (\<lambda>s j. s[i + j := star]) s [0..<n]) = length s"
    "k < length s \<Longrightarrow> foldl (\<lambda>s j. s[i + j := star]) s [0..<n] ! k = (if i \<le> k \<and> k < i + n then star else s ! k)"
  using assms by (induction n arbitrary: k) (auto simp: nth_list_update)

lemma asciiEqualFoldBytes_occurs:
  "i + length p \<le> length s \<Longrightarrow> asciiEqualFoldBytes (take (length p) (drop i s)) p \<longleftrightarrow> occurs p s i"
  by (auto simp: asciiEqualFoldBytes_def list_all2_conv_all_nth occurs_nth)

lemma mask_phrase_masked:
  assumes "p \<in> set P"
  shows "masked P s (mask_phrase i s p)" "p \<noteq> [] \<Longrightarrow> star \<notin> set p \<Longrightarrow> \<not> occurs p (mask_phrase i s p) i"
proof -
  have "covered P s k" if "occurs p s i" "i \<le> k" "k < i + length p" for k
    using that assms unfolding covered_def by blast
  then show "masked P s (mask_phrase i s p)"
    using foldl_stars [of i "length p" s] asciiEqualFoldBytes_occurs [of i p s] by (auto simp: mask_phrase_def masked_def)
  assume p: "p \<noteq> []" "star \<notin> set p"
  show "\<not> occurs p (mask_phrase i s p) i"
  proof (cases "i + length p \<le> length s \<and> occurs p s i")
    case True
    moreover have "i < length s" using True p(1) by (cases p) auto
    ultimately have "mask_phrase i s p ! i = star"
      using foldl_stars(2) [of i "length p" s i] asciiEqualFoldBytes_occurs [of i p s] p(1) by (auto simp: mask_phrase_def)
    moreover have "p ! 0 \<noteq> star" using p by (cases p) auto
    ultimately show ?thesis using p(1) lower_star by (auto simp: occurs_nth)
  next
    case False
    then have "mask_phrase i s p = s" using asciiEqualFoldBytes_occurs [of i p s] by (auto simp: mask_phrase_def)
    then show ?thesis using False p(1) by (auto simp: occurs_nth)
  qed
qed

lemma mask_at_masked:
  assumes "set Q \<subseteq> set P"
  shows "masked P s (mask_at Q s i)" "p \<in> set Q \<Longrightarrow> p \<noteq> [] \<Longrightarrow> star \<notin> set p \<Longrightarrow> \<not> occurs p (mask_at Q s i) i"
proof -
  have "masked P s (mask_at Q s i) \<and> (\<forall>p\<in>set Q. p \<noteq> [] \<longrightarrow> star \<notin> set p \<longrightarrow> \<not> occurs p (mask_at Q s i) i)"
    using assms
  proof (induction Q arbitrary: s)
    case Nil
    then show ?case by (simp add: mask_at_def masked_refl)
  next
    case (Cons q Q)
    let ?s = "mask_phrase i s q"
    have at: "mask_at (q # Q) s i = mask_at Q ?s i" by (simp add: mask_at_def)
    have ih: "masked P ?s (mask_at Q ?s i)" "\<forall>p\<in>set Q. p \<noteq> [] \<longrightarrow> star \<notin> set p \<longrightarrow> \<not> occurs p (mask_at Q ?s i) i"
      using Cons by auto
    have q: "masked P s ?s" "q \<noteq> [] \<Longrightarrow> star \<notin> set q \<Longrightarrow> \<not> occurs q ?s i" using mask_phrase_masked [of q P] Cons.prems by auto
    show ?case unfolding at using ih q masked_trans masked_occurs [OF ih(1)] by (metis set_ConsD)
  qed
  then show "masked P s (mask_at Q s i)" "p \<in> set Q \<Longrightarrow> p \<noteq> [] \<Longrightarrow> star \<notin> set p \<Longrightarrow> \<not> occurs p (mask_at Q s i) i"
    by auto
qed

lemma maskPending_masked: "masked P s (maskPending P s)" "clean P (maskPending P s)"
proof -
  have fold: "masked P s (foldl (mask_at P) s [0..<n]) \<and>
      (\<forall>p\<in>set P. p \<noteq> [] \<longrightarrow> star \<notin> set p \<longrightarrow> (\<forall>i<n. \<not> occurs p (foldl (mask_at P) s [0..<n]) i))" for n
  proof (induction n)
    case 0
    then show ?case by (simp add: masked_refl)
  next
    case (Suc n)
    let ?t = "foldl (mask_at P) s [0..<n]"
    note at = mask_at_masked [where Q = P and P = P and s = ?t and i = n, OF order_refl]
    have e: "foldl (mask_at P) s [0..<Suc n] = mask_at P ?t n" by simp
    have "masked P s (mask_at P ?t n)" using Suc at(1) masked_trans by blast
    moreover have "\<not> occurs p (mask_at P ?t n) i" if "p \<in> set P" "p \<noteq> []" "star \<notin> set p" "i < Suc n" for p i
    proof (cases "i = n")
      case False
      then have "\<not> occurs p ?t i" using Suc that by simp
      then show ?thesis using masked_occurs [OF at(1)] that(3) by blast
    qed (use at(2) that in blast)
    ultimately show ?case unfolding e by blast
  qed
  show m: "masked P s (maskPending P s)" using fold unfolding maskPending_def by blast
  have "\<not> occurs p (maskPending P s) i" if p: "p \<in> set P" "p \<noteq> []" "star \<notin> set p" for p i
  proof (cases "i < length s")
    case True
    then show ?thesis using fold p unfolding maskPending_def by blast
  next
    case False
    have "0 < length p" using p(2) by simp
    then have "\<not> i + length p \<le> length s" using False by linarith
    then show ?thesis using m p(2) by (simp add: occurs_nth masked_def)
  qed
  then show "clean P (maskPending P s)" unfolding clean_def by blast
qed

lemma sublist_iff_occurs: "sublist p (to_lower s) \<longleftrightarrow> (\<exists>i. occurs p s i)"
proof
  assume "sublist p (to_lower s)"
  then obtain a b where "to_lower s = a @ p @ b" by (auto simp: sublist_def)
  then have "prefix p (drop (length a) (to_lower s))" by simp
  then show "\<exists>i. occurs p s i" by (auto simp: occurs_def to_lower_def drop_map)
next
  assume "\<exists>i. occurs p s i"
  then obtain i where "prefix p (drop i (to_lower s))" by (auto simp: occurs_def to_lower_def drop_map)
  then show "sublist p (to_lower s)" using prefix_imp_sublist sublist_drop sublist_order.order.trans by blast
qed

section \<open>The stream\<close>

definition mask_spec :: "string list \<Rightarrow> string \<Rightarrow> string \<Rightarrow> bool \<Rightarrow> bool" where
  "mask_spec P text out blocked = (\<not> blocked \<and> masked P text out \<and> clean P out)"

definition mask_inv :: "MaskingFilter \<Rightarrow> maskingStreamFilter \<Rightarrow> string \<Rightarrow> string \<Rightarrow> bool" where
  "mask_inv m f w e =
     (ms_compiled f = Some m \<and> 0 < mk_maxLen m \<and> (\<forall>p\<in>set (mk_phrases m). length p \<le> mk_maxLen m) \<and>
      masked (mk_phrases m) w (e @ ms_pending f) \<and> clean (mk_phrases m) (e @ ms_pending f) \<and>
      (e = [] \<or> mk_maxLen m \<le> Suc (length (ms_pending f))))"

text \<open>An occurrence that ends in the new bytes starts in the pending ones.\<close>

lemma clean_append:
  assumes "clean P (e @ o2)" "masked P (o2 @ c) q" "clean P q" "\<forall>p\<in>set P. length p \<le> n" "e = [] \<or> n \<le> Suc (length o2)"
  shows "clean P (e @ q)"
  unfolding clean_def
proof (intro ballI allI impI notI)
  fix p i assume p: "p \<in> set P" "p \<noteq> []" "star \<notin> set p" "occurs p (e @ q) i"
  show False
  proof (cases "length e \<le> i")
    case True
    then have "occurs p q (i - length e)" using p(4) by (simp add: occurs_def)
    then show False using assms(3) p unfolding clean_def by blast
  next
    case False
    then have "n \<le> Suc (length o2)" "length p \<le> n" using assms(4,5) p(1) by auto
    then have "i + length p \<le> length (e @ o2)" using False by simp
    moreover have "masked P ((e @ o2) @ c) (e @ q)" using masked_append [OF masked_refl assms(2)] by simp
    then have "occurs p ((e @ o2) @ c) i" using masked_occurs p(3,4) by blast
    ultimately have "occurs p (e @ o2) i" by (rule occurs_appendD [rotated])
    then show False using assms(1) p unfolding clean_def by blast
  qed
qed

lemma mask_process:
  assumes "mask_inv m f w e" "c \<noteq> []"
  shows "\<exists>out f'. ms_ProcessChunk f c = Inr (out, False, f') \<and> mask_inv m f' (w @ c) (e @ out)"
proof -
  let ?P = "mk_phrases m" and ?q = "maskPending (mk_phrases m) (ms_pending f @ c)"
  let ?n = "nat (int (length ?q) - (int (mk_maxLen m) - 1))"
  have inv: "ms_compiled f = Some m" "0 < mk_maxLen m" "\<forall>p\<in>set ?P. length p \<le> mk_maxLen m"
    "masked ?P w (e @ ms_pending f)" "clean ?P (e @ ms_pending f)" "e = [] \<or> mk_maxLen m \<le> Suc (length (ms_pending f))"
    using assms(1) by (simp_all add: mask_inv_def)
  have m: "masked ?P (w @ c) (e @ ?q)" by (rule masked_append [OF inv(4) maskPending_masked(1)]) simp
  have cl: "clean ?P (e @ ?q)" using clean_append [OF inv(5) maskPending_masked inv(3,6)] .
  have len: "length ?q = length (ms_pending f @ c)" using maskPending_masked(1) [of ?P "ms_pending f @ c"] by (simp add: masked_def)
  show ?thesis
  proof (cases "int (length ?q) - (int (mk_maxLen m) - 1) \<le> 0")
    case True
    then have "ms_ProcessChunk f c = Inr ([], False, f\<lparr>ms_pending := ?q\<rparr>)"
      using inv(1,2) assms(2) by (simp add: ms_ProcessChunk_def Let_def)
    moreover have "mask_inv m (f\<lparr>ms_pending := ?q\<rparr>) (w @ c) (e @ [])"
      using inv m cl len by (auto simp: mask_inv_def)
    ultimately show ?thesis by blast
  next
    case False
    then have "ms_ProcessChunk f c = Inr (take ?n ?q, False, f\<lparr>ms_pending := drop ?n ?q\<rparr>)"
      using inv(1,2) assms(2) by (simp add: ms_ProcessChunk_def Let_def)
    moreover have "mk_maxLen m \<le> Suc (length ?q - ?n)" using False by linarith
    then have "mask_inv m (f\<lparr>ms_pending := drop ?n ?q\<rparr>) (w @ c) (e @ take ?n ?q)"
      using inv m cl False by (simp add: mask_inv_def)
    ultimately show ?thesis by blast
  qed
qed

interpretation masking: stream_filter ms_ProcessChunk ms_Flush "mask_inv m" "mask_spec (mk_phrases m)" for m
proof unfold_locales
  fix f w e and c :: string
  assume "mask_inv m f w e" "c \<noteq> []"
  from mask_process [OF this] obtain out f' where "ms_ProcessChunk f c = Inr (out, False, f')" "mask_inv m f' (w @ c) (e @ out)" by blast
  then show "\<exists>out b f'. ms_ProcessChunk f c = Inr (out, b, f') \<and>
      (if b then (\<forall>rest. mask_spec (mk_phrases m) (w @ c @ rest) (e @ out) True) \<and> (out = [] \<longrightarrow> (\<exists>s''. ms_Flush f' = Inr ([], s'')))
       else mask_inv m f' (w @ c) (e @ out))"
    by (intro exI [of _ out] exI [of _ False] exI [of _ f']) simp
next
  fix f w e assume inv: "mask_inv m f w e"
  let ?P = "mk_phrases m" and ?q = "maskPending (mk_phrases m) (ms_pending f)"
  have "masked ?P w (e @ ?q)"
    using masked_append [of ?P w "e @ ms_pending f" "ms_pending f" "[]" ?q e] maskPending_masked(1) [of ?P "ms_pending f"] inv
    by (simp add: mask_inv_def)
  moreover have "clean ?P (e @ ?q)"
    using clean_append [of ?P e "ms_pending f" "[]" ?q "mk_maxLen m"] maskPending_masked [of ?P "ms_pending f"] inv
    by (simp add: mask_inv_def)
  moreover have "ms_Flush f = Inr (?q, f\<lparr>ms_pending := []\<rparr>) \<or> ms_pending f = [] \<and> ms_Flush f = Inr ([], f)"
    using inv by (auto simp: ms_Flush_def mask_inv_def)
  ultimately show "\<exists>out s'. ms_Flush f = Inr (out, s') \<and> mask_spec ?P w (e @ out) False"
    using inv by (auto simp: mask_spec_def mask_inv_def)
qed

section \<open>Construction and properties\<close>

lemma foldl_add_mask:
  "mk_phrases (foldl add_mask m phrases) = mk_phrases m @ filter (\<lambda>p. p \<noteq> []) (map normalizePhrase phrases)"
  by (induction phrases arbitrary: m) (auto simp: add_mask_def Let_def)

lemma foldl_add_mask_maxLen:
  assumes "\<forall>p\<in>set (mk_phrases m). p \<noteq> [] \<and> length p \<le> mk_maxLen m" "mk_maxLen m = 0 \<longleftrightarrow> mk_phrases m = []"
  shows "(\<forall>p\<in>set (mk_phrases (foldl add_mask m phrases)). p \<noteq> [] \<and> length p \<le> mk_maxLen (foldl add_mask m phrases)) \<and>
    (mk_maxLen (foldl add_mask m phrases) = 0 \<longleftrightarrow> mk_phrases (foldl add_mask m phrases) = [])"
  using assms
proof (induction phrases arbitrary: m)
  case (Cons a phrases)
  have "\<forall>p\<in>set (mk_phrases (add_mask m a)). p \<noteq> [] \<and> length p \<le> mk_maxLen (add_mask m a)"
    "mk_maxLen (add_mask m a) = 0 \<longleftrightarrow> mk_phrases (add_mask m a) = []"
    using Cons.prems by (auto simp: add_mask_def Let_def)
  from Cons.IH [OF this] show ?case by simp
qed simp

lemma NewMaskingFilter_phrases:
  "mk_phrases (NewMaskingFilter phrases) = filter (\<lambda>p. p \<noteq> []) (map normalizePhrase phrases)"
  by (simp add: NewMaskingFilter_def foldl_add_mask)

lemma NewMaskingFilter_maxLen:
  "\<forall>p\<in>set (mk_phrases (NewMaskingFilter phrases)). p \<noteq> [] \<and> length p \<le> mk_maxLen (NewMaskingFilter phrases)"
  "mk_maxLen (NewMaskingFilter phrases) = 0 \<longleftrightarrow> mk_phrases (NewMaskingFilter phrases) = []"
  using foldl_add_mask_maxLen [of "\<lparr>mk_phrases = [], mk_maxLen = 0\<rparr>" phrases] by (simp_all add: NewMaskingFilter_def)

lemma mask_inv_start:
  assumes "MaskingFilter_NewFilter (Some (NewMaskingFilter phrases)) = Some f"
  shows "mask_inv (NewMaskingFilter phrases) f [] []"
proof -
  have "\<not> occurs p [] i" if "p \<noteq> []" for p i using that by (simp add: occurs_def)
  then show ?thesis
    using assms NewMaskingFilter_maxLen(1) [of phrases] by (auto simp: MaskingFilter_NewFilter_def mask_inv_def masked_def clean_def split: if_splits)
qed

text \<open>
  C9: A stream read through the masking filter keeps its length, whatever the chunks.  Every byte is the
  original one or an asterisk, an asterisk is written only inside an occurrence of a configured phrase in the
  original text, and no configured phrase is left in what is delivered (for phrases that contain no asterisk themselves).
\<close>

theorem masking_stream:
  assumes "MaskingFilter_NewFilter (Some (NewMaskingFilter phrases)) = Some f" "eof_script src" "0 < plen"
    and "\<forall>p\<in>set phrases. star \<notin> set (normalizePhrase p)"
  shows "\<exists>out r. copyBufferPooled ms_ProcessChunk ms_Flush plen (newInspectReader src f) = ((None, out), r) \<and> \<not> ir_blocked r \<and>
    length out = length (script_text src) \<and>
    (\<forall>k<length out. out ! k = script_text src ! k \<or> out ! k = star \<and>
      (\<exists>p\<in>set phrases. \<exists>i\<le>k. k < i + length (normalizePhrase p) \<and> occurs (normalizePhrase p) (script_text src) i)) \<and>
    (\<forall>p\<in>set phrases. normalizePhrase p \<noteq> [] \<longrightarrow> \<not> sublist (normalizePhrase p) (to_lower out))"
proof -
  let ?P = "mk_phrases (NewMaskingFilter phrases)" and ?t = "script_text src"
  obtain out r where run: "copyBufferPooled ms_ProcessChunk ms_Flush plen (newInspectReader src f) = ((None, out), r)"
    and spec: "mask_spec ?P ?t out (ir_blocked r)"
    using masking.copy_spec [OF mask_inv_start [OF assms(1)] assms(2,3)] by blast
  have sf: "star_free ?P" using assms(4) by (auto simp: star_free_def NewMaskingFilter_phrases)
  have m: "length out = length ?t" "\<And>k. k < length ?t \<Longrightarrow> out ! k = ?t ! k \<or> out ! k = star \<and> covered ?P ?t k"
    and b: "\<not> ir_blocked r" and cl: "clean ?P out"
    using spec sf by (auto simp: mask_spec_def masked_def)
  have "\<exists>p\<in>set phrases. \<exists>i\<le>k. k < i + length (normalizePhrase p) \<and> occurs (normalizePhrase p) ?t i" if "covered ?P ?t k" for k
    using that by (auto simp: covered_def NewMaskingFilter_phrases)
  moreover have "\<not> sublist (normalizePhrase p) (to_lower out)" if "p \<in> set phrases" "normalizePhrase p \<noteq> []" for p
  proof
    assume "sublist (normalizePhrase p) (to_lower out)"
    then obtain i where "occurs (normalizePhrase p) out i" by (auto simp: sublist_iff_occurs)
    then show False using cl that assms(4) unfolding clean_def by (auto simp: NewMaskingFilter_phrases)
  qed
  ultimately show ?thesis
    using run m b by (intro exI [of _ out] exI [of _ r] conjI ballI allI impI) (assumption | metis)+
qed

theorem masking_stream_witness:
  "\<exists>out r. copyBufferPooled ms_ProcessChunk ms_Flush 3
     (newInspectReader [Read_result ''my PA'' None, Read_result ''ss'' None] \<lparr>ms_compiled = Some \<lparr>mk_phrases = [''pass''], mk_maxLen = 4\<rparr>, ms_pending = []\<rparr>) = ((None, out), r) \<and>
     length out = 7 \<and> \<not> sublist ''pass'' (to_lower out)"
proof -
  have n: "normalizePhrase ''pass'' = ''pass''" by code_simp
  then have "MaskingFilter_NewFilter (Some (NewMaskingFilter [''pass''])) = Some \<lparr>ms_compiled = Some \<lparr>mk_phrases = [''pass''], mk_maxLen = 4\<rparr>, ms_pending = []\<rparr>"
    by (simp add: MaskingFilter_NewFilter_def NewMaskingFilter_def add_mask_def)
  from masking_stream [OF this, of "[Read_result ''my PA'' None, Read_result ''ss'' None]" 3] n show ?thesis
    by (auto simp: script_text_def)
qed

text \<open>
  What is masked depends on how the text is cut into chunks when one phrase lies inside another.
  With the phrases \<open>bc\<close> and \<open>abcd\<close> the text \<open>abcd\<close> is hidden whole when it arrives in one chunk, but its outer
  bytes are delivered when the last byte arrives later, because the inner phrase was already overwritten.
\<close>

theorem masking_depends_on_chunks:
  "fst (copyBufferPooled ms_ProcessChunk ms_Flush 8
     (newInspectReader [Read_result ''abcd'' None] \<lparr>ms_compiled = Some (NewMaskingFilter [''bc'', ''abcd'']), ms_pending = []\<rparr>)) = (None, ''****'') \<and>
   fst (copyBufferPooled ms_ProcessChunk ms_Flush 8
     (newInspectReader [Read_result ''abc'' None, Read_result ''d'' None] \<lparr>ms_compiled = Some (NewMaskingFilter [''bc'', ''abcd'']), ms_pending = []\<rparr>)) = (None, ''a**d'')"
  by code_simp

end
