(* ===== verification/Inject_Magic.thy ===== *)
theory Inject_Magic
  imports Masking_Filter
begin

text \<open>
  Two filters that hold back the start or the end of what they have seen:
  \<open>proxy/html_injection_filter.go\<close>, which puts a banner before the first
  closing body tag, and \<open>proxy/magic_filter.go\<close>, which decides on the first 512
  bytes.  Both are shown to do the same whatever the chunks.
\<close>

section \<open>HTML injection\<close>

record htmlInjectionStreamFilter =
  hs_banner :: string
  hs_pending :: string
  hs_injected :: bool

definition HTMLInjectionFilter_NewFilter :: "string option \<Rightarrow> htmlInjectionStreamFilter option" where
  "HTMLInjectionFilter_NewFilter f =
     (case f of
        None \<Rightarrow> None
      | Some banner \<Rightarrow> if banner = [] then None else Some \<lparr>hs_banner = banner, hs_pending = [], hs_injected = False\<rparr>)"

definition needle :: string where
  "needle = ''</body>''"

text \<open>The loop of \<open>injectPending\<close>, on what is left of the pending bytes.\<close>

function needle_index :: "string \<Rightarrow> nat \<Rightarrow> nat option" where
  "needle_index s i =
     (if length needle \<le> length s
      then if asciiEqualFoldBytes (take (length needle) s) needle then Some i else needle_index (tl s) (Suc i)
      else None)"
  by pat_completeness auto
termination
  by (relation "measure (\<lambda>(s, i). length s)") (auto simp: needle_def)

declare needle_index.simps [simp del]

definition injectPending :: "htmlInjectionStreamFilter \<Rightarrow> (string \<times> htmlInjectionStreamFilter) option" where
  "injectPending f =
     (case needle_index (hs_pending f) 0 of
        Some i \<Rightarrow> Some (take i (hs_pending f) @ hs_banner f @ drop i (hs_pending f), f\<lparr>hs_pending := [], hs_injected := True\<rparr>)
      | None \<Rightarrow> None)"

definition hs_ProcessChunk :: "htmlInjectionStreamFilter process_fn" where
  "hs_ProcessChunk f inp =
     (if hs_banner f = [] \<or> inp = [] then Inr (inp, False, f)
      else if hs_injected f then Inr (inp, False, f)
      else let f = f\<lparr>hs_pending := hs_pending f @ inp\<rparr>
           in case injectPending f of
                Some (out, f) \<Rightarrow> Inr (out, False, f)
              | None \<Rightarrow>
                  (let emit = int (length (hs_pending f)) - (int (length needle) - 1)
                   in if emit \<le> 0 then Inr ([], False, f)
                      else Inr (take (nat emit) (hs_pending f), False, f\<lparr>hs_pending := drop (nat emit) (hs_pending f)\<rparr>)))"

definition hs_Flush :: "htmlInjectionStreamFilter flush_fn" where
  "hs_Flush f =
     (if hs_pending f = [] then Inr ([], f) else Inr (hs_pending f, f\<lparr>hs_pending := []\<rparr>))"

text \<open>The reference: the banner goes before the first closing body tag of the whole text.\<close>

definition inject_at :: "string \<Rightarrow> string \<Rightarrow> nat \<Rightarrow> string" where
  "inject_at banner text i = take i text @ banner @ drop i text"

definition first_body :: "string \<Rightarrow> nat \<Rightarrow> bool" where
  "first_body s i = (occurs needle s i \<and> (\<forall>j<i. \<not> occurs needle s j))"

definition inject_spec :: "string \<Rightarrow> string \<Rightarrow> string \<Rightarrow> bool \<Rightarrow> bool" where
  "inject_spec banner text out blocked =
     (\<not> blocked \<and> ((\<exists>i. first_body text i \<and> out = inject_at banner text i) \<or> (\<forall>i. \<not> occurs needle text i) \<and> out = text))"

lemma needle_nonempty [simp]: "needle \<noteq> []" "0 < length needle"
  by (simp_all add: needle_def)

lemma needle_index_correct:
  "case needle_index s k of None \<Rightarrow> \<forall>i. \<not> occurs needle s i | Some n \<Rightarrow> k \<le> n \<and> first_body s (n - k)"
proof (induction "length s" arbitrary: s k rule: less_induct)
  case less
  show ?case
  proof (cases "length needle \<le> length s")
    case False
    then have "\<not> occurs needle s i" for i by (simp add: occurs_nth)
    then show ?thesis using False by (simp add: needle_index.simps [of s])
  next
    case True
    show ?thesis
    proof (cases "occurs needle s 0")
      case occ: True
      then show ?thesis using True asciiEqualFoldBytes_occurs [of 0 needle s] by (simp add: needle_index.simps [of s] first_body_def)
    next
      case no: False
      then have step: "needle_index s k = needle_index (tl s) (Suc k)"
        using True asciiEqualFoldBytes_occurs [of 0 needle s] by (simp add: needle_index.simps [of s])
      have shift: "occurs needle s (Suc i) = occurs needle (tl s) i" for i by (simp add: occurs_def drop_Suc)
      have "length (tl s) < length s" using True needle_nonempty by (cases s) auto
      note ih = less [OF this, of "Suc k"]
      show ?thesis
      proof (cases "needle_index (tl s) (Suc k)")
        case None
        have "\<not> occurs needle s i" for i using ih None no shift by (cases i) auto
        then show ?thesis using step None by simp
      next
        case (Some n)
        then have n: "Suc k \<le> n" "first_body (tl s) (n - Suc k)" using ih by auto
        then have "n - k = Suc (n - Suc k)" by simp
        moreover have "\<not> occurs needle s j" if "j < Suc (n - Suc k)" for j
          using that n(2) no shift by (cases j) (auto simp: first_body_def)
        ultimately show ?thesis using step Some n shift by (simp add: first_body_def)
      qed
    qed
  qed
qed

definition inject_inv :: "string \<Rightarrow> htmlInjectionStreamFilter \<Rightarrow> string \<Rightarrow> string \<Rightarrow> bool" where
  "inject_inv banner f w e =
     (hs_banner f = banner \<and> banner \<noteq> [] \<and>
      (if hs_injected f then hs_pending f = [] \<and> (\<exists>i. first_body w i \<and> e = inject_at banner w i)
       else e @ hs_pending f = w \<and> (\<forall>i. \<not> occurs needle w i) \<and> (e = [] \<or> length needle \<le> Suc (length (hs_pending f)))))"

lemma first_body_append: "first_body w i \<Longrightarrow> first_body (w @ c) i"
proof -
  assume f: "first_body w i"
  then have "i + length needle \<le> length w" by (auto simp: first_body_def occurs_nth)
  then show ?thesis using f occurs_append occurs_appendD [of needle w c] by (fastforce simp: first_body_def)
qed

lemma inject_at_append: "first_body w i \<Longrightarrow> inject_at b (w @ c) i = inject_at b w i @ c"
  by (simp add: inject_at_def first_body_def occurs_nth)

text \<open>A tag of the longer text that starts in what was emitted would have been seen before.\<close>

lemma occurs_pending:
  assumes "\<forall>i. \<not> occurs needle (e @ p) i" "e = [] \<or> length needle \<le> Suc (length p)"
  shows "occurs needle (e @ p @ c) i \<longleftrightarrow> length e \<le> i \<and> occurs needle (p @ c) (i - length e)"
proof (cases "length e \<le> i")
  case True
  then show ?thesis by (simp add: occurs_def)
next
  case False
  then have "i + length needle \<le> length (e @ p)" using assms(2) by auto
  then show ?thesis using False assms(1) occurs_appendD [of needle "e @ p" c i] by auto
qed

lemma inject_inv_cut:
  assumes "hs_banner f = banner" "banner \<noteq> []" "\<not> hs_injected f" "\<forall>i. \<not> occurs needle (e @ p) i" "length needle \<le> Suc (length (drop n p))"
  shows "inject_inv banner (f\<lparr>hs_pending := drop n p\<rparr>) (e @ p) (e @ take n p)"
  using assms by (simp add: inject_inv_def)

lemma inject_process:
  assumes "inject_inv banner f w e" "c \<noteq> []"
  shows "\<exists>out f'. hs_ProcessChunk f c = Inr (out, False, f') \<and> inject_inv banner f' (w @ c) (e @ out)"
proof (cases "hs_injected f")
  case True
  then obtain i where i: "first_body w i" "e = inject_at banner w i" "hs_pending f = []" using assms(1) by (auto simp: inject_inv_def)
  have "hs_ProcessChunk f c = Inr (c, False, f)" using True assms by (simp add: hs_ProcessChunk_def inject_inv_def)
  moreover have "inject_inv banner f (w @ c) (e @ c)"
    unfolding inject_inv_def using assms(1) True i(2,3) first_body_append [OF i(1), of c] inject_at_append [OF i(1), of banner c]
    by (simp only: if_True) (metis inject_inv_def)
  ultimately show ?thesis by blast
next
  case False
  let ?p = "hs_pending f @ c"
  have inv: "hs_banner f = banner" "banner \<noteq> []" "w = e @ hs_pending f" "\<forall>i. \<not> occurs needle (e @ hs_pending f) i"
    "e = [] \<or> length needle \<le> Suc (length (hs_pending f))"
    using assms(1) False by (auto simp: inject_inv_def)
  note occ = occurs_pending [OF inv(4,5), of c]
  show ?thesis
  proof (cases "needle_index ?p 0")
    case (Some n)
    have fb: "first_body ?p n" using needle_index_correct [of ?p 0] Some by simp
    then have "first_body (e @ ?p) (length e + n)" using occ by (auto simp: first_body_def)
    then have "inject_inv banner (f\<lparr>hs_pending := [], hs_injected := True\<rparr>) (w @ c) (e @ inject_at banner ?p n)"
      using inv by (auto simp: inject_inv_def inject_at_def intro!: exI [of _ "length e + n"])
    moreover have "hs_ProcessChunk f c = Inr (inject_at banner ?p n, False, f\<lparr>hs_pending := [], hs_injected := True\<rparr>)"
      using Some False inv assms(2) by (simp add: hs_ProcessChunk_def injectPending_def inject_at_def)
    ultimately show ?thesis by blast
  next
    case None
    then have no: "\<forall>i. \<not> occurs needle (e @ ?p) i" using needle_index_correct [of ?p 0] occ by simp
    let ?n = "nat (int (length ?p) - (int (length needle) - 1))"
    show ?thesis
    proof (cases "int (length ?p) - (int (length needle) - 1) \<le> 0")
      case True
      then have "hs_ProcessChunk f c = Inr ([], False, f\<lparr>hs_pending := ?p\<rparr>)"
        using None False inv assms(2) by (simp add: hs_ProcessChunk_def injectPending_def)
      moreover have "inject_inv banner (f\<lparr>hs_pending := ?p\<rparr>) (w @ c) (e @ [])"
        using inv no False by (auto simp: inject_inv_def)
      ultimately show ?thesis by blast
    next
      case pos: False
      then have "hs_ProcessChunk f c = Inr (take ?n ?p, False, f\<lparr>hs_pending := drop ?n ?p\<rparr>)"
        using None False inv assms(2) by (simp add: hs_ProcessChunk_def injectPending_def Let_def)
      moreover have "length needle \<le> Suc (length (drop ?n ?p))" using pos needle_nonempty(2) by simp
      then have "inject_inv banner (f\<lparr>hs_pending := drop ?n ?p\<rparr>) (w @ c) (e @ take ?n ?p)"
        using inject_inv_cut [of f banner e ?p ?n] inv no False by simp
      ultimately show ?thesis by blast
    qed
  qed
qed

interpretation inject: stream_filter hs_ProcessChunk hs_Flush "inject_inv banner" "inject_spec banner" for banner
proof unfold_locales
  fix f w e and c :: string
  assume "inject_inv banner f w e" "c \<noteq> []"
  from inject_process [OF this] obtain out f' where "hs_ProcessChunk f c = Inr (out, False, f')" "inject_inv banner f' (w @ c) (e @ out)" by blast
  then show "\<exists>out b f'. hs_ProcessChunk f c = Inr (out, b, f') \<and>
      (if b then (\<forall>rest. inject_spec banner (w @ c @ rest) (e @ out) True) \<and> (out = [] \<longrightarrow> (\<exists>s''. hs_Flush f' = Inr ([], s'')))
       else inject_inv banner f' (w @ c) (e @ out))"
    by (intro exI [of _ out] exI [of _ False] exI [of _ f']) simp
next
  fix f w e assume "inject_inv banner f w e"
  then show "\<exists>out s'. hs_Flush f = Inr (out, s') \<and> inject_spec banner w (e @ out) False"
    by (auto simp: hs_Flush_def inject_inv_def inject_spec_def split: if_splits)
qed

text \<open>
  C12: The banner is put immediately before the first closing body tag, found without regard to case, even
  when the tag is split over chunks, and exactly once; a text without such a tag is delivered unchanged.
\<close>

theorem injection_stream:
  assumes "banner \<noteq> []" "eof_script src" "0 < plen"
  shows "\<exists>f out r. HTMLInjectionFilter_NewFilter (Some banner) = Some f \<and>
    copyBufferPooled hs_ProcessChunk hs_Flush plen (newInspectReader src f) = ((None, out), r) \<and> \<not> ir_blocked r \<and>
    (if \<exists>i. occurs ''</body>'' (script_text src) i
     then let i = (LEAST i. occurs ''</body>'' (script_text src) i) in out = take i (script_text src) @ banner @ drop i (script_text src)
     else out = script_text src)"
proof -
  let ?f = "\<lparr>hs_banner = banner, hs_pending = [], hs_injected = False\<rparr>"
  have "inject_inv banner ?f [] []" using assms(1) by (auto simp: inject_inv_def occurs_nth)
  from inject.copy_spec [OF this assms(2,3)] obtain out r where
    run: "copyBufferPooled hs_ProcessChunk hs_Flush plen (newInspectReader src ?f) = ((None, out), r)"
    and spec: "inject_spec banner (script_text src) out (ir_blocked r)" by blast
  have least: "first_body s i \<Longrightarrow> (LEAST i. occurs needle s i) = i" for s i
    by (rule Least_equality) (auto simp: first_body_def not_less [symmetric])
  have "if \<exists>i. occurs needle (script_text src) i
     then let i = (LEAST i. occurs needle (script_text src) i) in out = take i (script_text src) @ banner @ drop i (script_text src)
     else out = script_text src"
    using spec least by (auto simp: inject_spec_def inject_at_def Let_def first_body_def)
  note out = this [unfolded needle_def]
  have "HTMLInjectionFilter_NewFilter (Some banner) = Some ?f" "\<not> ir_blocked r"
    using spec assms(1) by (simp_all add: HTMLInjectionFilter_NewFilter_def inject_spec_def)
  then show ?thesis using run out by blast
qed

theorem injection_stream_witness:
  "\<exists>out r. copyBufferPooled hs_ProcessChunk hs_Flush 16 (newInspectReader [Read_result ''x</BO'' None, Read_result ''dy>'' None]
      \<lparr>hs_banner = ''B'', hs_pending = [], hs_injected = False\<rparr>) = ((None, out), r) \<and> out = ''xB</BOdy>''"
proof -
  let ?src = "[Read_result ''x</BO'' None, Read_result ''dy>'' None]"
  have st: "script_text ?src = ''x</BOdy>''" by code_simp
  have occ: "occurs ''</body>'' ''x</BOdy>'' 1" "\<not> occurs ''</body>'' ''x</BOdy>'' 0" by code_simp+
  then have least: "(LEAST i. occurs ''</body>'' ''x</BOdy>'' i) = 1" by (intro Least_equality) (auto simp: Suc_le_eq intro: gr0I)
  have ex: "\<exists>i. occurs ''</body>'' ''x</BOdy>'' i" using occ(1) by blast
  obtain f out r where f: "HTMLInjectionFilter_NewFilter (Some ''B'') = Some f"
    and run: "copyBufferPooled hs_ProcessChunk hs_Flush 16 (newInspectReader ?src f) = ((None, out), r)"
    and out: "if \<exists>i. occurs ''</body>'' ''x</BOdy>'' i
      then let i = (LEAST i. occurs ''</body>'' ''x</BOdy>'' i) in out = take i ''x</BOdy>'' @ ''B'' @ drop i ''x</BOdy>''
      else out = ''x</BOdy>''"
    using injection_stream [of "''B''" ?src 16] unfolding st by fastforce
  have "f = \<lparr>hs_banner = ''B'', hs_pending = [], hs_injected = False\<rparr>" using f by (simp add: HTMLInjectionFilter_NewFilter_def)
  moreover have "out = ''xB</BOdy>''" using out unfolding least Let_def if_P [OF ex] by simp
  ultimately show ?thesis using run by blast
qed

section \<open>Magic numbers\<close>

definition magicSniffLen :: nat where
  "magicSniffLen = 512"

definition magic_entry :: "string \<Rightarrow> string" where
  "magic_entry raw =
     (let mt = to_lower (trim_space raw)
      in case index_byte mt (CHR '';'') of Some i \<Rightarrow> trim_space (take i mt) | None \<Rightarrow> mt)"

text \<open>\<open>NewMagicFilter\<close>: the set of blocked types, or \<open>None\<close> for the nil filter.\<close>

definition NewMagicFilter :: "string list \<Rightarrow> string list option" where
  "NewMagicFilter blockedTypes =
     (if blockedTypes = [] then None
      else let s = filter (\<lambda>mt. mt \<noteq> []) (map magic_entry blockedTypes) in if s = [] then None else Some s)"

record magicStreamFilter =
  mg_blockedTypes :: "string list"
  mg_pending :: string
  mg_decided :: bool
  mg_blocked :: bool
  mg_blockedMime :: string

definition MagicFilter_NewFilter :: "string list option \<Rightarrow> magicStreamFilter option" where
  "MagicFilter_NewFilter f =
     (case f of
        None \<Rightarrow> None
      | Some s \<Rightarrow> if s = [] then None
          else Some \<lparr>mg_blockedTypes = s, mg_pending = [], mg_decided = False, mg_blocked = False, mg_blockedMime = []\<rparr>)"

text \<open>
  The signatures of \<open>detectMagicType\<close>, then \<open>http.DetectContentType\<close>, whose table is not
  repeated here: it is the argument \<open>detect\<close>.
\<close>

definition detectMagicType :: "(string \<Rightarrow> string) \<Rightarrow> string \<Rightarrow> string" where
  "detectMagicType detect data =
     (let b = (\<lambda>i. of_char (data ! i) :: nat)
      in if 4 \<le> length data \<and> b 0 = 0x7F \<and> data ! 1 = CHR ''E'' \<and> data ! 2 = CHR ''L'' \<and> data ! 3 = CHR ''F''
         then ''executable/elf''
         else if 2 \<le> length data \<and> data ! 0 = CHR ''M'' \<and> data ! 1 = CHR ''Z'' then ''executable/pe''
         else if 4 \<le> length data \<and> b 0 = 0xFE \<and> b 1 = 0xED \<and> b 2 = 0xFA \<and> (b 3 = 0xCE \<or> b 3 = 0xCF) then ''executable/mach''
         else if 4 \<le> length data \<and> (b 0 = 0xCE \<or> b 0 = 0xCF) \<and> b 1 = 0xFA \<and> b 2 = 0xED \<and> b 3 = 0xFE then ''executable/mach''
         else if 4 \<le> length data \<and> b 0 = 0xCA \<and> b 1 = 0xFE \<and> b 2 = 0xBA \<and> b 3 = 0xBE then ''executable/mach''
         else if 2 \<le> length data \<and> data ! 0 = CHR ''#'' \<and> data ! 1 = CHR ''!'' then ''executable/script''
         else let mt = detect data;
                  mt = (case index_byte mt (CHR '';'') of Some i \<Rightarrow> take i mt | None \<Rightarrow> mt)
              in to_lower (trim_space mt))"

definition mg_Decision :: "magicStreamFilter \<Rightarrow> bool \<times> string \<times> string" where
  "mg_Decision f = (if mg_blocked f then (True, ''magic'', mg_blockedMime f) else (False, [], []))"

definition commitDecision :: "(string \<Rightarrow> string) \<Rightarrow> magicStreamFilter \<Rightarrow> string \<Rightarrow> string \<times> bool \<times> magicStreamFilter" where
  "commitDecision detect f tail =
     (let f = f\<lparr>mg_decided := True\<rparr>; mime = detectMagicType detect (mg_pending f)
      in if mime \<in> set (mg_blockedTypes f) then ([], True, f\<lparr>mg_blocked := True, mg_blockedMime := mime, mg_pending := []\<rparr>)
         else if tail = [] then (mg_pending f, False, f\<lparr>mg_pending := []\<rparr>)
         else (mg_pending f @ tail, False, f\<lparr>mg_pending := []\<rparr>))"

definition mg_ProcessChunk :: "(string \<Rightarrow> string) \<Rightarrow> magicStreamFilter process_fn" where
  "mg_ProcessChunk detect f inp =
     (if mg_blocked f then Inr ([], True, f)
      else if mg_decided f then Inr (inp, False, f)
      else if inp = [] then Inr ([], False, f)
      else let need = magicSniffLen - length (mg_pending f);
               (f, tail) = (if length inp \<le> need then (f\<lparr>mg_pending := mg_pending f @ inp\<rparr>, [])
                            else (f\<lparr>mg_pending := mg_pending f @ take need inp\<rparr>, drop need inp))
           in if length (mg_pending f) < magicSniffLen then Inr ([], False, f)
              else Inr (commitDecision detect f tail))"

definition mg_Flush :: "(string \<Rightarrow> string) \<Rightarrow> magicStreamFilter flush_fn" where
  "mg_Flush detect f =
     (if mg_blocked f \<or> mg_decided f then Inr ([], f)
      else case commitDecision detect f [] of (out, _, f) \<Rightarrow> Inr (out, f))"

definition magic_spec :: "(string \<Rightarrow> string) \<Rightarrow> string list \<Rightarrow> string \<Rightarrow> string \<Rightarrow> bool \<Rightarrow> bool" where
  "magic_spec detect types text out blocked =
     (if detectMagicType detect (take magicSniffLen text) \<in> set types
      then out = [] \<and> blocked = (magicSniffLen \<le> length text)
      else out = text \<and> \<not> blocked)"

definition magic_inv :: "(string \<Rightarrow> string) \<Rightarrow> string list \<Rightarrow> magicStreamFilter \<Rightarrow> string \<Rightarrow> string \<Rightarrow> bool" where
  "magic_inv detect types f w e =
     (mg_blockedTypes f = types \<and> \<not> mg_blocked f \<and>
      (if mg_decided f
       then magicSniffLen \<le> length w \<and> e = w \<and> detectMagicType detect (take magicSniffLen w) \<notin> set types
       else e = [] \<and> mg_pending f = w \<and> length w < magicSniffLen))"

interpretation magic: stream_filter "mg_ProcessChunk detect" "mg_Flush detect" "magic_inv detect types" "magic_spec detect types" for detect types
proof unfold_locales
  fix f w e and c :: string
  assume inv: "magic_inv detect types f w e" and c: "c \<noteq> []"
  let ?goal = "\<lambda>out b f'. mg_ProcessChunk detect f c = Inr (out, b, f') \<and>
      (if b then (\<forall>rest. magic_spec detect types (w @ c @ rest) (e @ out) True) \<and> (out = [] \<longrightarrow> (\<exists>s''. mg_Flush detect f' = Inr ([], s'')))
       else magic_inv detect types f' (w @ c) (e @ out))"
  show "\<exists>out b f'. ?goal out b f'"
  proof (cases "mg_decided f")
    case True
    then have "?goal c False f" using inv by (auto simp: mg_ProcessChunk_def magic_inv_def)
    then show ?thesis by blast
  next
    case False
    then have u: "e = []" "mg_pending f = w" "length w < magicSniffLen" "\<not> mg_blocked f" "mg_blockedTypes f = types"
      using inv by (auto simp: magic_inv_def)
    show ?thesis
    proof (cases "length (w @ c) < magicSniffLen")
      case True
      then have "?goal [] False (f\<lparr>mg_pending := w @ c\<rparr>)"
        using False u c by (simp add: mg_ProcessChunk_def magic_inv_def Let_def)
      then show ?thesis by blast
    next
      case full: False
      let ?need = "magicSniffLen - length w"
      let ?f = "f\<lparr>mg_pending := take magicSniffLen (w @ c)\<rparr>" and ?tail = "drop ?need c"
      have pc: "mg_ProcessChunk detect f c = Inr (commitDecision detect ?f ?tail)"
        using False u c full by (auto simp: mg_ProcessChunk_def Let_def)
      have sniff: "take magicSniffLen (w @ c @ rest) = take magicSniffLen (w @ c)" for rest using full by simp
      show ?thesis
      proof (cases "detectMagicType detect (take magicSniffLen (w @ c)) \<in> set types")
        case True
        then have "?goal [] True (?f\<lparr>mg_decided := True, mg_blocked := True,
            mg_blockedMime := detectMagicType detect (take magicSniffLen (w @ c)), mg_pending := []\<rparr>)"
          using pc u full sniff by (simp add: commitDecision_def Let_def magic_spec_def mg_Flush_def)
        then show ?thesis by blast
      next
        case ok: False
        have "take magicSniffLen (w @ c) @ ?tail = w @ c" using u(3) full by simp
        then have "commitDecision detect ?f ?tail = (w @ c, False, ?f\<lparr>mg_decided := True, mg_pending := []\<rparr>)"
          using ok u(5) by (cases "?tail = []") (auto simp: commitDecision_def Let_def)
        then have "?goal (w @ c) False (?f\<lparr>mg_decided := True, mg_pending := []\<rparr>)"
          using pc u full ok by (simp add: magic_inv_def)
        then show ?thesis by blast
      qed
    qed
  qed
next
  fix f w e assume "magic_inv detect types f w e"
  then show "\<exists>out s'. mg_Flush detect f = Inr (out, s') \<and> magic_spec detect types w (e @ out) False"
    by (auto simp: mg_Flush_def magic_inv_def magic_spec_def commitDecision_def Let_def split: if_splits)
qed

text \<open>
  C11: The magic filter is all or nothing.  If the type detected on the first 512 bytes is blocked, not one byte
  of the body reaches the client, otherwise the body is delivered unchanged, whatever the chunks; bodies of 512 bytes
  and more are reported as blocked while they stream, shorter ones come out empty at the end.
\<close>

theorem magic_stream:
  assumes "NewMagicFilter blockedTypes = Some types" "eof_script src" "0 < plen"
  shows "\<exists>f out r. MagicFilter_NewFilter (Some types) = Some f \<and>
    copyBufferPooled (mg_ProcessChunk detect) (mg_Flush detect) plen (newInspectReader src f) = ((None, out), r) \<and>
    (if detectMagicType detect (take 512 (script_text src)) \<in> magic_entry ` set blockedTypes - {[]}
     then out = [] \<and> ir_blocked r = (512 \<le> length (script_text src))
     else out = script_text src \<and> \<not> ir_blocked r)"
proof -
  let ?f = "\<lparr>mg_blockedTypes = types, mg_pending = [], mg_decided = False, mg_blocked = False, mg_blockedMime = []\<rparr>"
  have t: "types \<noteq> []" "set types = magic_entry ` set blockedTypes - {[]}"
    using assms(1) by (auto simp: NewMagicFilter_def Let_def split: if_splits)
  have "magic_inv detect types ?f [] []" by (simp add: magic_inv_def magicSniffLen_def)
  from magic.copy_spec [OF this assms(2,3)] obtain out r where
    "copyBufferPooled (mg_ProcessChunk detect) (mg_Flush detect) plen (newInspectReader src ?f) = ((None, out), r)"
    "magic_spec detect types (script_text src) out (ir_blocked r)" by blast
  then show ?thesis using t unfolding magic_spec_def magicSniffLen_def
    by (auto simp: MagicFilter_NewFilter_def split: if_splits)
qed

theorem magic_stream_witness:
  "\<exists>out r. copyBufferPooled (mg_ProcessChunk (\<lambda>_. ''text/plain'')) (mg_Flush (\<lambda>_. ''text/plain'')) 16
      (newInspectReader [Read_result ''M'' None, Read_result ''Zx'' None]
        \<lparr>mg_blockedTypes = [''executable/pe''], mg_pending = [], mg_decided = False, mg_blocked = False, mg_blockedMime = []\<rparr>) = ((None, out), r) \<and>
    out = [] \<and> \<not> ir_blocked r"
proof -
  have "NewMagicFilter [''Executable/PE ; q=1''] = Some [''executable/pe'']" by code_simp
  moreover have "detectMagicType (\<lambda>_. ''text/plain'') ''MZx'' = ''executable/pe''" by code_simp
  moreover have "magic_entry ''Executable/PE ; q=1'' = ''executable/pe''" by code_simp
  ultimately show ?thesis
    using magic_stream [of "[''Executable/PE ; q=1'']" "[''executable/pe'']" "[Read_result ''M'' None, Read_result ''Zx'' None]" 16 "\<lambda>_. ''text/plain''"]
    by (simp add: script_text_def MagicFilter_NewFilter_def)
qed

end
