(* ===== verification/Html_Filter.thy ===== *)
theory Html_Filter
  imports Inject_Magic
begin

text \<open>
  \<open>proxy/html_filter.go\<close>: the state machine that shows an inner filter only the
  visible text of an HTML stream, one byte at a time, while the stream itself
  passes unchanged.  The lemmas lift the contract of the inner filter to the
  wrapped one and are used on the phrase filter.
\<close>

section \<open>The state machine\<close>

record html_state =
  ht_inTag :: bool
  ht_tagClosing :: bool
  ht_tagName :: string
  ht_tagNameDone :: bool
  ht_quote :: "char option"
  ht_comment :: nat
  ht_skip :: string
  ht_closeMatch :: nat

text \<open>\<open>quote byte\<close> is 0 when no quote is open; 0 is never stored otherwise, so it is \<open>None\<close> here.\<close>

definition html_start :: html_state where
  "html_start = \<lparr>ht_inTag = False, ht_tagClosing = False, ht_tagName = [], ht_tagNameDone = False, ht_quote = None,
     ht_comment = 0, ht_skip = [], ht_closeMatch = 0\<rparr>"

definition isHTMLSpace :: "char \<Rightarrow> bool" where
  "isHTMLSpace b = (of_char b \<in> {32, 9, 13, 10, 12 :: nat})"

definition startTag :: "html_state \<Rightarrow> html_state" where
  "startTag f = f\<lparr>ht_inTag := True, ht_tagClosing := False, ht_tagNameDone := False, ht_quote := None, ht_tagName := []\<rparr>"

definition finishTag :: "html_state \<Rightarrow> html_state" where
  "finishTag f =
     (let name = ht_tagName f;
          f = (if \<not> ht_tagClosing f \<and> (name = ''script'' \<or> name = ''style'') then f\<lparr>ht_skip := name, ht_closeMatch := 0\<rparr> else f)
      in f\<lparr>ht_inTag := False, ht_tagClosing := False, ht_tagNameDone := False, ht_quote := None, ht_tagName := []\<rparr>)"

definition consumeTag :: "html_state \<Rightarrow> char \<Rightarrow> html_state" where
  "consumeTag f b =
     (case ht_quote f of
        Some q \<Rightarrow> if b = q then f\<lparr>ht_quote := None\<rparr> else f
      | None \<Rightarrow>
          (if b = CHR 0x22 \<or> b = CHR 0x27 then f\<lparr>ht_quote := Some b\<rparr>
           else if ht_tagName f = [] \<and> \<not> ht_tagClosing f \<and> b = CHR ''!'' then f\<lparr>ht_comment := 1, ht_inTag := False\<rparr>
           else if ht_tagName f = [] \<and> b = slash then f\<lparr>ht_tagClosing := True\<rparr>
           else if b = CHR ''>'' then finishTag f
           else if isHTMLSpace b \<or> b = slash then f\<lparr>ht_tagNameDone := True\<rparr>
           else if \<not> ht_tagNameDone f then f\<lparr>ht_tagName := ht_tagName f @ [lower_char b]\<rparr>
           else f))"

definition consumeComment :: "html_state \<Rightarrow> char \<Rightarrow> html_state" where
  "consumeComment f b =
     (let rest = (if b = CHR ''>'' then f\<lparr>ht_comment := 0\<rparr> else f\<lparr>ht_comment := 1\<rparr>)
      in if ht_comment f = 1 then if b = CHR ''-'' then f\<lparr>ht_comment := 2\<rparr> else rest
         else if ht_comment f = 2 then if b = CHR ''-'' then f\<lparr>ht_comment := 3\<rparr> else rest
         else if ht_comment f = 3
         then if b = CHR ''>'' then f\<lparr>ht_comment := 0\<rparr> else if b = CHR ''-'' then f else rest
         else rest)"

definition consumeSkippedContent :: "html_state \<Rightarrow> char \<Rightarrow> html_state" where
  "consumeSkippedContent f b =
     (let nd = ''</'' @ ht_skip f @ ''>''
      in if lower_char b = nd ! ht_closeMatch f
         then let f = f\<lparr>ht_closeMatch := Suc (ht_closeMatch f)\<rparr>
              in if ht_closeMatch f = length nd then f\<lparr>ht_skip := [], ht_closeMatch := 0\<rparr> else f
         else if lower_char b = nd ! 0 then f\<lparr>ht_closeMatch := 1\<rparr>
         else f\<lparr>ht_closeMatch := 0\<rparr>)"

definition consumeByte :: "html_state \<Rightarrow> char \<Rightarrow> char option \<times> html_state" where
  "consumeByte f b =
     (if ht_skip f \<noteq> [] then (None, consumeSkippedContent f b)
      else if ht_comment f > 0 then (None, consumeComment f b)
      else if ht_inTag f then (None, consumeTag f b)
      else if b = CHR ''<'' then (None, startTag f)
      else (Some b, f))"

text \<open>\<open>ProcessChunk\<close> around an inner filter: the loop, with the number of bytes consumed.\<close>

fun html_loop :: "'s process_fn \<Rightarrow> html_state \<times> 's \<Rightarrow> nat \<Rightarrow> string \<Rightarrow> (nat option \<times> html_state \<times> 's) result" where
  "html_loop inner (f, s) i [] = Inr (None, f, s)"
| "html_loop inner (f, s) i (b # bs) =
     (case consumeByte f b of
        (None, f) \<Rightarrow> html_loop inner (f, s) (Suc i) bs
      | (Some v, f) \<Rightarrow>
          rbind (inner s [v]) (\<lambda>(_, blocked, s).
            if blocked then Inr (Some (Suc i), f, s) else html_loop inner (f, s) (Suc i) bs))"

definition html_ProcessChunk :: "'s process_fn \<Rightarrow> (html_state \<times> 's) process_fn" where
  "html_ProcessChunk inner fs inp =
     rbind (html_loop inner fs 0 inp) (\<lambda>(stop, fs).
       case stop of Some n \<Rightarrow> Inr (take n inp, True, fs) | None \<Rightarrow> Inr (inp, False, fs))"

text \<open>The wrapped filter has no \<open>Flush\<close> method.\<close>

definition html_Flush :: "(html_state \<times> 's) flush_fn" where
  "html_Flush fs = Inr ([], fs)"

section \<open>The visible text\<close>

fun html_run :: "html_state \<Rightarrow> string \<Rightarrow> html_state" where
  "html_run f [] = f"
| "html_run f (b # bs) = html_run (snd (consumeByte f b)) bs"

fun visible :: "html_state \<Rightarrow> string \<Rightarrow> string" where
  "visible f [] = []"
| "visible f (b # bs) =
     (case consumeByte f b of (None, f) \<Rightarrow> visible f bs | (Some v, f) \<Rightarrow> v # visible f bs)"

lemma html_run_append: "html_run f (a @ b) = html_run (html_run f a) b"
  by (induction a arbitrary: f) auto

lemma visible_append: "visible f (a @ b) = visible f a @ visible (html_run f a) b"
  by (induction a arbitrary: f) (auto split: option.splits prod.splits)

lemma consumeByte_visible: "consumeByte f b = (Some v, f') \<Longrightarrow> v = b \<and> f' = f \<and> b \<noteq> CHR ''<''"
  by (auto simp: consumeByte_def split: if_splits)

text \<open>
  The machine never indexes past the closing tag it looks for: \<open>closeMatch\<close> stays below the
  length of the needle, and a skipped element is a script or a style.
\<close>

definition html_ok :: "html_state \<Rightarrow> bool" where
  "html_ok f = (ht_skip f \<in> {[], ''script'', ''style''} \<and> ht_comment f \<le> 3 \<and>
     (if ht_skip f = [] then True else ht_closeMatch f < length (''</'' @ ht_skip f @ ''>'')) \<and> (ht_quote f \<noteq> None \<longrightarrow> ht_inTag f))"

lemma html_ok_start: "html_ok html_start"
  by (simp add: html_ok_def html_start_def)

lemma consumeTag_ok: "html_ok f \<Longrightarrow> ht_skip f = [] \<Longrightarrow> ht_inTag f \<Longrightarrow> html_ok (consumeTag f b)"
  by (cases "ht_quote f") (auto simp: html_ok_def consumeTag_def finishTag_def Let_def)

lemma consumeComment_ok: "html_ok f \<Longrightarrow> html_ok (consumeComment f b)"
  by (cases "ht_skip f = []") (auto simp: html_ok_def consumeComment_def Let_def)

lemma consumeSkippedContent_ok: "html_ok f \<Longrightarrow> ht_skip f \<noteq> [] \<Longrightarrow> html_ok (consumeSkippedContent f b)"
  by (auto simp: html_ok_def consumeSkippedContent_def Let_def)

lemma consumeByte_ok: "html_ok f \<Longrightarrow> html_ok (snd (consumeByte f b))"
  using consumeTag_ok consumeComment_ok consumeSkippedContent_ok
  by (simp add: consumeByte_def) (simp add: html_ok_def startTag_def)

lemma html_run_ok: "html_ok f \<Longrightarrow> html_ok (html_run f s)"
  by (induction s arbitrary: f) (auto intro: consumeByte_ok)

section \<open>Lifting a filter's contract to the visible text\<close>

definition html_inv :: "('s \<Rightarrow> string \<Rightarrow> string \<Rightarrow> bool) \<Rightarrow> html_state \<times> 's \<Rightarrow> string \<Rightarrow> string \<Rightarrow> bool" where
  "html_inv R fs w e = (e = w \<and> fst fs = html_run html_start w \<and> (\<exists>ie. R (snd fs) (visible html_start w) ie))"

definition html_spec :: "(string \<Rightarrow> string \<Rightarrow> bool \<Rightarrow> bool) \<Rightarrow> string \<Rightarrow> string \<Rightarrow> bool \<Rightarrow> bool" where
  "html_spec spec text out blocked =
     ((\<exists>io. spec (visible html_start text) io blocked) \<and>
      (if blocked
       then prefix out text \<and> out \<noteq> [] \<and> (\<exists>io. spec (visible html_start out) io True) \<and> (\<exists>io. spec (visible html_start (butlast out)) io False)
       else out = text))"

context stream_filter
begin

lemma html_loop_ok:
  assumes "R s (visible html_start pre) ie" "f = html_run html_start pre"
  shows "\<exists>stop f' s'. html_loop process (f, s) i bs = Inr (stop, f', s') \<and>
    (case stop of
       None \<Rightarrow> f' = html_run html_start (pre @ bs) \<and> (\<exists>ie'. R s' (visible html_start (pre @ bs)) ie')
     | Some n \<Rightarrow> \<exists>k<length bs. n = i + Suc k \<and> (\<exists>io. \<forall>rest. spec (visible html_start (pre @ take (Suc k) bs) @ rest) io True) \<and>
         (\<exists>io. spec (visible html_start (pre @ take k bs)) io False))"
  using assms
proof (induction bs arbitrary: pre f s ie i)
  case Nil
  then show ?case by auto
next
  case (Cons b bs)
  obtain v f1 where cb: "consumeByte f b = (v, f1)" by fastforce
  have run: "f1 = html_run html_start (pre @ [b])" using cb Cons.prems(2) by (simp add: html_run_append)
  have vis: "visible html_start (pre @ [b]) = visible html_start pre @ (case v of None \<Rightarrow> [] | Some c \<Rightarrow> [c])"
    using cb Cons.prems(2) by (simp add: visible_append split: option.splits)
  have goon: ?case if ih: "html_loop process (f, s) i (b # bs) = html_loop process (f1, s1) (Suc i) bs"
    "R s1 (visible html_start (pre @ [b])) ie1" for s1 ie1
  proof -
    obtain stop f' s' where l: "html_loop process (f1, s1) (Suc i) bs = Inr (stop, f', s')" and
      r: "case stop of
       None \<Rightarrow> f' = html_run html_start ((pre @ [b]) @ bs) \<and> (\<exists>ie'. R s' (visible html_start ((pre @ [b]) @ bs)) ie')
     | Some n \<Rightarrow> \<exists>k<length bs. n = Suc i + Suc k \<and> (\<exists>io. \<forall>rest. spec (visible html_start ((pre @ [b]) @ take (Suc k) bs) @ rest) io True) \<and>
         (\<exists>io. spec (visible html_start ((pre @ [b]) @ take k bs)) io False)"
      using Cons.IH [OF ih(2) run, of "Suc i"] by blast
    show ?thesis
    proof (cases stop)
      case None
      then show ?thesis using l ih(1) r by (intro exI [of _ stop] exI [of _ f'] exI [of _ s']) simp
    next
      case (Some n)
      then obtain k where k: "k < length bs" "n = Suc i + Suc k"
        "\<exists>io. \<forall>rest. spec (visible html_start ((pre @ [b]) @ take (Suc k) bs) @ rest) io True"
        "\<exists>io. spec (visible html_start ((pre @ [b]) @ take k bs)) io False" using r by auto
      then have "\<exists>k<length (b # bs). n = i + Suc k \<and> (\<exists>io. \<forall>rest. spec (visible html_start (pre @ take (Suc k) (b # bs)) @ rest) io True) \<and>
         (\<exists>io. spec (visible html_start (pre @ take k (b # bs))) io False)"
        by (intro exI [of _ "Suc k"]) simp
      then show ?thesis using l ih(1) Some by (intro exI [of _ stop] exI [of _ f'] exI [of _ s']) (simp only: option.case simp_thms)
    qed
  qed
  show ?case
  proof (cases v)
    case None
    then show ?thesis using goon [of s ie] cb vis Cons.prems(1) by simp
  next
    case (Some c)
    from process_ok [OF Cons.prems(1), of "[c]"] obtain out bl s1 where p: "process s [c] = Inr (out, bl, s1)"
      "if bl then (\<forall>rest. spec (visible html_start pre @ [c] @ rest) (ie @ out) True) \<and> (out = [] \<longrightarrow> (\<exists>s''. flush s1 = Inr ([], s'')))
       else R s1 (visible html_start pre @ [c]) (ie @ out)" by auto
    show ?thesis
    proof (cases bl)
      case False
      then show ?thesis using goon [of s1 "ie @ out"] cb vis p Some by simp
    next
      case True
      have "\<exists>io. spec (visible html_start pre) io False" using flush_ok [OF Cons.prems(1)] by blast
      moreover have "\<forall>rest. spec (visible html_start (pre @ take (Suc 0) (b # bs)) @ rest) (ie @ out) True"
        using p(2) True vis Some by simp
      ultimately have "\<exists>k<length (b # bs). Suc i = i + Suc k \<and> (\<exists>io. \<forall>rest. spec (visible html_start (pre @ take (Suc k) (b # bs)) @ rest) io True) \<and>
         (\<exists>io. spec (visible html_start (pre @ take k (b # bs))) io False)" by (intro exI [of _ 0]) (simp, blast)
      moreover have "html_loop process (f, s) i (b # bs) = Inr (Some (Suc i), f1, s1)" using cb Some p(1) True by simp
      ultimately show ?thesis by (intro exI [of _ "Some (Suc i)"] exI [of _ f1] exI [of _ s1]) (simp only: option.case simp_thms)
    qed
  qed
qed

lemma html_stream_filter: "stream_filter (html_ProcessChunk process) html_Flush (html_inv R) (html_spec spec)"
proof unfold_locales
  fix fs w e and c :: string
  assume inv: "html_inv R fs w e" and c: "c \<noteq> []"
  obtain f s where fs: "fs = (f, s)" by fastforce
  then obtain ie where "R s (visible html_start w) ie" "f = html_run html_start w" "e = w" using inv by (auto simp: html_inv_def)
  from html_loop_ok [OF this(1,2), of 0 c] obtain stop f' s' where l: "html_loop process (f, s) 0 c = Inr (stop, f', s')"
    and r: "case stop of
       None \<Rightarrow> f' = html_run html_start (w @ c) \<and> (\<exists>ie'. R s' (visible html_start (w @ c)) ie')
     | Some n \<Rightarrow> \<exists>k<length c. n = 0 + Suc k \<and> (\<exists>io. \<forall>rest. spec (visible html_start (w @ take (Suc k) c) @ rest) io True) \<and>
         (\<exists>io. spec (visible html_start (w @ take k c)) io False)" by blast
  let ?goal = "\<lambda>out b fs'. html_ProcessChunk process fs c = Inr (out, b, fs') \<and>
    (if b then (\<forall>rest. html_spec spec (w @ c @ rest) (e @ out) True) \<and> (out = [] \<longrightarrow> (\<exists>s''. html_Flush fs' = Inr ([], s'')))
     else html_inv R fs' (w @ c) (e @ out))"
  show "\<exists>out b fs'. ?goal out b fs'"
  proof (cases stop)
    case None
    then have "?goal c False (f', s')" using l r fs \<open>e = w\<close> by (auto simp: html_ProcessChunk_def html_inv_def)
    then show ?thesis by blast
  next
    case (Some n)
    then obtain k io io' where k: "k < length c" "n = Suc k" "\<And>rest. spec (visible html_start (w @ take (Suc k) c) @ rest) io True"
      "spec (visible html_start (w @ take k c)) io' False" using r by auto
    let ?o = "w @ take (Suc k) c"
    have bl: "butlast ?o = w @ take k c" using k(1) by (simp add: butlast_append butlast_take) (cases c; simp)
    have "html_spec spec (w @ c @ rest) ?o True" for rest
    proof -
      have split: "w @ c @ rest = ?o @ drop (Suc k) c @ rest" by simp
      have "spec (visible html_start (w @ c @ rest)) io True" unfolding split visible_append [of _ ?o] by (rule k(3))
      moreover have "spec (visible html_start ?o) io True" using k(3) [of "[]"] by simp
      moreover have "?o \<noteq> []" using k(1) by (cases c) auto
      moreover have "prefix ?o (w @ c @ rest)" unfolding split by simp
      ultimately show ?thesis using k(4) bl unfolding html_spec_def by auto
    qed
    then have "?goal (take n c) True (f', s')"
      using l fs Some k(1,2) c \<open>e = w\<close> by (simp add: html_ProcessChunk_def html_Flush_def)
    then show ?thesis by blast
  qed
next
  fix fs w e assume inv: "html_inv R fs w e"
  then obtain ie where "R (snd fs) (visible html_start w) ie" "e = w" by (auto simp: html_inv_def)
  from flush_ok [OF this(1)] this(2) show "\<exists>out s'. html_Flush fs = Inr (out, s') \<and> html_spec spec w (e @ out) False"
    by (auto simp: html_Flush_def html_spec_def)
qed

end

interpretation html_phrase: stream_filter "html_ProcessChunk ps_ProcessChunk" html_Flush
    "html_inv (phrase_inv c es)" "html_spec (phrase_spec es (word_of_int (pf_threshold c)))" for c es
  by (rule phrase.html_stream_filter)

section \<open>Properties\<close>

lemma hard_spec_occurs:
  assumes "phrase_spec (phrase_entries phrases [] []) thr w io b"
  shows "b = (\<exists>p\<in>set phrases. normalizePhrase p \<noteq> [] \<and> sublist (normalizePhrase p) (to_lower w))"
proof -
  have stop: "stops_at (phrase_entries phrases [] []) thr v = (\<exists>p\<in>set phrases. normalizePhrase p \<noteq> [] \<and> suffix (normalizePhrase p) v)" for v
    using stops_at_hard_only by (simp add: phrase_entries_def)
  show ?thesis using assms unfolding phrase_spec_def stop occurs_iff_hit
    by (cases b) (simp_all only: if_True if_False, blast+)
qed



text \<open>
  C20: Type invariant of the HTML scanner: after any input the skipped element is none, a script or a style, the
  comment state is at most 3, an open quote is inside a tag, and \<open>closeMatch\<close> indexes inside the closing tag looked
  for, so \<open>needle[f.closeMatch]\<close> cannot be out of range.
\<close>

theorem html_state_invariant: "html_ok (html_run html_start s)"
  by (rule html_run_ok [OF html_ok_start])

text \<open>
  The scanner loses sight of text that a browser shows: a stray apostrophe inside a tag opens a quote that hides everything up to the next
  apostrophe, a closing script tag with a space before its bracket does not end the skipped element, while a bracket inside a comment ends the comment.
\<close>

theorem html_evasion:
  "visible html_start (''<p '' @ [CHR 0x27] @ ''>bad'') = [] \<and>
   visible html_start ''<script></script >bad'' = [] \<and>
   visible html_start ''<!-- a > b -->'' = '' b -->''"
  by code_simp

end
