(* ===== verification/Substitution_Filter.thy ===== *)
theory Substitution_Filter
  imports Html_Filter
begin

text \<open>
  The substitution filter of \<open>proxy/substitution_filter.go\<close>: literal and
  regular-expression replacements over a sliding window, optionally keeping the length or stopping
  the stream on a match.  Compiled expressions are a parameter; the laws used of
  them are those \<open>FindAllSubmatchIndex\<close> documents.  The loop that replaces a
  literal is shown to be the usual leftmost replacement, and a length-preserving
  filter to keep the length of every stream.
\<close>

section \<open>Rules\<close>

record sub_regexp = regexp +
  rx_find_all :: "string \<Rightarrow> nat list list"
  rx_expand :: "string \<Rightarrow> string \<Rightarrow> nat list \<Rightarrow> string"

record subRule =
  sr_search :: string
  sr_replace :: string

record RegexSubstitutionRule =
  rr_Pattern :: string
  rr_Replace :: string
  rr_MaxWindowBytes :: int
  rr_Source :: string

record regexSubRule =
  xr_re :: sub_regexp
  xr_replace :: string
  xr_maxWindow :: nat

record SubstitutionFilter =
  sf_rules :: "subRule list"
  sf_regexRules :: "regexSubRule list"
  sf_LengthPreserved :: bool

definition defaultRegexSubstitutionWindow :: nat where
  "defaultRegexSubstitutionWindow = 64 * 1024"

definition maxRegexSubstitutionWindow :: nat where
  "maxRegexSubstitutionWindow = 1024 * 1024"

fun compile_sub_regex :: "(string \<Rightarrow> sub_regexp option) \<Rightarrow> RegexSubstitutionRule list \<Rightarrow> regexSubRule list result" where
  "compile_sub_regex compile [] = Inr []"
| "compile_sub_regex compile (rule # rest) =
     (if rr_Pattern rule = [] then compile_sub_regex compile rest
      else case compile (rr_Pattern rule) of
             None \<Rightarrow> Inl (CompileRegex (rr_Source rule) (rr_Pattern rule))
           | Some re \<Rightarrow>
               (let maxWindow = (if rr_MaxWindowBytes rule \<le> 0 then int defaultRegexSubstitutionWindow else rr_MaxWindowBytes rule)
                in if maxWindow > int maxRegexSubstitutionWindow then Inl (WindowTooLarge (rr_Pattern rule) maxWindow)
                   else rbind (compile_sub_regex compile rest) (\<lambda>xs.
                     Inr (\<lparr>xr_re = re, xr_replace = rr_Replace rule, xr_maxWindow = nat maxWindow\<rparr> # xs))))"

text \<open>The map of literal rules is the list of its entries in the order of the iteration.\<close>

definition NewSubstitutionFilterWithRegex ::
  "(string \<Rightarrow> sub_regexp option) \<Rightarrow> (string \<times> string) list \<Rightarrow> RegexSubstitutionRule list \<Rightarrow> SubstitutionFilter result" where
  "NewSubstitutionFilterWithRegex compile rules regexRules =
     rbind (compile_sub_regex compile regexRules) (\<lambda>xs.
       Inr \<lparr>sf_rules = map (\<lambda>(s, r). \<lparr>sr_search = s, sr_replace = r\<rparr>) (filter (\<lambda>(s, r). s \<noteq> []) rules),
            sf_regexRules = xs, sf_LengthPreserved = False\<rparr>)"

definition HasRules :: "SubstitutionFilter \<Rightarrow> bool" where
  "HasRules f = (sf_rules f \<noteq> [] \<or> sf_regexRules f \<noteq> [])"

record multiSubstitutionStreamFilter =
  su_rules :: "subRule list"
  su_regexRules :: "regexSubRule list"
  su_pending :: string
  su_maxWindow :: nat
  su_onMatch :: "(string \<times> string) list"
  su_lengthPreserved :: bool
  su_BlockOnMatch :: bool
  su_matchedError :: "gate_error option"

text \<open>The field \<open>su_onMatch\<close> is the log of the calls of the callback.\<close>

definition sub_window :: "SubstitutionFilter \<Rightarrow> nat" where
  "sub_window f =
     (let w = foldl (\<lambda>w r. if xr_maxWindow r > w then xr_maxWindow r else w) 0 (sf_regexRules f);
          w = foldl (\<lambda>w r. if length (sr_search r) > w then length (sr_search r) else w) w (sf_rules f)
      in if w = 0 then defaultRegexSubstitutionWindow else w)"

definition SubstitutionFilter_NewFilter :: "SubstitutionFilter \<Rightarrow> multiSubstitutionStreamFilter option" where
  "SubstitutionFilter_NewFilter f =
     (if \<not> HasRules f then None
      else Some \<lparr>su_rules = sf_rules f, su_regexRules = sf_regexRules f, su_pending = [], su_maxWindow = sub_window f,
        su_onMatch = [], su_lengthPreserved = sf_LengthPreserved f, su_BlockOnMatch = False, su_matchedError = None\<rparr>)"

section \<open>Applying the rules\<close>

definition padOrTruncate :: "string \<Rightarrow> nat \<Rightarrow> string" where
  "padOrTruncate replace targetLen =
     (if length replace = targetLen then replace
      else if length replace > targetLen then take targetLen replace
      else replace @ replicate (targetLen - length replace) star)"

text \<open>
  The loop that replaces one literal; the result says whether it matched.  An empty literal would never let it end: \<open>None\<close>.
\<close>

fun replace_loop :: "nat \<Rightarrow> string \<Rightarrow> string \<Rightarrow> string \<Rightarrow> (bool \<times> string) option" where
  "replace_loop 0 search repl pending = None"
| "replace_loop (Suc fuel) search repl pending =
     (case index_of pending search of
        None \<Rightarrow> Some (False, pending)
      | Some idx \<Rightarrow>
          map_option (\<lambda>(_, rest). (True, take idx pending @ repl @ rest))
            (replace_loop fuel search repl (drop (idx + length search) pending)))"

definition ErrSecretExfiltrationBlocked :: gate_error where
  "ErrSecretExfiltrationBlocked = Failure ''secret exfiltration blocked''"

text \<open>Both loops return whether the rules stopped on a match, the bytes and the filter.\<close>

fun apply_literals :: "multiSubstitutionStreamFilter \<Rightarrow> string \<Rightarrow> subRule list \<Rightarrow> (bool \<times> string \<times> multiSubstitutionStreamFilter) option" where
  "apply_literals f out [] = Some (False, out, f)"
| "apply_literals f out (r # rs) =
     (let target = (if su_lengthPreserved f then padOrTruncate (sr_replace r) (length (sr_search r)) else sr_replace r)
      in case replace_loop (Suc (length out)) (sr_search r) target out of
           None \<Rightarrow> None
         | Some (False, _) \<Rightarrow> apply_literals f out rs
         | Some (True, out') \<Rightarrow>
             (if su_BlockOnMatch f then Some (True, out, f\<lparr>su_matchedError := Some ErrSecretExfiltrationBlocked\<rparr>)
              else apply_literals (f\<lparr>su_onMatch := su_onMatch f @ [(''literal'', sr_search r)]\<rparr>) out' rs))"

definition replace_match :: "sub_regexp \<Rightarrow> string \<Rightarrow> nat list \<Rightarrow> string \<Rightarrow> string" where
  "replace_match re repl loc out =
     (let s = loc ! 0; e = loc ! 1
      in take s out @ padOrTruncate (rx_expand re repl out loc) (e - s) @ drop e out)"

fun apply_regexes :: "multiSubstitutionStreamFilter \<Rightarrow> string \<Rightarrow> regexSubRule list \<Rightarrow> bool \<times> string \<times> multiSubstitutionStreamFilter" where
  "apply_regexes f out [] = (False, out, f)"
| "apply_regexes f out (r # rs) =
     (if rx_match (xr_re r) out
      then if su_BlockOnMatch f then (True, out, f\<lparr>su_matchedError := Some ErrSecretExfiltrationBlocked\<rparr>)
           else let out' = (if su_lengthPreserved f
                            then foldr (replace_match (xr_re r) (xr_replace r)) (rx_find_all (xr_re r) out) out
                            else rx_replace_all (xr_re r) out (xr_replace r))
                in apply_regexes (f\<lparr>su_onMatch := su_onMatch f @ [(''regex'', rx_string (xr_re r))]\<rparr>) out' rs
      else apply_regexes f out rs)"

definition applyRules :: "multiSubstitutionStreamFilter \<Rightarrow> string \<Rightarrow> (string \<times> multiSubstitutionStreamFilter) option" where
  "applyRules f inp =
     (case apply_literals f inp (su_rules f) of
        None \<Rightarrow> None
      | Some (True, _, f) \<Rightarrow> Some (inp, f)
      | Some (False, out, f) \<Rightarrow>
          (case apply_regexes f out (su_regexRules f) of
             (True, _, f) \<Rightarrow> Some (inp, f)
           | (False, out, f) \<Rightarrow> Some (out, f)))"

definition su_ProcessChunk :: "multiSubstitutionStreamFilter process_fn" where
  "su_ProcessChunk f inp =
     (case su_matchedError f of
        Some e \<Rightarrow> Inl e
      | None \<Rightarrow>
          (if inp = [] then Inr ([], False, f)
           else let f = f\<lparr>su_pending := su_pending f @ inp\<rparr>
                in if length (su_pending f) \<le> su_maxWindow f then Inr ([], False, f)
                   else let emit = length (su_pending f) - su_maxWindow f
                        in rbind (no_panic (applyRules f (take emit (su_pending f)))) (\<lambda>(chunk, f).
                             case su_matchedError f of
                               Some e \<Rightarrow> Inl e
                             | None \<Rightarrow> Inr (chunk, False, f\<lparr>su_pending := drop emit (su_pending f)\<rparr>))))"

definition su_Flush :: "multiSubstitutionStreamFilter flush_fn" where
  "su_Flush f =
     (case su_matchedError f of
        Some e \<Rightarrow> Inl e
      | None \<Rightarrow>
          (if su_pending f = [] then Inr ([], f)
           else rbind (no_panic (applyRules f (su_pending f))) (\<lambda>(chunk, f).
                  case su_matchedError f of
                    Some e \<Rightarrow> Inl e
                  | None \<Rightarrow> Inr (chunk, f\<lparr>su_pending := []\<rparr>))))"

section \<open>Literal replacement\<close>

text \<open>The reference: replace from left to right, without overlaps.\<close>

function subst_ref :: "string \<Rightarrow> string \<Rightarrow> string \<Rightarrow> string" where
  "subst_ref search repl s =
     (if search = [] \<or> s = [] then s
      else if prefix search s then repl @ subst_ref search repl (drop (length search) s)
      else hd s # subst_ref search repl (tl s))"
  by pat_completeness auto
termination
  by (relation "measure (\<lambda>(search, repl, s). length s)") (auto simp: neq_Nil_conv)

declare subst_ref.simps [simp del]

lemma index_of_Some:
  assumes "index_of s p = Some i"
  shows "i + length p \<le> length s" "prefix p (drop i s)" "\<And>j. j < i \<Longrightarrow> \<not> prefix p (drop j s)"
  using assms
proof (induction s arbitrary: i)
  case (Cons x s)
  {
    case 1
    then show ?case using Cons.IH(1) by (auto simp: index_of.simps [of "x # s"] split: if_splits dest: prefix_length_le)
  next
    case 2
    then show ?case using Cons.IH(2) by (auto simp: index_of.simps [of "x # s"] split: if_splits)
  next
    case (3 j)
    then show ?case using Cons.IH(3) by (cases j) (auto simp: index_of.simps [of "x # s"] split: if_splits)
  }
qed (auto simp: index_of.simps [of "[]"] split: if_splits)

lemma index_of_None: "index_of s p = None \<Longrightarrow> \<not> prefix p (drop i s)"
proof (induction s arbitrary: i)
  case (Cons x s)
  then show ?case by (cases i) (auto simp: index_of.simps [of "x # s"] split: if_splits)
qed (auto simp: index_of.simps [of "[]"] split: if_splits)

lemma subst_ref_skip:
  assumes "search \<noteq> []" "\<And>j. j < i \<Longrightarrow> \<not> prefix search (drop j s)" "i \<le> length s"
  shows "subst_ref search repl s = take i s @ subst_ref search repl (drop i s)"
  using assms(2,3)
proof (induction i arbitrary: s)
  case (Suc i)
  then obtain x t where s: "s = x # t" by (cases s) auto
  have "\<not> prefix search s" using Suc.prems(1) [of 0] by simp
  then have "subst_ref search repl s = x # subst_ref search repl t" using s assms(1) by (simp add: subst_ref.simps [of search repl "x # t"])
  moreover have "subst_ref search repl t = take i t @ subst_ref search repl (drop i t)"
    using Suc.prems(1) [of "Suc j" for j] Suc.prems(2) s by (intro Suc.IH) auto
  ultimately show ?case using s by simp
qed simp

lemma replace_loop_ref:
  assumes "search \<noteq> []" "length s < fuel"
  shows "replace_loop fuel search repl s = Some (index_of s search \<noteq> None, subst_ref search repl s)"
  using assms(2)
proof (induction fuel arbitrary: s)
  case (Suc fuel)
  show ?case
  proof (cases "index_of s search")
    case None
    then have "subst_ref search repl s = s"
      using subst_ref_skip [OF assms(1), of "length s" s repl] index_of_None by (simp add: subst_ref.simps [of search repl "[]"])
    then show ?thesis using None by simp
  next
    case (Some i)
    note ix = index_of_Some [OF Some]
    let ?r = "drop (i + length search) s"
    have "length ?r < fuel" using Suc.prems assms(1) ix(1) by (cases search) auto
    then have ih: "replace_loop fuel search repl ?r = Some (index_of ?r search \<noteq> None, subst_ref search repl ?r)" by (rule Suc.IH)
    have "drop i s \<noteq> []" using ix(2) assms(1) by auto
    then have "subst_ref search repl (drop i s) = repl @ subst_ref search repl ?r"
      using ix(2) assms(1) by (simp add: subst_ref.simps [of search repl "drop i s"] add.commute)
    moreover have "subst_ref search repl s = take i s @ subst_ref search repl (drop i s)"
      using subst_ref_skip [OF assms(1)] ix by simp
    ultimately show ?thesis using Some ih by simp
  qed
qed simp

declare replace_loop.simps [simp del]

lemma subst_ref_length: "length repl = length search \<Longrightarrow> length (subst_ref search repl s) = length s"
proof (induction search repl s rule: subst_ref.induct)
  case (1 search repl s)
  show ?case
  proof (cases "search = [] \<or> s = []")
    case False
    then show ?thesis
      using 1 by (cases "prefix search s") (auto simp: subst_ref.simps [of search repl s] dest: prefix_length_le)
  qed (simp add: subst_ref.simps [of search repl s])
qed

lemma padOrTruncate_length [simp]: "length (padOrTruncate r n) = n"
  by (simp add: padOrTruncate_def)

section \<open>Length-preserving streams\<close>

text \<open>What \<open>FindAllSubmatchIndex\<close> promises of the matches it reports.\<close>

definition find_all_lawful :: "sub_regexp \<Rightarrow> bool" where
  "find_all_lawful re = (\<forall>s. \<forall>loc\<in>set (rx_find_all re s). 2 \<le> length loc \<and> loc ! 0 \<le> loc ! 1 \<and> loc ! 1 \<le> length s)"

definition sub_ready :: "multiSubstitutionStreamFilter \<Rightarrow> bool" where
  "sub_ready f = (su_lengthPreserved f \<and> \<not> su_BlockOnMatch f \<and> su_matchedError f = None \<and>
     (\<forall>r\<in>set (su_rules f). sr_search r \<noteq> []) \<and> (\<forall>r\<in>set (su_regexRules f). find_all_lawful (xr_re r)))"

lemma sub_ready_onMatch [simp]: "sub_ready (f\<lparr>su_onMatch := l\<rparr>) = sub_ready f"
  by (simp add: sub_ready_def)

lemma apply_literals_length:
  assumes "\<forall>r\<in>set rs. sr_search r \<noteq> []" "su_lengthPreserved f" "\<not> su_BlockOnMatch f"
  shows "\<exists>out' l. apply_literals f out rs = Some (False, out', f\<lparr>su_onMatch := l\<rparr>) \<and> length out' = length out"
  using assms
proof (induction rs arbitrary: f out)
  case Nil
  have "f = f\<lparr>su_onMatch := su_onMatch f\<rparr>" by simp
  then show ?case by (metis apply_literals.simps(1))
next
  case (Cons r rs)
  let ?t = "padOrTruncate (sr_replace r) (length (sr_search r))"
  have len: "length (subst_ref (sr_search r) ?t out) = length out" by (simp add: subst_ref_length)
  have rl: "replace_loop (Suc (length out)) (sr_search r) ?t out = Some (index_of out (sr_search r) \<noteq> None, subst_ref (sr_search r) ?t out)"
    using replace_loop_ref [of "sr_search r" out "Suc (length out)" ?t] Cons.prems(1) by simp
  show ?case
  proof (cases "index_of out (sr_search r)")
    case None
    then have "apply_literals f out (r # rs) = apply_literals f out rs" using rl Cons.prems(2) by simp
    then show ?thesis using Cons.IH [of f out] Cons.prems by simp
  next
    case (Some i)
    let ?f = "f\<lparr>su_onMatch := su_onMatch f @ [(''literal'', sr_search r)]\<rparr>" and ?o = "subst_ref (sr_search r) ?t out"
    have "apply_literals f out (r # rs) = apply_literals ?f ?o rs" using Some rl Cons.prems(2,3) by simp
    moreover obtain out' l where "apply_literals ?f ?o rs = Some (False, out', ?f\<lparr>su_onMatch := l\<rparr>)" "length out' = length ?o"
      using Cons.IH [of ?f ?o] Cons.prems by auto
    ultimately show ?thesis using len by auto
  qed
qed

lemma foldr_replace_match_length:
  "\<forall>loc\<in>set locs. loc ! 0 \<le> loc ! 1 \<and> loc ! 1 \<le> length out \<Longrightarrow> length (foldr (replace_match re repl) locs out) = length out"
  by (induction locs) (auto simp: replace_match_def Let_def)

lemma apply_regexes_length:
  assumes "\<forall>r\<in>set rs. find_all_lawful (xr_re r)" "su_lengthPreserved f" "\<not> su_BlockOnMatch f"
  shows "\<exists>out' l. apply_regexes f out rs = (False, out', f\<lparr>su_onMatch := l\<rparr>) \<and> length out' = length out"
  using assms
proof (induction rs arbitrary: f out)
  case Nil
  have "f = f\<lparr>su_onMatch := su_onMatch f\<rparr>" by simp
  then show ?case by (metis apply_regexes.simps(1))
next
  case (Cons r rs)
  show ?case
  proof (cases "rx_match (xr_re r) out")
    case False
    then show ?thesis using Cons.IH [of f out] Cons.prems by simp
  next
    case True
    let ?f = "f\<lparr>su_onMatch := su_onMatch f @ [(''regex'', rx_string (xr_re r))]\<rparr>"
    let ?o = "foldr (replace_match (xr_re r) (xr_replace r)) (rx_find_all (xr_re r) out) out"
    have "length ?o = length out" using Cons.prems(1) by (intro foldr_replace_match_length) (auto simp: find_all_lawful_def)
    moreover have "apply_regexes f out (r # rs) = apply_regexes ?f ?o rs" using True Cons.prems(2,3) by (simp add: Let_def)
    moreover obtain out' l where "apply_regexes ?f ?o rs = (False, out', ?f\<lparr>su_onMatch := l\<rparr>)" "length out' = length ?o"
      using Cons.IH [of ?f ?o] Cons.prems by auto
    ultimately show ?thesis by auto
  qed
qed

lemma applyRules_length:
  assumes "sub_ready f"
  shows "\<exists>out l. applyRules f inp = Some (out, f\<lparr>su_onMatch := l\<rparr>) \<and> length out = length inp"
proof -
  have r: "\<forall>r\<in>set (su_rules f). sr_search r \<noteq> []" "\<forall>r\<in>set (su_regexRules f). find_all_lawful (xr_re r)"
    "su_lengthPreserved f" "\<not> su_BlockOnMatch f" using assms by (auto simp: sub_ready_def)
  obtain o1 l1 where a: "apply_literals f inp (su_rules f) = Some (False, o1, f\<lparr>su_onMatch := l1\<rparr>)" "length o1 = length inp"
    using apply_literals_length [OF r(1,3,4)] by blast
  obtain o2 l2 where "apply_regexes (f\<lparr>su_onMatch := l1\<rparr>) o1 (su_regexRules f) = (False, o2, f\<lparr>su_onMatch := l2\<rparr>)" "length o2 = length o1"
    using apply_regexes_length [OF r(2), of "f\<lparr>su_onMatch := l1\<rparr>" o1] r(3,4) by auto
  then show ?thesis using a by (auto simp: applyRules_def)
qed

definition sub_inv :: "multiSubstitutionStreamFilter \<Rightarrow> string \<Rightarrow> string \<Rightarrow> bool" where
  "sub_inv f w e = (sub_ready f \<and> length e + length (su_pending f) = length w)"

definition sub_spec :: "string \<Rightarrow> string \<Rightarrow> bool \<Rightarrow> bool" where
  "sub_spec text out blocked = (\<not> blocked \<and> length out = length text)"

interpretation subst: stream_filter su_ProcessChunk su_Flush sub_inv sub_spec
proof unfold_locales
  fix f w e and c :: string
  assume inv: "sub_inv f w e" and c: "c \<noteq> []"
  let ?f = "f\<lparr>su_pending := su_pending f @ c\<rparr>" and ?n = "length (su_pending f @ c) - su_maxWindow f"
  have rd: "sub_ready ?f" "su_matchedError f = None" using inv by (auto simp: sub_inv_def sub_ready_def)
  let ?goal = "\<lambda>out b f'. su_ProcessChunk f c = Inr (out, b, f') \<and>
      (if b then (\<forall>rest. sub_spec (w @ c @ rest) (e @ out) True) \<and> (out = [] \<longrightarrow> (\<exists>s''. su_Flush f' = Inr ([], s'')))
       else sub_inv f' (w @ c) (e @ out))"
  show "\<exists>out b f'. ?goal out b f'"
  proof (cases "length (su_pending f @ c) \<le> su_maxWindow f")
    case True
    then have "?goal [] False ?f" using rd c inv by (simp add: su_ProcessChunk_def sub_inv_def)
    then show ?thesis by blast
  next
    case False
    obtain out l where ar: "applyRules ?f (take ?n (su_pending f @ c)) = Some (out, ?f\<lparr>su_onMatch := l\<rparr>)" "length out = length (take ?n (su_pending f @ c))"
      using applyRules_length [OF rd(1)] by blast
    have "?goal out False (?f\<lparr>su_onMatch := l, su_pending := drop ?n (su_pending f @ c)\<rparr>)"
      using rd c inv ar False by (auto simp: su_ProcessChunk_def sub_inv_def sub_ready_def Let_def)
    then show ?thesis by blast
  qed
next
  fix f w e assume inv: "sub_inv f w e"
  then obtain out l where "applyRules f (su_pending f) = Some (out, f\<lparr>su_onMatch := l\<rparr>)" "length out = length (su_pending f)"
    using applyRules_length unfolding sub_inv_def by blast
  then show "\<exists>out s'. su_Flush f = Inr (out, s') \<and> sub_spec w (e @ out) False"
    using inv by (auto simp: su_Flush_def sub_inv_def sub_spec_def sub_ready_def)
qed

section \<open>Properties\<close>

text \<open>
  C26: The literal replacement loop always ends, for the non-empty literals the constructor keeps, and computes the leftmost
  non-overlapping replacement; it reports a match exactly when the literal occurs.
\<close>

theorem replace_loop_leftmost:
  assumes "search \<noteq> []"
  shows "replace_loop (Suc (length s)) search repl s = Some (sublist search s, subst_ref search repl s)"
proof -
  have "(index_of s search \<noteq> None) = sublist search s"
  proof
    assume "index_of s search \<noteq> None"
    then obtain i where "prefix search (drop i s)" using index_of_Some(2) by blast
    then show "sublist search s" using prefix_imp_sublist sublist_drop sublist_order.order.trans by blast
  next
    assume "sublist search s"
    then obtain a b where "s = a @ search @ b" by (auto simp: sublist_def)
    then have "prefix search (drop (length a) s)" by simp
    then show "index_of s search \<noteq> None" using index_of_None by blast
  qed
  then show ?thesis using replace_loop_ref [OF assms, of s "Suc (length s)" repl] by simp
qed

theorem replace_loop_leftmost_witness:
  "replace_loop (Suc (length ''aabaab'')) ''aab'' ''x'' ''aabaab'' = Some (True, ''xx'')"
  using replace_loop_leftmost [of "''aab''" "''aabaab''" "''x''"] by (simp, code_simp)

text \<open>
  C27: In length-preserving mode the delivered stream has exactly the length of the original one, for any literal and regular expression rules, any chunks and any buffer,
  given that the matches an expression reports lie inside the text; so a Content-Length sent before the body stays true.
\<close>

theorem substitution_keeps_length:
  assumes "NewSubstitutionFilterWithRegex compile rules regexRules = Inr sf" "HasRules sf"
    and "\<forall>r\<in>set (sf_regexRules sf). find_all_lawful (xr_re r)" "eof_script src" "0 < plen"
  shows "\<exists>f out r. SubstitutionFilter_NewFilter (sf\<lparr>sf_LengthPreserved := True\<rparr>) = Some f \<and>
    copyBufferPooled su_ProcessChunk su_Flush plen (newInspectReader src f) = ((None, out), r) \<and>
    \<not> ir_blocked r \<and> length out = length (script_text src)"
proof -
  obtain f where f: "SubstitutionFilter_NewFilter (sf\<lparr>sf_LengthPreserved := True\<rparr>) = Some f"
    using assms(2) by (simp add: SubstitutionFilter_NewFilter_def HasRules_def)
  have "\<forall>r\<in>set (sf_rules sf). sr_search r \<noteq> []"
    using assms(1) by (auto simp: NewSubstitutionFilterWithRegex_def rbind_eq_Inr)
  then have "sub_inv f [] []" using f assms(3) by (auto simp: SubstitutionFilter_NewFilter_def sub_inv_def sub_ready_def split: if_splits)
  from subst.copy_spec [OF this assms(4,5)] f show ?thesis unfolding sub_spec_def by blast
qed

definition x_regexp :: sub_regexp where
  "x_regexp = \<lparr>rx_string = ''x'', rx_match = (\<lambda>s. CHR ''x'' \<in> set s), rx_replace_all = (\<lambda>s r. s),
     rx_find_all = (\<lambda>s. map (\<lambda>i. [i, Suc i]) (filter (\<lambda>i. s ! i = CHR ''x'') [0..<length s])), rx_expand = (\<lambda>t s loc. t)\<rparr>"

theorem substitution_keeps_length_witness:
  "\<exists>f out r. SubstitutionFilter_NewFilter
      \<lparr>sf_rules = [\<lparr>sr_search = ''key'', sr_replace = ''-''\<rparr>],
       sf_regexRules = [\<lparr>xr_re = x_regexp, xr_replace = ''yy'', xr_maxWindow = 4\<rparr>], sf_LengthPreserved = True\<rparr> = Some f \<and>
    copyBufferPooled su_ProcessChunk su_Flush 8 (newInspectReader [Read_result ''a key x'' None] f) = ((None, out), r) \<and> length out = 7"
proof -
  have re: "find_all_lawful x_regexp" by (auto simp: find_all_lawful_def x_regexp_def)
  have "NewSubstitutionFilterWithRegex (\<lambda>_. Some x_regexp) [(''key'', ''-'')]
      [\<lparr>rr_Pattern = ''x'', rr_Replace = ''yy'', rr_MaxWindowBytes = 4, rr_Source = []\<rparr>] =
    Inr \<lparr>sf_rules = [\<lparr>sr_search = ''key'', sr_replace = ''-''\<rparr>],
       sf_regexRules = [\<lparr>xr_re = x_regexp, xr_replace = ''yy'', xr_maxWindow = 4\<rparr>], sf_LengthPreserved = False\<rparr>"
    by (simp add: NewSubstitutionFilterWithRegex_def defaultRegexSubstitutionWindow_def maxRegexSubstitutionWindow_def)
  from substitution_keeps_length [OF this, of "[Read_result ''a key x'' None]" 8] re show ?thesis
    by (auto simp: HasRules_def script_text_def eval_nat_numeral)
qed

text \<open>
  The window is cut without looking for a match across the cut.  With the rule for \<open>ab\<close> the text \<open>abx\<close>, which starts with the literal, is delivered
  untouched: its first byte leaves the window before the second one is looked at together with it.  With \<open>BlockOnMatch\<close> the same stream is let through without an error.
\<close>

theorem substitution_misses_straddling:
  "(let f = \<lparr>su_rules = [\<lparr>sr_search = ''ab'', sr_replace = ''**''\<rparr>], su_regexRules = [], su_pending = [], su_maxWindow = 2, su_onMatch = [],
      su_lengthPreserved = False, su_BlockOnMatch = False, su_matchedError = None\<rparr>
    in (case NewSubstitutionFilterWithRegex (\<lambda>_. None) [(''ab'', ''**'')] [] of Inr sf \<Rightarrow> SubstitutionFilter_NewFilter sf | Inl _ \<Rightarrow> None) = Some f \<and>
       fst (copyBufferPooled su_ProcessChunk su_Flush 8 (newInspectReader [Read_result ''abx'' None] f)) = (None, ''abx'') \<and>
       fst (copyBufferPooled su_ProcessChunk su_Flush 8 (newInspectReader [Read_result ''abx'' None] (f\<lparr>su_BlockOnMatch := True\<rparr>))) = (None, ''abx''))"
proof -
  let ?f = "\<lambda>b. \<lparr>su_rules = [\<lparr>sr_search = ''ab'', sr_replace = ''**''\<rparr>], su_regexRules = [], su_pending = [], su_maxWindow = 2, su_onMatch = [],
      su_lengthPreserved = False, su_BlockOnMatch = b, su_matchedError = None\<rparr>"
  have "fst (copyBufferPooled su_ProcessChunk su_Flush 8 (newInspectReader [Read_result ''abx'' None] (?f False))) = (None, ''abx'')"
    "fst (copyBufferPooled su_ProcessChunk su_Flush 8 (newInspectReader [Read_result ''abx'' None] (?f True))) = (None, ''abx'')"
    by code_simp+
  then show ?thesis
    by (simp add: NewSubstitutionFilterWithRegex_def SubstitutionFilter_NewFilter_def HasRules_def sub_window_def)
qed

end
