(* ===== verification/Content_Types.thy ===== *)
theory Content_Types
  imports Go_Lib
begin

text \<open>
  The predicates of \<open>proxy/relay.go\<close> that decide, from the method, the
  content type and the encoding, whether a body is looked at, altered or left
  alone.
\<close>

definition media_type :: "string \<Rightarrow> string" where
  "media_type ct = to_lower (trim_space (takeWhile (\<lambda>c. c \<noteq> CHR '';'') ct))"

definition normalizeContentEncoding :: "string \<Rightarrow> string" where
  "normalizeContentEncoding encoding = to_lower (trim_space encoding)"

definition isSupportedInspectEncoding :: "string \<Rightarrow> bool" where
  "isSupportedInspectEncoding encoding =
     (normalizeContentEncoding encoding \<in> set [[], ''identity'', ''gzip'', ''x-gzip'', ''deflate'', ''br'', ''zstd''])"

definition isStructuredStreamContentType :: "string \<Rightarrow> bool" where
  "isStructuredStreamContentType mt = (mt = ''text/event-stream'')"

definition isMutableContentType :: "string \<Rightarrow> bool" where
  "isMutableContentType ct =
     (if ct = [] then False
      else let mt = media_type ct
           in if isStructuredStreamContentType mt then False
              else if prefix ''text/'' mt then True
              else if sublist ''json'' mt \<or> sublist ''xml'' mt then True
              else mt \<in> set [''application/javascript'', ''application/x-javascript'', ''application/ecmascript'',
                     ''application/x-www-form-urlencoded'', ''application/grpc-web-text'', ''application/x-ndjson''])"

definition isScriptOrStyleContentType :: "string \<Rightarrow> bool" where
  "isScriptOrStyleContentType ct =
     (media_type ct \<in> set [''application/javascript'', ''application/x-javascript'', ''application/ecmascript'',
        ''text/javascript'', ''text/ecmascript'', ''text/css''])"

definition isFilterMutableResponseType :: "string \<Rightarrow> bool" where
  "isFilterMutableResponseType ct = (if \<not> isMutableContentType ct then False else \<not> isScriptOrStyleContentType ct)"

definition isHTMLContentType :: "string \<Rightarrow> bool" where
  "isHTMLContentType ct = (media_type ct \<in> set [''text/html'', ''application/xhtml+xml''])"

definition isMutableRequestContentType :: "string \<Rightarrow> bool" where
  "isMutableRequestContentType ct =
     (if ct = [] then False else if prefix ''multipart/'' (media_type ct) then False else isMutableContentType ct)"

definition body_method :: "string \<Rightarrow> bool" where
  "body_method m = (m \<in> set [''POST'', ''PUT'', ''PATCH''])"

text \<open>\<open>has_body\<close> is \<open>req.Body != nil\<close>.\<close>

definition shouldInspectRequest :: "bool \<Rightarrow> request \<Rightarrow> bool" where
  "shouldInspectRequest has_body req =
     (if \<not> has_body then False
      else if \<not> body_method (req_method req) then False
      else if \<not> isSupportedInspectEncoding (header_Get (req_header req) ''Content-Encoding'') then False
      else isMutableRequestContentType (header_Get (req_header req) ''Content-Type''))"

definition shouldSubstituteRequest :: "bool \<Rightarrow> request \<Rightarrow> bool" where
  "shouldSubstituteRequest has_body req =
     (if \<not> has_body then False
      else if \<not> body_method (req_method req) then False
      else let ce = normalizeContentEncoding (header_Get (req_header req) ''Content-Encoding'')
           in if ce \<noteq> [] \<and> ce \<noteq> ''identity'' then False
              else let ct = header_Get (req_header req) ''Content-Type''
                   in if isMutableRequestContentType ct then True else media_type ct = ''multipart/form-data'')"

definition shouldBlockOnMatch :: "request \<Rightarrow> bool" where
  "shouldBlockOnMatch req =
     (let host = to_lower (req_host req)
      in if sublist ''aistudio.google'' host \<or> sublist ''googleapis.com'' host \<or> sublist ''clients6.google.com'' host then True
         else let ct = to_lower (header_Get (req_header req) ''Content-Type'')
              in sublist ''protobuf'' ct \<or> sublist ''grpc'' ct)"

definition isRangeOrMediaResponse :: "response \<Rightarrow> bool" where
  "isRangeOrMediaResponse resp =
     (if resp_status resp = 206 then True
      else if (case resp_request resp of None \<Rightarrow> False | Some req \<Rightarrow> header_Get (req_header req) ''Range'' \<noteq> []) then True
      else let ct = media_type (header_Get (resp_header resp) ''Content-Type'')
           in prefix ''video/'' ct \<or> prefix ''audio/'' ct)"

definition shouldInjectHTMLBanner :: "request option \<Rightarrow> bool" where
  "shouldInjectHTMLBanner req =
     (case req of
        None \<Rightarrow> True
      | Some req \<Rightarrow>
          (let dest = to_lower (trim_space (header_Get (req_header req) ''Sec-Fetch-Dest''))
           in if dest = [] then True else dest = ''document''))"

definition hasChunked :: "string list \<Rightarrow> bool" where
  "hasChunked values = list_ex (\<lambda>v. equal_fold v ''chunked'') values"

lemma html_is_mutable:
  assumes "isHTMLContentType ct"
  shows "isFilterMutableResponseType ct"
proof -
  have ne: "ct \<noteq> []" using assms by (auto simp: isHTMLContentType_def media_type_def trim_space_def trim_right_if_def)
  from assms have "media_type ct = ''text/html'' \<or> media_type ct = ''application/xhtml+xml''" by (simp add: isHTMLContentType_def)
  then show ?thesis
  proof
    assume "media_type ct = ''text/html''"
    then show ?thesis using ne
      by (simp add: isFilterMutableResponseType_def isMutableContentType_def isScriptOrStyleContentType_def isStructuredStreamContentType_def)
  next
    have "sublist ''xml'' ''application/xhtml+xml''" by code_simp
    moreover assume "media_type ct = ''application/xhtml+xml''"
    ultimately show ?thesis using ne
      by (simp add: isFilterMutableResponseType_def isMutableContentType_def isScriptOrStyleContentType_def isStructuredStreamContentType_def)
  qed
qed

end
