(* ===== verification/Filter_Chain.thy ===== *)
theory Filter_Chain
  imports Substitution_Filter Content_Types
begin

text \<open>
  The composition of content filters: \<open>chainFilter\<close> and \<open>ContentFilter\<close> of
  \<open>proxy/masking_filter.go\<close> and the choice of the filters of a response in
  \<open>proxy/relay.go\<close>.  A chain of two filters is shown to compose their
  contracts; with three, blocking can deliver bytes out of order.
\<close>

section \<open>Filter engines\<close>

text \<open>The types that implement \<open>FilterEngine\<close>; \<open>detect\<close> stands for \<open>http.DetectContentType\<close>.\<close>

datatype stage =
    PassThrough
  | SPhrase phraseStreamFilter
  | SHtml "html_state \<times> phraseStreamFilter"
  | SMask maskingStreamFilter
  | SInject htmlInjectionStreamFilter
  | SMagic magicStreamFilter
  | SSubst multiSubstitutionStreamFilter

definition lift_process :: "('s \<Rightarrow> 't) \<Rightarrow> (string \<times> bool \<times> 's) result \<Rightarrow> (string \<times> bool \<times> 't) result" where
  "lift_process h r = rbind r (\<lambda>(out, b, s). Inr (out, b, h s))"

definition lift_flush :: "('s \<Rightarrow> 't) \<Rightarrow> (string \<times> 's) result \<Rightarrow> (string \<times> 't) result" where
  "lift_flush h r = rbind r (\<lambda>(out, s). Inr (out, h s))"

fun stage_Process :: "(string \<Rightarrow> string) \<Rightarrow> stage process_fn" where
  "stage_Process detect PassThrough inp = Inr (inp, False, PassThrough)"
| "stage_Process detect (SPhrase f) inp = lift_process SPhrase (ps_ProcessChunk f inp)"
| "stage_Process detect (SHtml f) inp = lift_process SHtml (html_ProcessChunk ps_ProcessChunk f inp)"
| "stage_Process detect (SMask f) inp = lift_process SMask (ms_ProcessChunk f inp)"
| "stage_Process detect (SInject f) inp = lift_process SInject (hs_ProcessChunk f inp)"
| "stage_Process detect (SMagic f) inp = lift_process SMagic (mg_ProcessChunk detect f inp)"
| "stage_Process detect (SSubst f) inp = lift_process SSubst (su_ProcessChunk f inp)"

text \<open>The types without a \<open>Flush\<close> method give the empty tail.\<close>

fun stage_Flush :: "(string \<Rightarrow> string) \<Rightarrow> stage flush_fn" where
  "stage_Flush detect (SMask f) = lift_flush SMask (ms_Flush f)"
| "stage_Flush detect (SInject f) = lift_flush SInject (hs_Flush f)"
| "stage_Flush detect (SMagic f) = lift_flush SMagic (mg_Flush detect f)"
| "stage_Flush detect (SSubst f) = lift_flush SSubst (su_Flush f)"
| "stage_Flush detect s = Inr ([], s)"

fun stage_Decision :: "stage \<Rightarrow> bool \<times> string \<times> string" where
  "stage_Decision (SPhrase f) = ps_Decision f"
| "stage_Decision (SHtml f) = ps_Decision (snd f)"
| "stage_Decision (SMagic f) = mg_Decision f"
| "stage_Decision s = (False, [], [])"

fun stage_LogDecision :: "stage \<Rightarrow> bool \<times> bool \<times> string \<times> string" where
  "stage_LogDecision (SPhrase f) = ps_LogDecision f"
| "stage_LogDecision (SHtml f) = ps_LogDecision (snd f)"
| "stage_LogDecision s = (False, False, [], [])"

section \<open>The chain\<close>

fun chain_Decision :: "stage list \<Rightarrow> bool \<times> string \<times> string" where
  "chain_Decision [] = (False, [], [])"
| "chain_Decision (s # ss) = (let d = stage_Decision s in if fst d then d else chain_Decision ss)"

fun chain_LogDecision :: "stage list \<Rightarrow> bool \<times> bool \<times> string \<times> string" where
  "chain_LogDecision [] = (False, False, [], [])"
| "chain_LogDecision (s # ss) =
     (let d = stage_LogDecision s in if fst d \<or> fst (snd d) then d else chain_LogDecision ss)"

text \<open>The two loops of \<open>runDownstream\<close>.\<close>

fun down_process :: "(string \<Rightarrow> string) \<Rightarrow> stage list \<Rightarrow> string \<Rightarrow> (string \<times> stage list) result" where
  "down_process detect [] out = Inr (out, [])"
| "down_process detect (s # ss) out =
     rbind (stage_Process detect s out) (\<lambda>(out, blocked, s).
       if blocked then Inr (out, s # ss)
       else rbind (down_process detect ss out) (\<lambda>(out, ss). Inr (out, s # ss)))"

fun flush_all :: "(string \<Rightarrow> string) \<Rightarrow> stage list \<Rightarrow> (string \<times> stage list) result" where
  "flush_all detect [] = Inr ([], [])"
| "flush_all detect (s # ss) =
     rbind (stage_Flush detect s) (\<lambda>(tail, s).
       rbind (flush_all detect ss) (\<lambda>(tails, ss). Inr (tail @ tails, s # ss)))"

definition runDownstream :: "(string \<Rightarrow> string) \<Rightarrow> stage list \<Rightarrow> string \<Rightarrow> (string \<times> stage list) result" where
  "runDownstream detect filters inp =
     rbind (down_process detect filters inp) (\<lambda>(out, filters).
       rbind (flush_all detect filters) (\<lambda>(tails, filters). Inr (out @ tails, filters)))"

fun chain_ProcessChunk :: "(string \<Rightarrow> string) \<Rightarrow> stage list process_fn" where
  "chain_ProcessChunk detect [] inp = Inr (inp, False, [])"
| "chain_ProcessChunk detect (s # ss) inp =
     rbind (stage_Process detect s inp) (\<lambda>(out, blocked, s).
       if blocked then rbind (runDownstream detect ss out) (\<lambda>(out, ss). Inr (out, True, s # ss))
       else if out = [] then Inr ([], False, s # ss)
       else rbind (chain_ProcessChunk detect ss out) (\<lambda>(out, blocked, ss). Inr (out, blocked, s # ss)))"

text \<open>\<open>Flush\<close>: what a filter held back goes through the filters after it.\<close>

fun pipe :: "(string \<Rightarrow> string) \<Rightarrow> stage list process_fn" where
  "pipe detect [] chunk = Inr (chunk, False, [])"
| "pipe detect (s # ss) chunk =
     rbind (stage_Process detect s chunk) (\<lambda>(chunk, blocked, s).
       if blocked then Inr (chunk, True, s # ss)
       else rbind (pipe detect ss chunk) (\<lambda>(chunk, blocked, ss). Inr (chunk, blocked, s # ss)))"

lemma pipe_length: "pipe detect ss c = Inr (out, b, ss') \<Longrightarrow> length ss' = length ss"
proof (induction ss arbitrary: c out b ss')
  case (Cons s ss)
  from Cons.prems obtain o1 b1 s1 where 1: "stage_Process detect s c = Inr (o1, b1, s1)"
    by (cases "stage_Process detect s c") auto
  show ?case
  proof (cases b1)
    case True
    then show ?thesis using Cons.prems 1 by auto
  next
    case False
    then obtain o2 b2 s2 where "pipe detect ss o1 = Inr (o2, b2, s2)" using Cons.prems 1
      by (cases "pipe detect ss o1") auto
    then show ?thesis using Cons.IH Cons.prems 1 False by auto
  qed
qed simp

function chain_Flush :: "(string \<Rightarrow> string) \<Rightarrow> stage list flush_fn" where
  "chain_Flush detect [] = Inr ([], [])"
| "chain_Flush detect (s # ss) =
     (case stage_Flush detect s of
        Inl e \<Rightarrow> Inl e
      | Inr (chunk, s) \<Rightarrow>
          (if chunk = [] then rbind (chain_Flush detect ss) (\<lambda>(out, ss). Inr (out, s # ss))
           else case pipe detect ss chunk of
                  Inl e \<Rightarrow> Inl e
                | Inr (chunk, blocked, ss) \<Rightarrow>
                    (if blocked then Inr (chunk, s # ss)
                     else rbind (chain_Flush detect ss) (\<lambda>(out, ss). Inr (chunk @ out, s # ss)))))"
  by pat_completeness auto
termination
  by (relation "measure (\<lambda>(detect, ss). length ss)") (auto dest: pipe_length)

section \<open>Choosing the filters of a message\<close>

record ContentFilter =
  cf_Semantic :: "PhraseFilter option"
  cf_LogSemantic :: "PhraseFilter option"
  cf_Masking :: "MaskingFilter option"
  cf_HTML :: "string option"
  cf_Magic :: "string list option"
  cf_Substitution :: "SubstitutionFilter option"

datatype engine = Single stage | Chain "stage list"

definition newChainOrPassThrough :: "stage list \<Rightarrow> engine" where
  "newChainOrPassThrough filters =
     (case filters of [] \<Rightarrow> Single PassThrough | [f] \<Rightarrow> Single f | _ \<Rightarrow> Chain filters)"

definition opt_stage :: "('s \<Rightarrow> stage) \<Rightarrow> 's option \<Rightarrow> stage" where
  "opt_stage C s = (case s of None \<Rightarrow> PassThrough | Some s \<Rightarrow> C s)"

definition log_stage :: "PhraseFilter \<Rightarrow> phraseStreamFilter" where
  "log_stage f = (PhraseFilter_NewFilter (Some f))\<lparr>ps_observeOnly := True\<rparr>"

definition magic_stages :: "ContentFilter \<Rightarrow> stage list" where
  "magic_stages f =
     (case cf_Magic f of Some types \<Rightarrow> if types \<noteq> [] then [opt_stage SMagic (MagicFilter_NewFilter (Some types))] else [] | None \<Rightarrow> [])"

definition masking_stages :: "ContentFilter \<Rightarrow> stage list" where
  "masking_stages f =
     (case cf_Masking f of Some m \<Rightarrow> if mk_maxLen m > 0 then [opt_stage SMask (MaskingFilter_NewFilter (Some m))] else [] | None \<Rightarrow> [])"

definition subst_stages :: "ContentFilter \<Rightarrow> stage list" where
  "subst_stages f =
     (case cf_Substitution f of Some s \<Rightarrow> if HasRules s then [opt_stage SSubst (SubstitutionFilter_NewFilter s)] else [] | None \<Rightarrow> [])"

definition ContentFilter_NewFilter :: "ContentFilter option \<Rightarrow> engine" where
  "ContentFilter_NewFilter f =
     (case f of
        None \<Rightarrow> Single PassThrough
      | Some f \<Rightarrow> newChainOrPassThrough
          (magic_stages f @
           (case cf_Semantic f of Some p \<Rightarrow> [SPhrase (PhraseFilter_NewFilter (Some p))] | None \<Rightarrow> []) @
           (case cf_LogSemantic f of Some p \<Rightarrow> [SPhrase (log_stage p)] | None \<Rightarrow> []) @
           masking_stages f @ subst_stages f))"

text \<open>\<open>respFilter\<close> for a \<open>ContentFilter\<close>, which is what the server installs.\<close>

definition respFilter_stages :: "ContentFilter \<Rightarrow> string \<Rightarrow> request option \<Rightarrow> stage list" where
  "respFilter_stages f contentType req =
     magic_stages f @
     (if isFilterMutableResponseType contentType
      then if isHTMLContentType contentType
           then (case cf_Semantic f of Some p \<Rightarrow> [SHtml (html_start, PhraseFilter_NewFilter (Some p))] | None \<Rightarrow> []) @
                (case cf_LogSemantic f of Some p \<Rightarrow> [SHtml (html_start, log_stage p)] | None \<Rightarrow> []) @
                subst_stages f @
                (case cf_HTML f of
                   Some banner \<Rightarrow> if banner \<noteq> [] \<and> shouldInjectHTMLBanner req
                     then [opt_stage SInject (HTMLInjectionFilter_NewFilter (Some banner))] else []
                 | None \<Rightarrow> [])
           else (case cf_Semantic f of Some p \<Rightarrow> [SPhrase (PhraseFilter_NewFilter (Some p))] | None \<Rightarrow> []) @
                (case cf_LogSemantic f of Some p \<Rightarrow> [SPhrase (log_stage p)] | None \<Rightarrow> []) @
                masking_stages f @
                (case cf_Substitution f of Some s \<Rightarrow> [opt_stage SSubst (SubstitutionFilter_NewFilter s)] | None \<Rightarrow> [])
      else [])"

definition respFilter :: "ContentFilter \<Rightarrow> string \<Rightarrow> request option \<Rightarrow> engine" where
  "respFilter f contentType req = newChainOrPassThrough (respFilter_stages f contentType req)"

definition reqFilter :: "ContentFilter \<Rightarrow> stage" where
  "reqFilter f = (case cf_Semantic f of Some p \<Rightarrow> SPhrase (PhraseFilter_NewFilter (Some p)) | None \<Rightarrow> PassThrough)"

fun engine_Process :: "(string \<Rightarrow> string) \<Rightarrow> engine process_fn" where
  "engine_Process detect (Single s) inp = lift_process Single (stage_Process detect s inp)"
| "engine_Process detect (Chain ss) inp = lift_process Chain (chain_ProcessChunk detect ss inp)"

fun engine_Flush :: "(string \<Rightarrow> string) \<Rightarrow> engine flush_fn" where
  "engine_Flush detect (Single s) = lift_flush Single (stage_Flush detect s)"
| "engine_Flush detect (Chain ss) = lift_flush Chain (chain_Flush detect ss)"

definition hasMagicFilter :: "ContentFilter \<Rightarrow> bool" where
  "hasMagicFilter f = (case cf_Magic f of None \<Rightarrow> False | Some types \<Rightarrow> types \<noteq> [])"

definition shouldInspectResponse :: "response \<Rightarrow> ContentFilter \<Rightarrow> bool" where
  "shouldInspectResponse resp f =
     (if \<not> isSupportedInspectEncoding (header_Get (resp_header resp) ''Content-Encoding'') then False
      else if isRangeOrMediaResponse resp then False
      else if isFilterMutableResponseType (header_Get (resp_header resp) ''Content-Type'') then True
      else hasMagicFilter f)"

text \<open>\<open>scanner\<close> is the antivirus of the filter, when one with a scanner is configured.\<close>

definition antivirusForResponse :: "'av option \<Rightarrow> bool \<Rightarrow> response \<Rightarrow> 'av option" where
  "antivirusForResponse scanner has_body resp =
     (if \<not> has_body \<or> resp_status resp \<noteq> 200 then None
      else if isRangeOrMediaResponse resp then None
      else if isMutableContentType (header_Get (resp_header resp) ''Content-Type'') then None
      else scanner)"

section \<open>Two filters in a row\<close>

text \<open>
  The chain of two filters, the second of which only alters bytes: it never
  blocks, has nothing to say on an empty chunk and is empty once flushed; the first one holds nothing back.
\<close>

definition pair_process :: "'a process_fn \<Rightarrow> 'b process_fn \<Rightarrow> 'b flush_fn \<Rightarrow> ('a \<times> 'b) process_fn" where
  "pair_process p1 p2 f2 st inp =
     rbind (p1 (fst st) inp) (\<lambda>(out, blocked, s).
       if blocked
       then rbind (p2 (snd st) out) (\<lambda>(out, _, t). rbind (f2 t) (\<lambda>(tail, t). Inr (out @ tail, True, s, t)))
       else if out = [] then Inr ([], False, s, snd st)
       else rbind (p2 (snd st) out) (\<lambda>(out, blocked, t). Inr (out, blocked, s, t)))"

definition pair_flush :: "'b flush_fn \<Rightarrow> ('a \<times> 'b) flush_fn" where
  "pair_flush f2 st = rbind (f2 (snd st)) (\<lambda>(out, t). Inr (out, fst st, t))"

locale filter_pair = up: stream_filter p1 f1 R1 S1 + down: stream_filter p2 f2 R2 S2
  for p1 :: "'a process_fn" and f1 R1 S1 and p2 :: "'b process_fn" and f2 R2 S2 +
  assumes up_flush: "f1 s = Inr ([], s)"
    and down_never: "R2 t m e \<Longrightarrow> p2 t c = Inr (out, b, t') \<Longrightarrow> \<not> b"
    and down_empty: "R2 t m e \<Longrightarrow> p2 t [] = Inr ([], False, t)"
    and down_flushed: "f2 t = Inr (out, t') \<Longrightarrow> f2 t' = Inr ([], t')"
begin

lemma down_step:
  assumes "R2 t m e"
  shows "\<exists>out t'. p2 t c = Inr (out, False, t') \<and> R2 t' (m @ c) (e @ out)"
proof (cases "c = []")
  case True
  then show ?thesis using down_empty [OF assms] assms by auto
next
  case False
  from down.process_ok [OF assms this] obtain out b t' where p: "p2 t c = Inr (out, b, t')"
    and r: "if b then (\<forall>rest. S2 (m @ c @ rest) (e @ out) True) \<and> (out = [] \<longrightarrow> (\<exists>s''. f2 t' = Inr ([], s''))) else R2 t' (m @ c) (e @ out)"
    by blast
  have "\<not> b" using down_never [OF assms p] .
  then show ?thesis using p r by auto
qed

definition pair_inv :: "'a \<times> 'b \<Rightarrow> string \<Rightarrow> string \<Rightarrow> bool" where
  "pair_inv st w e = (\<exists>m. R1 (fst st) w m \<and> R2 (snd st) m e)"

definition pair_spec :: "string \<Rightarrow> string \<Rightarrow> bool \<Rightarrow> bool" where
  "pair_spec w out b = (\<exists>m. S1 w m b \<and> S2 m out False)"

lemma pair_stream_filter: "stream_filter (pair_process p1 p2 f2) (pair_flush f2) pair_inv pair_spec"
proof unfold_locales
  fix st :: "'a \<times> 'b" and w e and c :: string
  assume inv: "pair_inv st w e" and c: "c \<noteq> []"
  obtain s t where st: "st = (s, t)" by fastforce
  then obtain m where m: "R1 s w m" "R2 t m e" using inv by (auto simp: pair_inv_def)
  let ?goal = "\<lambda>out b st'. pair_process p1 p2 f2 st c = Inr (out, b, st') \<and>
    (if b then (\<forall>rest. pair_spec (w @ c @ rest) (e @ out) True) \<and> (out = [] \<longrightarrow> (\<exists>s''. pair_flush f2 st' = Inr ([], s'')))
     else pair_inv st' (w @ c) (e @ out))"
  from up.process_ok [OF m(1) c] obtain o1 b1 s1 where p1: "p1 s c = Inr (o1, b1, s1)"
    and r1: "if b1 then (\<forall>rest. S1 (w @ c @ rest) (m @ o1) True) \<and> (o1 = [] \<longrightarrow> (\<exists>s''. f1 s1 = Inr ([], s''))) else R1 s1 (w @ c) (m @ o1)"
    by blast
  obtain o2 t2 where p2: "p2 t o1 = Inr (o2, False, t2)" and r2: "R2 t2 (m @ o1) (e @ o2)" using down_step [OF m(2)] by blast
  show "\<exists>out b st'. ?goal out b st'"
  proof (cases b1)
    case True
    obtain tail t3 where f2: "f2 t2 = Inr (tail, t3)" "S2 (m @ o1) ((e @ o2) @ tail) False" using down.flush_ok [OF r2] by blast
    have "?goal (o2 @ tail) True (s1, t3)"
      using True p1 p2 f2 r1 down_flushed [OF f2(1)] st by (auto simp: pair_process_def pair_spec_def pair_flush_def)
    then show ?thesis by blast
  next
    case False
    show ?thesis
    proof (cases "o1 = []")
      case True
      then have "?goal [] False (s1, t)" using False p1 r1 m(2) st by (auto simp: pair_process_def pair_inv_def)
      then show ?thesis by blast
    next
      case ne: False
      have "?goal o2 False (s1, t2)" using False ne p1 p2 r1 r2 st by (auto simp: pair_process_def pair_inv_def)
      then show ?thesis by blast
    qed
  qed
next
  fix st :: "'a \<times> 'b" and w e assume "pair_inv st w e"
  then obtain m where m: "R1 (fst st) w m" "R2 (snd st) m e" by (auto simp: pair_inv_def)
  have "S1 w m False" using up.flush_ok [OF m(1)] up_flush by auto
  moreover obtain out t' where "f2 (snd st) = Inr (out, t')" "S2 m (e @ out) False" using down.flush_ok [OF m(2)] by blast
  ultimately show "\<exists>out s'. pair_flush f2 st = Inr (out, s') \<and> pair_spec w (e @ out) False"
    by (auto simp: pair_flush_def pair_spec_def)
qed

end

text \<open>A filter's contract carries over to an engine that holds it.\<close>

context stream_filter
begin

lemma transport:
  assumes p: "\<And>s c. p' (h s) c = lift_process h (process s c)" and f: "\<And>s. f' (h s) = lift_flush h (flush s)"
  shows "stream_filter p' f' (\<lambda>s' w e. \<exists>s. s' = h s \<and> R s w e) spec"
proof unfold_locales
  fix s' w e and c :: string
  assume "\<exists>s. s' = h s \<and> R s w e" and c: "c \<noteq> []"
  then obtain s where s: "s' = h s" "R s w e" by blast
  from process_ok [OF s(2) c] obtain out b s1 where 1: "process s c = Inr (out, b, s1)"
    "if b then (\<forall>rest. spec (w @ c @ rest) (e @ out) True) \<and> (out = [] \<longrightarrow> (\<exists>s''. flush s1 = Inr ([], s''))) else R s1 (w @ c) (e @ out)" by blast
  have "out = [] \<longrightarrow> (\<exists>s''. flush s1 = Inr ([], s'')) \<Longrightarrow> out = [] \<longrightarrow> (\<exists>s''. f' (h s1) = Inr ([], s''))"
    unfolding f by (auto simp: lift_flush_def)
  then show "\<exists>out b s''. p' s' c = Inr (out, b, s'') \<and>
      (if b then (\<forall>rest. spec (w @ c @ rest) (e @ out) True) \<and> (out = [] \<longrightarrow> (\<exists>sa. f' s'' = Inr ([], sa)))
       else \<exists>s. s'' = h s \<and> R s (w @ c) (e @ out))"
    using 1 s(1) p by (intro exI [of _ out] exI [of _ b] exI [of _ "h s1"]) (auto simp: lift_process_def)
next
  fix s' w e assume "\<exists>s. s' = h s \<and> R s w e"
  then obtain s where s: "s' = h s" "R s w e" by blast
  then show "\<exists>out sa. f' s' = Inr (out, sa) \<and> spec w (e @ out) False"
    using flush_ok [OF s(2)] f by (auto simp: lift_flush_def)
qed

end

interpretation phrase_mask: filter_pair ps_ProcessChunk ps_Flush "phrase_inv c es" "phrase_spec es (word_of_int (pf_threshold c))"
    ms_ProcessChunk ms_Flush "mask_inv m" "mask_spec (mk_phrases m)" for c es m
proof unfold_locales
  fix s show "ps_Flush s = Inr ([], s)" by (simp add: ps_Flush_def)
next
  fix t w e c out b t' assume "mask_inv m t w e" "ms_ProcessChunk t c = Inr (out, b, t')"
  then show "\<not> b" by (auto simp: ms_ProcessChunk_def mask_inv_def Let_def split: if_splits)
next
  fix t w e assume "mask_inv m t w e"
  then show "ms_ProcessChunk t [] = Inr ([], False, t)" by (simp add: ms_ProcessChunk_def mask_inv_def)
next
  fix t out t' assume "ms_Flush t = Inr (out, t')"
  then show "ms_Flush t' = Inr ([], t')" by (auto simp: ms_Flush_def split: option.splits if_splits)
qed

definition phrase_mask_chain :: "phraseStreamFilter \<times> maskingStreamFilter \<Rightarrow> engine" where
  "phrase_mask_chain st = Chain [SPhrase (fst st), SMask (snd st)]"

lemma chain_two_process:
  "engine_Process detect (phrase_mask_chain st) inp = lift_process phrase_mask_chain (pair_process ps_ProcessChunk ms_ProcessChunk ms_Flush st inp)"
proof -
  obtain f g where st: "st = (f, g)" by fastforce
  show ?thesis
  proof (cases "ps_ProcessChunk f inp")
    case (Inl e)
    then show ?thesis by (simp add: st phrase_mask_chain_def lift_process_def pair_process_def)
  next
    case (Inr x)
    then obtain out b f' where x: "ps_ProcessChunk f inp = Inr (out, b, f')" by (cases x) auto
    show ?thesis
    proof (cases "ms_ProcessChunk g out")
      case (Inl e)
      then show ?thesis using x by (simp add: st phrase_mask_chain_def lift_process_def pair_process_def runDownstream_def)
    next
      case (Inr y)
      then obtain out2 b2 g' where y: "ms_ProcessChunk g out = Inr (out2, b2, g')" by (cases y) auto
      show ?thesis
        by (cases "ms_Flush g'")
           (auto simp: st x y phrase_mask_chain_def lift_process_def lift_flush_def pair_process_def runDownstream_def)
    qed
  qed
qed

lemma chain_two_flush:
  "engine_Flush detect (phrase_mask_chain st) = lift_flush phrase_mask_chain (pair_flush ms_Flush st)"
  by (cases st; cases "ms_Flush (snd st)") (auto simp: phrase_mask_chain_def lift_flush_def pair_flush_def)

interpretation text_chain: stream_filter "engine_Process detect" "engine_Flush detect"
    "\<lambda>st w e. \<exists>s. st = phrase_mask_chain s \<and> phrase_mask.pair_inv c es m s w e" "phrase_mask.pair_spec es c m" for detect c es m
  by (rule stream_filter.transport [OF phrase_mask.pair_stream_filter chain_two_process chain_two_flush])

section \<open>Properties\<close>

lemma prefix_butlast: "prefix (butlast xs) xs"
  by (cases xs rule: rev_cases) auto

lemma occurs_mono:
  assumes "prefix v w" "\<exists>p\<in>P. normalizePhrase p \<noteq> [] \<and> sublist (normalizePhrase p) (to_lower v)"
  shows "\<exists>p\<in>P. normalizePhrase p \<noteq> [] \<and> sublist (normalizePhrase p) (to_lower w)"
proof -
  have "sublist (to_lower v) (to_lower w)" using assms(1) by (auto simp: prefix_def)
  then show ?thesis using assms(2) sublist_order.order.trans by blast
qed

lemma hard_spec_first:
  assumes "phrase_spec (phrase_entries phrases [] []) thr text kept True"
  shows "\<not> (\<exists>p\<in>set phrases. normalizePhrase p \<noteq> [] \<and> sublist (normalizePhrase p) (to_lower (butlast kept)))"
proof -
  have stop: "stops_at (phrase_entries phrases [] []) thr v = (\<exists>p\<in>set phrases. normalizePhrase p \<noteq> [] \<and> suffix (normalizePhrase p) v)" for v
    using stops_at_hard_only by (simp add: phrase_entries_def)
  obtain n where n: "0 < n" "n \<le> length text" "kept = take n text"
    "\<And>m. 0 < m \<Longrightarrow> m < n \<Longrightarrow> \<not> stops_at (phrase_entries phrases [] []) thr (to_lower (take m text))"
    using assms by (auto simp: phrase_spec_def)
  have bl: "butlast kept = take (n - 1) text" using n(1-3) by (simp add: butlast_take)
  have "\<not> stops_at (phrase_entries phrases [] []) thr (to_lower (take m (butlast kept)))" if "0 < m" "m \<le> length (butlast kept)" for m
    using n(4) [of m] that bl n(2) by (simp add: min_absorb1)
  then show ?thesis unfolding occurs_iff_hit stop by blast
qed





text \<open>
  When a filter blocks, the bytes held back by the filters after it are appended one filter after the other and do not pass through the filters further down.  With a
  phrase, a masking and a substitution filter the text \<open>hello bad\<close> is delivered as \<open>hellobad\<close> followed by the space that stood in the middle.
\<close>

theorem chain_block_reorders:
  "(let mask = \<lparr>ms_compiled = Some (NewMaskingFilter [''zzzz'']), ms_pending = []\<rparr>;
        sub = \<lparr>su_rules = [\<lparr>sr_search = ''q'', sr_replace = ''Q''\<rparr>], su_regexRules = [], su_pending = [], su_maxWindow = 1, su_onMatch = [],
               su_lengthPreserved = False, su_BlockOnMatch = False, su_matchedError = None\<rparr>
    in case runDownstream (\<lambda>_. []) [SMask mask, SSubst sub] ''hello bad'' of Inr (out, _) \<Rightarrow> out = ''hellobad '' | Inl _ \<Rightarrow> False)"
  by code_simp

text \<open>
  A request that carries a \<open>Range\<close> header is never inspected: whatever the content type, the encoding, the status and the filter, its response skips
  the content filters and the antivirus, although a server may ignore the header and answer with the whole document.
\<close>

theorem range_header_skips_inspection:
  assumes "resp_request resp = Some req" "header_Get (req_header req) ''Range'' \<noteq> []"
  shows "\<not> shouldInspectResponse resp f \<and> antivirusForResponse scanner has_body resp = None"
  using assms by (simp_all add: shouldInspectResponse_def antivirusForResponse_def isRangeOrMediaResponse_def)

theorem range_header_skips_inspection_witness:
  "\<not> shouldInspectResponse \<lparr>resp_status = 200, resp_header = [(''Content-Type'', [''text/html''])],
      resp_request = Some \<lparr>req_method = ''GET'', req_url = None, req_host = ''h'', req_header = [(''Range'', [''bytes=0-''])]\<rparr>\<rparr>
    \<lparr>cf_Semantic = None, cf_LogSemantic = None, cf_Masking = None, cf_HTML = None, cf_Magic = None, cf_Substitution = None\<rparr>"
proof -
  have "header_Get (req_header \<lparr>req_method = ''GET'', req_url = None, req_host = ''h'', req_header = [(''Range'', [''bytes=0-''])]\<rparr>) ''Range'' \<noteq> []"
    by code_simp
  from range_header_skips_inspection [OF response.select_convs(3) this] show ?thesis by blast
qed

end
