(* ===== verification/Message_Writer.thy ===== *)
theory Message_Writer
  imports Filter_Chain
begin

text \<open>
  How \<open>proxy/relay.go\<close> writes messages to a connection: headers, the choice of
  the framing and the chunked body.  A reader for the chunked coding is
  defined independently and shown to read back exactly what is written, with
  whatever follows on the connection left over.
\<close>

section \<open>Numbers\<close>

definition digit_char :: "nat \<Rightarrow> char" where
  "digit_char d = ''0123456789abcdef'' ! d"

function digits_base :: "nat \<Rightarrow> nat \<Rightarrow> string" where
  "digits_base b n = (if n < b \<or> b < 2 then [digit_char n] else digits_base b (n div b) @ [digit_char (n mod b)])"
  by pat_completeness auto
termination
  by (relation "measure snd") auto

declare digits_base.simps [simp del]

text \<open>\<open>fmt\<close>'s \<open>%d\<close> and \<open>%x\<close>.\<close>

definition fmt_d :: "int \<Rightarrow> string" where
  "fmt_d i = (if i < 0 then CHR ''-'' # digits_base 10 (nat (- i)) else digits_base 10 (nat i))"

definition fmt_x :: "nat \<Rightarrow> string" where
  "fmt_x n = digits_base 16 n"

definition crlf :: string where
  "crlf = [CHR 0x0D, CHR 0x0A]"

section \<open>Headers\<close>

text \<open>\<open>http.Header.WriteSubset\<close>: keys in order, invalid names left out, line breaks in values made spaces.\<close>

definition valid_field_name :: "string \<Rightarrow> bool" where
  "valid_field_name k = (k \<noteq> [] \<and> list_all is_token_char k)"

definition header_value :: "string \<Rightarrow> string" where
  "header_value v =
     (let v = map (\<lambda>c. if c = CHR 0x0D \<or> c = CHR 0x0A then CHR '' '' else c) v;
          ws = (\<lambda>c. c = CHR '' '' \<or> c = CHR 0x09)
      in trim_right_if ws (dropWhile ws v))"

definition header_lines_of :: "header \<Rightarrow> string list" where
  "header_lines_of h =
     concat (map (\<lambda>(k, vs). if valid_field_name k then map (\<lambda>v. k @ '': '' @ header_value v) vs else []) (sort_key fst h))"

definition header_WriteSubset :: "string list \<Rightarrow> header \<Rightarrow> string list" where
  "header_WriteSubset excluded h = header_lines_of (filter (\<lambda>(k, _). k \<notin> set excluded) h)"

definition write_lines :: "string list \<Rightarrow> string" where
  "write_lines ls = concat (map (\<lambda>l. l @ crlf) ls)"

record message =
  msg_header :: header
  msg_ContentLength :: int
  msg_TransferEncoding :: "string list"
  msg_Close :: bool
  msg_Trailer :: header

definition message_lines :: "header \<Rightarrow> int \<Rightarrow> bool \<Rightarrow> bool \<Rightarrow> string list" where
  "message_lines h contentLength chunked closeConn =
     header_WriteSubset [''Content-Length'', ''Transfer-Encoding''] h @
     (if contentLength \<ge> 0 \<and> \<not> chunked then [''Content-Length: '' @ fmt_d contentLength] else []) @
     (if chunked then [''Transfer-Encoding: chunked''] else []) @
     (if closeConn then [''Connection: close''] else [])"

definition writeMessageHeaders :: "header \<Rightarrow> int \<Rightarrow> bool \<Rightarrow> bool \<Rightarrow> string" where
  "writeMessageHeaders h contentLength chunked closeConn = write_lines (message_lines h contentLength chunked closeConn) @ crlf"

definition requestUsesChunked :: "message \<Rightarrow> bool" where
  "requestUsesChunked m = (if msg_ContentLength m \<ge> 0 then False else hasChunked (msg_TransferEncoding m))"

definition responseUsesChunked :: "message \<Rightarrow> bool" where
  "responseUsesChunked m =
     (if msg_ContentLength m \<ge> 0 then False else hasChunked (msg_TransferEncoding m) \<or> \<not> msg_Close m)"

text \<open>\<open>uri\<close> is \<open>req.URL.RequestURI()\<close> of a request whose URL is not nil.\<close>

definition writeRequestHeader :: "string \<Rightarrow> string option \<Rightarrow> string \<Rightarrow> string \<Rightarrow> message \<Rightarrow> string" where
  "writeRequestHeader method uri host url_host m =
     (let uri' = (case uri of None \<Rightarrow> ''/'' | Some u \<Rightarrow> if u = [] then ''/'' else u);
          host' = (if host = [] \<and> uri \<noteq> None then url_host else host)
      in method @ '' '' @ uri' @ '' HTTP/1.1'' @ crlf @
         (if host' \<noteq> [] then ''Host: '' @ host' @ crlf else []) @
         writeMessageHeaders (msg_header m) (msg_ContentLength m) (requestUsesChunked m) (msg_Close m))"

definition writeResponseHeader :: "string \<Rightarrow> message \<Rightarrow> string" where
  "writeResponseHeader status m =
     ''HTTP/1.1 '' @ status @ crlf @
     writeMessageHeaders (msg_header m) (msg_ContentLength m) (responseUsesChunked m) (msg_Close m)"

section \<open>Bodies\<close>

text \<open>\<open>httputil.NewChunkedWriter\<close>: one chunk per non-empty write, and the last chunk on \<open>Close\<close>.\<close>

definition chunk_write :: "string \<Rightarrow> string" where
  "chunk_write p = (if p = [] then [] else fmt_x (length p) @ crlf @ p @ crlf)"

definition closeChunkedBody :: "bool \<Rightarrow> header \<Rightarrow> string" where
  "closeChunkedBody chunked trailers =
     (if \<not> chunked then [] else ''0'' @ crlf @ (if trailers \<noteq> [] then write_lines (header_lines_of trailers) else []) @ crlf)"

text \<open>\<open>reads\<close> are the pieces the body's reader gives, each of which is one write.\<close>

definition writeBodyStreaming :: "bool \<Rightarrow> string list \<Rightarrow> header \<Rightarrow> string" where
  "writeBodyStreaming chunked reads trailers =
     (if chunked then concat (map chunk_write reads) else concat reads) @ closeChunkedBody chunked trailers"

text \<open>
  \<open>writeResponseStreaming\<close>: a body that is inspected or scanned is sent chunked,
  because its length is not known before it has been read.
\<close>

definition force_chunked :: "message \<Rightarrow> message" where
  "force_chunked m = m\<lparr>msg_ContentLength := -1, msg_TransferEncoding := [''chunked''], msg_header := header_Del (msg_header m) ''Content-Length''\<rparr>"

definition response_message :: "bool \<Rightarrow> bool \<Rightarrow> message \<Rightarrow> message" where
  "response_message inspectResponse antivirus m =
     (let m = (if inspectResponse then force_chunked m else m) in if antivirus then force_chunked m else m)"

definition writeResponseStreaming :: "string \<Rightarrow> bool \<Rightarrow> bool \<Rightarrow> message \<Rightarrow> string list \<Rightarrow> string" where
  "writeResponseStreaming status inspectResponse antivirus m reads =
     (let m = response_message inspectResponse antivirus m
      in writeResponseHeader status m @ writeBodyStreaming (responseUsesChunked m) reads (msg_Trailer m))"

definition isResponseWriterManagedHeader :: "string \<Rightarrow> bool" where
  "isResponseWriterManagedHeader key = (CanonicalHeaderKey key \<in> {''Content-Length'', ''Transfer-Encoding''})"

definition copyResponseHeaders :: "header \<Rightarrow> header" where
  "copyResponseHeaders src =
     foldl (\<lambda>dst (key, vals). if isResponseWriterManagedHeader key then dst else foldl (\<lambda>dst v. header_Add dst key v) dst vals) [] src"

section \<open>Reading back\<close>

definition digit_value :: "char \<Rightarrow> nat" where
  "digit_value c = (let n = of_char c in if n \<ge> 97 then n - 87 else n - 48)"

definition parse_base :: "nat \<Rightarrow> string \<Rightarrow> nat" where
  "parse_base b s = foldl (\<lambda>acc c. acc * b + digit_value c) 0 s"

fun cut_line :: "string \<Rightarrow> (string \<times> string) option" where
  "cut_line (a # b # s) =
     (if a = CHR 0x0D \<and> b = CHR 0x0A then Some ([], s)
      else map_option (\<lambda>(l, r). (a # l, r)) (cut_line (b # s)))"
| "cut_line s = None"

lemma cut_line_length: "cut_line s = Some (l, r) \<Longrightarrow> length r + 2 \<le> length s"
  by (induction s arbitrary: l r rule: cut_line.induct) (auto split: if_splits)

function skip_trailers :: "string \<Rightarrow> string option" where
  "skip_trailers s =
     (case cut_line s of
        None \<Rightarrow> None
      | Some (l, r) \<Rightarrow> if l = [] then Some r else skip_trailers r)"
  by pat_completeness auto
termination
  by (relation "measure length") (auto dest: cut_line_length)

declare skip_trailers.simps [simp del]

text \<open>A reader of the chunked coding: the body and what follows it.\<close>

function decode_chunked :: "string \<Rightarrow> (string \<times> string) option" where
  "decode_chunked s =
     (case cut_line s of
        None \<Rightarrow> None
      | Some (l, r) \<Rightarrow>
          (let n = parse_base 16 l
           in if n = 0 then map_option (\<lambda>rest. ([], rest)) (skip_trailers r)
              else if length r < n + 2 \<or> take 2 (drop n r) \<noteq> crlf then None
              else map_option (\<lambda>(body, rest). (take n r @ body, rest)) (decode_chunked (drop (n + 2) r))))"
  by pat_completeness auto
termination
  by (relation "measure length") (auto dest: cut_line_length)

declare decode_chunked.simps [simp del]

lemma digit_value_char: "d < 16 \<Longrightarrow> digit_value (digit_char d) = d"
proof -
  have "\<forall>d\<in>set [0..<16]. digit_value (digit_char d) = d" by code_simp
  then show "d < 16 \<Longrightarrow> digit_value (digit_char d) = d" by simp
qed

lemma digit_char_not_cr: "d < 16 \<Longrightarrow> digit_char d \<noteq> CHR 0x0D"
proof -
  have "\<forall>d\<in>set [0..<16]. digit_char d \<noteq> CHR 0x0D" by code_simp
  then show "d < 16 \<Longrightarrow> digit_char d \<noteq> CHR 0x0D" by simp
qed

lemma parse_digits_base:
  assumes "2 \<le> b" "b \<le> 16"
  shows "parse_base b (digits_base b n) = n \<and> CHR 0x0D \<notin> set (digits_base b n) \<and> digits_base b n \<noteq> []"
proof (induction n rule: less_induct)
  case (less n)
  show ?case
  proof (cases "n < b")
    case True
    then have "digits_base b n = [digit_char n]" by (simp add: digits_base.simps [of b n])
    then show ?thesis using True assms digit_value_char [of n] digit_char_not_cr [of n] by (simp add: parse_base_def)
  next
    case False
    then have d: "digits_base b n = digits_base b (n div b) @ [digit_char (n mod b)]" using assms by (simp add: digits_base.simps [of b n])
    have "n div b < n" using False assms by (intro div_less_dividend) auto
    moreover have "n mod b < b" using assms by (intro mod_less_divisor) auto
    then have "n mod b < 16" using assms(2) by linarith
    moreover have "parse_base b (s @ [c]) = parse_base b s * b + digit_value c" for s c by (simp add: parse_base_def)
    ultimately show ?thesis using less [of "n div b"] digit_value_char [of "n mod b"] digit_char_not_cr [of "n mod b", symmetric] by (simp add: d)
  qed
qed

lemma cut_line_crlf: "CHR 0x0D \<notin> set l \<Longrightarrow> cut_line (l @ crlf @ r) = Some (l, r)"
proof (induction l)
  case Nil
  then show ?case by (simp add: crlf_def)
next
  case (Cons a l)
  then show ?case by (cases l) (auto simp: crlf_def)
qed

lemma token_not_cr: "is_token_char c \<Longrightarrow> c \<noteq> CHR 0x0D"
proof
  assume "is_token_char c" "c = CHR 0x0D"
  moreover have "\<not> is_token_char (CHR 0x0D)" by code_simp
  ultimately show False by simp
qed

lemma header_value_not_cr: "CHR 0x0D \<notin> set (header_value v)"
proof -
  have "set (header_value v) \<subseteq> set (map (\<lambda>c. if c = CHR 0x0D \<or> c = CHR 0x0A then CHR '' '' else c) v)"
    unfolding header_value_def trim_right_if_def Let_def by (auto dest!: set_dropWhileD)
  moreover have "CHR 0x0D \<notin> set (map (\<lambda>c. if c = CHR 0x0D \<or> c = CHR 0x0A then CHR '' '' else c) v)" by auto
  ultimately show ?thesis by blast
qed

lemma header_lines_ok: "l \<in> set (header_lines_of h) \<Longrightarrow> CHR 0x0D \<notin> set l \<and> l \<noteq> []"
proof -
  assume "l \<in> set (header_lines_of h)"
  then obtain k v where "l = k @ '': '' @ header_value v" "valid_field_name k" by (auto simp: header_lines_of_def split: if_splits)
  then show ?thesis using header_value_not_cr token_not_cr by (auto simp: valid_field_name_def list_all_iff)
qed

lemma skip_trailers_lines: "\<forall>l\<in>set ls. CHR 0x0D \<notin> set l \<and> l \<noteq> [] \<Longrightarrow> skip_trailers (write_lines ls @ crlf @ rest) = Some rest"
proof (induction ls)
  case Nil
  then show ?case using cut_line_crlf [of "[]" rest] by (simp add: skip_trailers.simps [of "crlf @ rest"] write_lines_def)
next
  case (Cons l ls)
  then have "cut_line (write_lines (l # ls) @ crlf @ rest) = Some (l, write_lines ls @ crlf @ rest)"
    using cut_line_crlf [of l "write_lines ls @ crlf @ rest"] by (simp add: write_lines_def)
  then show ?case using Cons by (simp add: skip_trailers.simps [of "write_lines (l # ls) @ crlf @ rest"])
qed

lemma decode_last: "decode_chunked (closeChunkedBody True trailers @ rest) = Some ([], rest)"
proof -
  let ?t = "(if trailers \<noteq> [] then write_lines (header_lines_of trailers) else []) @ crlf @ rest"
  have "cut_line (closeChunkedBody True trailers @ rest) = Some (''0'', ?t)"
    using cut_line_crlf [of "''0''" ?t] by (simp add: closeChunkedBody_def)
  moreover have "parse_base 16 ''0'' = 0" by code_simp
  moreover have "skip_trailers ?t = Some rest"
    using skip_trailers_lines [of "header_lines_of trailers" rest] skip_trailers_lines [of "[]" rest] header_lines_ok by (auto simp: write_lines_def)
  ultimately show ?thesis by (simp only: decode_chunked.simps [of "closeChunkedBody True trailers @ rest"] option.case prod.case Let_def if_True simp_thms option.map)
qed

lemma decode_chunk:
  assumes "p \<noteq> []" "decode_chunked s = Some (body, rest)"
  shows "decode_chunked (chunk_write p @ s) = Some (p @ body, rest)"
proof -
  have px: "parse_base 16 (fmt_x (length p)) = length p" "CHR 0x0D \<notin> set (fmt_x (length p))"
    using parse_digits_base [of 16 "length p"] by (auto simp: fmt_x_def)
  have "cut_line (chunk_write p @ s) = Some (fmt_x (length p), p @ crlf @ s)"
    using cut_line_crlf [OF px(2), of "p @ crlf @ s"] assms(1) by (simp add: chunk_write_def)
  then show ?thesis
    using px(1) assms by (simp add: decode_chunked.simps [of "chunk_write p @ s"] Let_def crlf_def numeral_2_eq_2)
qed

lemma decode_body: "decode_chunked (writeBodyStreaming True reads trailers @ rest) = Some (concat reads, rest)"
proof (induction reads)
  case Nil
  then show ?case using decode_last by (simp add: writeBodyStreaming_def)
next
  case (Cons p reads)
  have "writeBodyStreaming True (p # reads) trailers @ rest = chunk_write p @ writeBodyStreaming True reads trailers @ rest"
    by (simp add: writeBodyStreaming_def)
  then show ?case using Cons decode_chunk [of p] by (cases "p = []") (simp_all add: chunk_write_def)
qed

section \<open>Properties\<close>

text \<open>
  C24: Round trip of the chunked coding.  Whatever pieces the body comes in, including empty ones, and whatever trailers follow, a reader of the coding gets back exactly the
  bytes of the body and stops exactly where the next message on the connection begins.
\<close>

theorem chunked_roundtrip:
  "decode_chunked (writeBodyStreaming True reads trailers @ next_message) = Some (concat reads, next_message)"
  by (rule decode_body)



text \<open>
  The method of the request is not looked at.  The answer to a \<open>HEAD\<close> request for an HTML page counts as inspected, and an empty body is written as the last chunk, so that five
  bytes follow a header after which a client expects the next response.
\<close>

theorem head_response_gets_body:
  "shouldInspectResponse \<lparr>resp_status = 200, resp_header = [(''Content-Type'', [''text/html''])],
      resp_request = Some \<lparr>req_method = ''HEAD'', req_url = None, req_host = host, req_header = []\<rparr>\<rparr> f \<and>
   writeResponseStreaming status True False (m\<lparr>msg_Trailer := []\<rparr>) [] =
     writeResponseHeader status (force_chunked (m\<lparr>msg_Trailer := []\<rparr>)) @ ''0'' @ crlf @ crlf"
proof -
  have 1: "isSupportedInspectEncoding (header_Get [(''Content-Type'', [''text/html''])] ''Content-Encoding'')"
    "header_Get [] ''Range'' = []" "header_Get [(''Content-Type'', [''text/html''])] ''Content-Type'' = ''text/html''"
    "\<not> prefix ''video/'' (media_type ''text/html'')" "\<not> prefix ''audio/'' (media_type ''text/html'')"
    "isFilterMutableResponseType ''text/html''" "hasChunked [''chunked'']"
    by code_simp+
  then show ?thesis
    by (simp add: shouldInspectResponse_def isRangeOrMediaResponse_def writeResponseStreaming_def response_message_def
        responseUsesChunked_def force_chunked_def writeBodyStreaming_def closeChunkedBody_def)
qed

end
