(* ===== verification/Rate_Limiter.thy ===== *)
theory Rate_Limiter
  imports Go_Lib
begin

text \<open>
  The bounded table of rate limiters of \<open>proxy/rate_limiter.go\<close>: a map into a
  doubly linked list of nodes, kept as an explicit heap because the operations
  work by pointer updates.  The operations are shown to implement an abstract
  least-recently-used list, and the interface \<open>lru_table\<close> states what
  the server relies on.
\<close>

section \<open>Nodes, lists and operations\<close>

record 'l rateNode =
  rn_prev :: "nat option"
  rn_next :: "nat option"
  rn_key :: string
  rn_limiter :: 'l

record 'l ipRateLimiter =
  rl_cap :: nat
  rl_heap :: "nat \<Rightarrow> 'l rateNode"
  rl_fresh :: nat
  rl_head :: "nat option"
  rl_tail :: "nat option"
  rl_idx :: "(string \<times> nat) list"

text \<open>The argument \<open>blank\<close> is the content of the heap where nothing was allocated.\<close>

definition newIPRateLimiter :: "'l rateNode \<Rightarrow> int \<Rightarrow> 'l ipRateLimiter" where
  "newIPRateLimiter blank cap =
     \<lparr>rl_cap = (if cap \<le> 0 then 16384 else nat cap), rl_heap = (\<lambda>_. blank), rl_fresh = 0, rl_head = None, rl_tail = None, rl_idx = []\<rparr>"

definition set_prev :: "nat \<Rightarrow> nat option \<Rightarrow> 'l ipRateLimiter \<Rightarrow> 'l ipRateLimiter" where
  "set_prev n p c = c\<lparr>rl_heap := (rl_heap c)(n := (rl_heap c n)\<lparr>rn_prev := p\<rparr>)\<rparr>"

definition set_next :: "nat \<Rightarrow> nat option \<Rightarrow> 'l ipRateLimiter \<Rightarrow> 'l ipRateLimiter" where
  "set_next n p c = c\<lparr>rl_heap := (rl_heap c)(n := (rl_heap c n)\<lparr>rn_next := p\<rparr>)\<rparr>"

definition pushFront :: "nat \<Rightarrow> 'l ipRateLimiter \<Rightarrow> 'l ipRateLimiter" where
  "pushFront n c =
     (let c = set_next n (rl_head c) c;
          c = set_prev n None c;
          c = (case rl_head c of Some h \<Rightarrow> set_prev h (Some n) c | None \<Rightarrow> c);
          c = c\<lparr>rl_head := Some n\<rparr>
      in if rl_tail c = None then c\<lparr>rl_tail := Some n\<rparr> else c)"

definition remove_node :: "nat \<Rightarrow> 'l ipRateLimiter \<Rightarrow> 'l ipRateLimiter" where
  "remove_node n c =
     (let c = (case rn_prev (rl_heap c n) of
                 Some p \<Rightarrow> set_next p (rn_next (rl_heap c n)) c
               | None \<Rightarrow> c\<lparr>rl_head := rn_next (rl_heap c n)\<rparr>);
          c = (case rn_next (rl_heap c n) of
                 Some q \<Rightarrow> set_prev q (rn_prev (rl_heap c n)) c
               | None \<Rightarrow> c\<lparr>rl_tail := rn_prev (rl_heap c n)\<rparr>)
      in set_next n None (set_prev n None c))"

definition moveFront :: "nat \<Rightarrow> 'l ipRateLimiter \<Rightarrow> 'l ipRateLimiter" where
  "moveFront n c = (if rl_head c = Some n then c else pushFront n (remove_node n c))"

text \<open>\<open>lim\<close> is the limiter \<open>rate.NewLimiter\<close> makes of the rate and the burst.\<close>

definition getOrCreate :: "string \<Rightarrow> 'l \<Rightarrow> 'l ipRateLimiter \<Rightarrow> 'l \<times> 'l ipRateLimiter" where
  "getOrCreate ip lim c =
     (case map_of (rl_idx c) ip of
        Some n \<Rightarrow> let c = moveFront n c in (rn_limiter (rl_heap c n), c)
      | None \<Rightarrow>
          (let n = rl_fresh c;
               c = c\<lparr>rl_fresh := Suc n, rl_heap := (rl_heap c)(n := \<lparr>rn_prev = None, rn_next = None, rn_key = ip, rn_limiter = lim\<rparr>)\<rparr>;
               c = pushFront n c;
               c = c\<lparr>rl_idx := AList.update ip n (rl_idx c)\<rparr>
           in if length (rl_idx c) > rl_cap c
              then case rl_tail c of
                     Some victim \<Rightarrow>
                       (let c = remove_node victim c
                        in (lim, c\<lparr>rl_idx := AList.delete (rn_key (rl_heap c victim)) (rl_idx c)\<rparr>))
                   | None \<Rightarrow> (lim, c)
              else (lim, c)))"

definition reset_limiters :: "'l ipRateLimiter \<Rightarrow> 'l ipRateLimiter" where
  "reset_limiters c = c\<lparr>rl_head := None, rl_tail := None, rl_idx := []\<rparr>"

section \<open>The linked list\<close>

definition first_of :: "nat list \<Rightarrow> nat option \<Rightarrow> nat option" where
  "first_of xs q = (case xs of [] \<Rightarrow> q | x # _ \<Rightarrow> Some x)"

definition last_of :: "nat option \<Rightarrow> nat list \<Rightarrow> nat option" where
  "last_of p xs = (if xs = [] then p else Some (last xs))"

fun seg :: "(nat \<Rightarrow> 'l rateNode) \<Rightarrow> nat option \<Rightarrow> nat list \<Rightarrow> nat option \<Rightarrow> bool" where
  "seg h p [] q = True"
| "seg h p (x # xs) q = (rn_prev (h x) = p \<and> rn_next (h x) = first_of xs q \<and> seg h (Some x) xs q)"

lemma first_of_simps [simp]: "first_of [] q = q" "first_of (x # xs) q = Some x" "xs \<noteq> [] \<Longrightarrow> first_of (xs @ ys) q = first_of xs r"
  by (auto simp: first_of_def split: list.splits)

lemma last_of_simps [simp]: "last_of p [] = p" "last_of p (x # xs) = last_of (Some x) xs" "last_of p (xs @ [x]) = Some x"
  by (auto simp: last_of_def)

lemma first_of_append: "first_of (xs @ ys) q = first_of xs (first_of ys q)"
  by (auto simp: first_of_def split: list.splits)

lemma seg_append: "seg h p (xs @ ys) q \<longleftrightarrow> seg h p xs (first_of ys q) \<and> seg h (last_of p xs) ys q"
  by (induction xs arbitrary: p) (auto simp: first_of_append)

lemma seg_frame: "(\<And>x. x \<in> set xs \<Longrightarrow> rn_prev (h' x) = rn_prev (h x) \<and> rn_next (h' x) = rn_next (h x)) \<Longrightarrow> seg h p xs q \<Longrightarrow> seg h' p xs q"
  by (induction xs arbitrary: p) auto

lemma seg_upd: "n \<notin> set xs \<Longrightarrow> seg (h(n := v)) p xs q = seg h p xs q"
  by (induction xs arbitrary: p) auto

lemma seg_set_prev:
  assumes "seg h p (x # xs) q" "x \<notin> set xs"
  shows "seg (h(x := (h x)\<lparr>rn_prev := p'\<rparr>)) p' (x # xs) q"
  using assms by (simp add: seg_upd)

lemma seg_set_next:
  assumes "seg h p (xs @ [x]) q" "x \<notin> set xs"
  shows "seg (h(x := (h x)\<lparr>rn_next := q'\<rparr>)) p (xs @ [x]) q'"
  using assms by (simp add: seg_append seg_upd)

definition dll :: "'l ipRateLimiter \<Rightarrow> nat list \<Rightarrow> bool" where
  "dll c xs = (distinct xs \<and> rl_head c = first_of xs None \<and> rl_tail c = last_of None xs \<and> seg (rl_heap c) None xs None)"

lemma pushFront_dll:
  assumes "dll c xs" "n \<notin> set xs"
  shows "dll (pushFront n c) (n # xs)"
proof (cases xs)
  case Nil
  then show ?thesis using assms by (simp add: dll_def pushFront_def set_next_def set_prev_def Let_def)
next
  case (Cons x ys)
  have "seg ((rl_heap c)(n := (rl_heap c n)\<lparr>rn_next := Some x, rn_prev := None\<rparr>, x := (rl_heap c x)\<lparr>rn_prev := Some n\<rparr>)) None (n # xs) None"
    using assms Cons by (auto simp: dll_def seg_upd)
  moreover have "x \<noteq> n" using assms Cons by auto
  ultimately show ?thesis using assms Cons
    by (auto simp: dll_def pushFront_def set_next_def set_prev_def Let_def last_of_def)
qed

lemma pushFront_keeps:
  "rn_key (rl_heap (pushFront n c) x) = rn_key (rl_heap c x)" "rn_limiter (rl_heap (pushFront n c) x) = rn_limiter (rl_heap c x)"
  "rl_cap (pushFront n c) = rl_cap c" "rl_fresh (pushFront n c) = rl_fresh c" "rl_idx (pushFront n c) = rl_idx c"
  by (auto simp: pushFront_def set_prev_def set_next_def Let_def split: option.splits)

lemma remove_node_keeps:
  "rn_key (rl_heap (remove_node n c) x) = rn_key (rl_heap c x)" "rn_limiter (rl_heap (remove_node n c) x) = rn_limiter (rl_heap c x)"
  "rl_cap (remove_node n c) = rl_cap c" "rl_fresh (remove_node n c) = rl_fresh c" "rl_idx (remove_node n c) = rl_idx c"
  by (auto simp: remove_node_def set_prev_def set_next_def Let_def split: option.splits)

lemma remove_node_dll:
  assumes "dll c (ys @ n # zs)"
  shows "dll (remove_node n c) (ys @ zs)"
proof -
  let ?h = "rl_heap c"
  have d: "distinct (ys @ n # zs)" and s: "seg ?h None ys (Some n)" "seg ?h (Some n) zs None"
    and n: "rn_prev (?h n) = last_of None ys" "rn_next (?h n) = first_of zs None"
    and ends: "rl_head c = first_of (ys @ n # zs) None" "rl_tail c = last_of None (ys @ n # zs)"
    using assms by (auto simp: dll_def seg_append)
  show ?thesis
  proof (cases ys rule: rev_cases)
    case Nil
    show ?thesis
    proof (cases zs)
      case Nil
      then show ?thesis using \<open>ys = []\<close> n ends by (simp add: remove_node_def dll_def set_prev_def set_next_def Let_def)
    next
      case (Cons z zs')
      then have "seg (?h(z := (?h z)\<lparr>rn_prev := None\<rparr>)) None zs None" using s(2) d by (auto simp: seg_upd)
      then show ?thesis using \<open>ys = []\<close> Cons n ends d
        by (auto simp: remove_node_def dll_def set_prev_def set_next_def Let_def seg_upd last_of_def)
    qed
  next
    case (snoc ys' y)
    have y: "seg (?h(y := (?h y)\<lparr>rn_next := first_of zs None\<rparr>)) None ys (first_of zs None)"
      using s(1) snoc d seg_set_next [of ?h None ys' y "Some n"] by auto
    show ?thesis
    proof (cases zs)
      case Nil
      then show ?thesis using snoc n ends d y
        by (auto simp: remove_node_def dll_def set_prev_def set_next_def Let_def seg_upd first_of_append)
    next
      case (Cons z zs')
      have z: "seg (?h(z := (?h z)\<lparr>rn_prev := Some y\<rparr>)) (Some y) zs None" using s(2) d Cons by (auto simp: seg_upd)
      let ?h2 = "?h(y := (?h y)\<lparr>rn_next := Some z\<rparr>, z := (?h z)\<lparr>rn_prev := Some y\<rparr>)"
      have "z \<noteq> y" "y \<notin> set zs" "z \<notin> set ys" "n \<notin> set (ys @ zs)" using d snoc Cons by auto
      then have "seg ?h2 None ys (Some z)" using y Cons by (simp add: seg_upd)
      moreover have "?h2 = ?h(z := (?h z)\<lparr>rn_prev := Some y\<rparr>, y := (?h y)\<lparr>rn_next := Some z\<rparr>)"
        using \<open>z \<noteq> y\<close> by (simp add: fun_upd_twist)
      moreover have "seg (?h(z := (?h z)\<lparr>rn_prev := Some y\<rparr>, y := (?h y)\<lparr>rn_next := Some z\<rparr>)) (Some y) zs None"
        using z \<open>y \<notin> set zs\<close> by (simp add: seg_upd)
      ultimately have "seg ?h2 None (ys @ zs) None" using snoc Cons by (simp add: seg_append)
      moreover have "rl_heap (remove_node n c) = ?h2(n := (?h n)\<lparr>rn_prev := None, rn_next := None\<rparr>)"
        using n snoc Cons d by (auto simp: remove_node_def set_prev_def set_next_def Let_def)
      moreover have "rl_head (remove_node n c) = first_of (ys @ zs) None" "rl_tail (remove_node n c) = last_of None (ys @ zs)"
        using n snoc Cons ends d by (auto simp: remove_node_def set_prev_def set_next_def Let_def first_of_append last_of_def)
      ultimately show ?thesis using d \<open>n \<notin> set (ys @ zs)\<close> by (simp add: dll_def seg_upd)
    qed
  qed
qed

lemma alist_update_absent: "k \<notin> fst ` set al \<Longrightarrow> AList.update k v al = al @ [(k, v)]"
  by (induction al) auto

section \<open>The abstract table\<close>

type_synonym 'l lru = "(string \<times> 'l) list"

definition lru_get :: "nat \<Rightarrow> string \<Rightarrow> 'l \<Rightarrow> 'l lru \<Rightarrow> 'l \<times> 'l lru" where
  "lru_get cap ip lim l =
     (case map_of l ip of
        Some v \<Rightarrow> (v, (ip, v) # filter (\<lambda>e. fst e \<noteq> ip) l)
      | None \<Rightarrow> (lim, take cap ((ip, lim) # l)))"

definition lru_abs :: "'l ipRateLimiter \<Rightarrow> nat list \<Rightarrow> 'l lru" where
  "lru_abs c xs = map (\<lambda>x. (rn_key (rl_heap c x), rn_limiter (rl_heap c x))) xs"

definition lru_ok :: "'l ipRateLimiter \<Rightarrow> nat list \<Rightarrow> bool" where
  "lru_ok c xs =
     (dll c xs \<and> (\<forall>x\<in>set xs. x < rl_fresh c) \<and> distinct (map (\<lambda>x. rn_key (rl_heap c x)) xs) \<and>
      distinct (map fst (rl_idx c)) \<and> set (rl_idx c) = (\<lambda>x. (rn_key (rl_heap c x), x)) ` set xs \<and>
      length xs \<le> rl_cap c \<and> 0 < rl_cap c)"

lemma lru_ok_idx:
  assumes "lru_ok c xs"
  shows "map_of (rl_idx c) k = Some n \<longleftrightarrow> n \<in> set xs \<and> rn_key (rl_heap c n) = k" "length (rl_idx c) = length xs"
proof -
  show "map_of (rl_idx c) k = Some n \<longleftrightarrow> n \<in> set xs \<and> rn_key (rl_heap c n) = k"
    using assms by (auto simp: lru_ok_def image_iff)
  have "distinct (rl_idx c)" using assms by (simp add: lru_ok_def distinct_map)
  then have "length (rl_idx c) = card (set (rl_idx c))" by (simp add: distinct_card)
  also have "\<dots> = card (set xs)" using assms by (auto simp: lru_ok_def intro!: card_image inj_onI)
  also have "\<dots> = length xs" using assms by (simp add: lru_ok_def dll_def distinct_card)
  finally show "length (rl_idx c) = length xs" .
qed

lemma moveFront_dll:
  assumes "dll c (ys @ n # zs)"
  shows "dll (moveFront n c) (n # ys @ zs)"
proof (cases ys)
  case Nil
  then show ?thesis using assms by (simp add: moveFront_def dll_def)
next
  case (Cons y ys')
  then have "rl_head c \<noteq> Some n" using assms by (auto simp: dll_def)
  moreover have "n \<notin> set (ys @ zs)" using assms by (auto simp: dll_def)
  ultimately show ?thesis using pushFront_dll [OF remove_node_dll [OF assms]] by (simp add: moveFront_def)
qed

lemma moveFront_keeps:
  "rn_key (rl_heap (moveFront n c) x) = rn_key (rl_heap c x)" "rn_limiter (rl_heap (moveFront n c) x) = rn_limiter (rl_heap c x)"
  "rl_cap (moveFront n c) = rl_cap c" "rl_fresh (moveFront n c) = rl_fresh c" "rl_idx (moveFront n c) = rl_idx c"
  by (simp_all add: moveFront_def pushFront_keeps remove_node_keeps)

lemma lru_abs_filter: "k \<notin> (\<lambda>x. rn_key (rl_heap c x)) ` set ys \<Longrightarrow> filter (\<lambda>e. fst e \<noteq> k) (lru_abs c ys) = lru_abs c ys"
  by (induction ys) (auto simp: lru_abs_def)

lemma lru_abs_append:
  "lru_abs c (xs @ ys) = lru_abs c xs @ lru_abs c ys" "lru_abs c (x # xs) = (rn_key (rl_heap c x), rn_limiter (rl_heap c x)) # lru_abs c xs"
  "lru_abs c [] = []" "length (lru_abs c xs) = length xs"
  by (simp_all add: lru_abs_def)

lemma lru_hit:
  assumes ok: "lru_ok c xs" and hit: "map_of (rl_idx c) ip = Some n"
  shows "\<exists>xs'. lru_ok (moveFront n c) xs' \<and> (rn_limiter (rl_heap c n), lru_abs (moveFront n c) xs') = lru_get (rl_cap c) ip lim (lru_abs c xs)"
proof -
  have n: "n \<in> set xs" "rn_key (rl_heap c n) = ip" using hit lru_ok_idx(1) [OF ok] by auto
  then obtain ys zs where xs: "xs = ys @ n # zs" by (meson split_list)
  have keys: "distinct (map (\<lambda>x. rn_key (rl_heap c x)) xs)" using ok by (simp add: lru_ok_def)
  have "lru_ok (moveFront n c) (n # ys @ zs)"
    using ok moveFront_dll [of c ys n zs] xs by (auto simp: lru_ok_def moveFront_keeps)
  moreover have "map_of (lru_abs c xs) ip = Some (rn_limiter (rl_heap c n))"
    using keys n by (simp add: lru_abs_def map_of_eq_Some_iff comp_def image_iff) blast
  moreover have "filter (\<lambda>e. fst e \<noteq> ip) (lru_abs c xs) = lru_abs c (ys @ zs)"
    using keys n xs by (auto simp: lru_abs_append lru_abs_filter)
  ultimately show ?thesis
    using n(2) by (intro exI [of _ "n # ys @ zs"]) (simp add: lru_get_def lru_abs_def moveFront_keeps)
qed

lemma lru_miss_push:
  fixes lim :: 'l
  assumes ok: "lru_ok c xs" and miss: "map_of (rl_idx c) ip = None"
  defines "n \<equiv> rl_fresh c"
  defines "c1 \<equiv> pushFront n (c\<lparr>rl_fresh := Suc n, rl_heap := (rl_heap c)(n := \<lparr>rn_prev = None, rn_next = None, rn_key = ip, rn_limiter = lim\<rparr>)\<rparr>)"
  defines "c2 \<equiv> c1\<lparr>rl_idx := AList.update ip n (rl_idx c1)\<rparr>"
  shows "dll c2 (n # xs)" "\<forall>x\<in>set (n # xs). x < rl_fresh c2" "distinct (map (\<lambda>x. rn_key (rl_heap c2 x)) (n # xs))"
    "distinct (map fst (rl_idx c2))" "set (rl_idx c2) = (\<lambda>x. (rn_key (rl_heap c2 x), x)) ` set (n # xs)" "rl_cap c2 = rl_cap c"
    "lru_abs c2 (n # xs) = (ip, lim) # lru_abs c xs" "length (rl_idx c2) = Suc (length xs)"
proof -
  let ?c0 = "c\<lparr>rl_fresh := Suc n, rl_heap := (rl_heap c)(n := \<lparr>rn_prev = None, rn_next = None, rn_key = ip, rn_limiter = lim\<rparr>)\<rparr>"
  have fresh: "n \<notin> set xs" using ok by (auto simp: lru_ok_def n_def)
  have absent: "ip \<notin> fst ` set (rl_idx c)" using miss by (simp add: map_of_eq_None_iff)
  then have upd: "AList.update ip n (rl_idx c) = rl_idx c @ [(ip, n)]" by (rule alist_update_absent)
  have keep: "rn_key (rl_heap c2 x) = (if x = n then ip else rn_key (rl_heap c x))" "rn_limiter (rl_heap c2 x) = (if x = n then lim else rn_limiter (rl_heap c x))" for x
    by (simp_all add: c2_def c1_def pushFront_keeps)
  have idx: "rl_idx c2 = rl_idx c @ [(ip, n)]" by (simp add: c2_def c1_def pushFront_keeps upd)
  have "dll ?c0 xs" using ok fresh by (simp add: lru_ok_def dll_def seg_upd)
  then have "dll c1 (n # xs)" unfolding c1_def using fresh by (rule pushFront_dll)
  then show "dll c2 (n # xs)" by (simp add: c2_def dll_def)
  show "\<forall>x\<in>set (n # xs). x < rl_fresh c2" using ok by (auto simp: lru_ok_def c2_def c1_def pushFront_keeps n_def)
  have "ip \<notin> (\<lambda>x. rn_key (rl_heap c x)) ` set xs" using ok absent by (auto simp: lru_ok_def image_iff)
  then show "distinct (map (\<lambda>x. rn_key (rl_heap c2 x)) (n # xs))"
    using ok fresh by (auto simp: lru_ok_def keep distinct_map inj_on_def image_iff)
  show "distinct (map fst (rl_idx c2))" using ok absent idx by (simp add: lru_ok_def)
  show "set (rl_idx c2) = (\<lambda>x. (rn_key (rl_heap c2 x), x)) ` set (n # xs)"
    using ok fresh idx by (auto simp: lru_ok_def keep image_iff)
  show "rl_cap c2 = rl_cap c" by (simp add: c2_def c1_def pushFront_keeps)
  show "lru_abs c2 (n # xs) = (ip, lim) # lru_abs c xs" using fresh by (auto simp: lru_abs_def keep)
  show "length (rl_idx c2) = Suc (length xs)" using lru_ok_idx(2) [OF ok] idx by simp
qed

lemma lru_evict:
  assumes dll: "dll c (xs @ [v])" and fresh: "\<forall>x\<in>set (xs @ [v]). x < rl_fresh c"
    and keys: "distinct (map (\<lambda>x. rn_key (rl_heap c x)) (xs @ [v]))" and idx: "distinct (map fst (rl_idx c))"
    and ran: "set (rl_idx c) = (\<lambda>x. (rn_key (rl_heap c x), x)) ` set (xs @ [v])" and cap: "length xs \<le> rl_cap c" "0 < rl_cap c"
  defines "c' \<equiv> (remove_node v c)\<lparr>rl_idx := AList.delete (rn_key (rl_heap c v)) (rl_idx c)\<rparr>"
  shows "lru_ok c' xs" "lru_abs c' xs = lru_abs c xs"
proof -
  have heap: "rn_key (rl_heap c' x) = rn_key (rl_heap c x)" "rn_limiter (rl_heap c' x) = rn_limiter (rl_heap c x)" for x
    by (simp_all add: c'_def remove_node_keeps)
  show "lru_abs c' xs = lru_abs c xs" by (simp add: lru_abs_def heap)
  have "dll (remove_node v c) xs" using remove_node_dll [of c xs v "[]"] dll by simp
  then have "dll c' xs" by (simp add: c'_def dll_def)
  moreover have "set (rl_idx c') = (\<lambda>x. (rn_key (rl_heap c' x), x)) ` set xs"
    using ran keys by (auto simp: c'_def heap remove_node_keeps AList.delete_eq image_iff)
  moreover have "distinct (map fst (rl_idx c'))" using idx by (simp add: c'_def AList.distinct_delete)
  ultimately show "lru_ok c' xs" using fresh keys cap heap
    by (simp add: lru_ok_def) (simp add: c'_def remove_node_keeps)
qed

lemma getOrCreate_lru:
  assumes ok: "lru_ok c xs"
  shows "\<exists>xs'. lru_ok (snd (getOrCreate ip lim c)) xs' \<and> rl_cap (snd (getOrCreate ip lim c)) = rl_cap c \<and>
    (fst (getOrCreate ip lim c), lru_abs (snd (getOrCreate ip lim c)) xs') = lru_get (rl_cap c) ip lim (lru_abs c xs)"
proof (cases "map_of (rl_idx c) ip")
  case (Some n)
  then show ?thesis using lru_hit [OF ok Some, of lim] by (simp add: getOrCreate_def moveFront_keeps Let_def)
next
  case None
  let ?n = "rl_fresh c"
  let ?c1 = "pushFront ?n (c\<lparr>rl_fresh := Suc ?n, rl_heap := (rl_heap c)(?n := \<lparr>rn_prev = None, rn_next = None, rn_key = ip, rn_limiter = lim\<rparr>)\<rparr>)"
  let ?c = "?c1\<lparr>rl_idx := AList.update ip ?n (rl_idx ?c1)\<rparr>"
  note push = lru_miss_push [OF ok None, of lim]
  have "ip \<notin> fst ` set (lru_abs c xs)" using None ok by (auto simp: lru_abs_def map_of_eq_None_iff lru_ok_def image_iff)
  then have "map_of (lru_abs c xs) ip = None" by (simp only: map_of_eq_None_iff not_False_eq_True)
  then have spec: "lru_get (rl_cap c) ip lim (lru_abs c xs) = (lim, take (rl_cap c) (lru_abs ?c (?n # xs)))"
    unfolding push(7) by (simp add: lru_get_def)
  have cap: "length xs \<le> rl_cap c" "0 < rl_cap c" using ok by (simp_all add: lru_ok_def)
  show ?thesis
  proof (cases "length (rl_idx ?c) > rl_cap ?c")
    case False
    then have "getOrCreate ip lim c = (lim, ?c)" using None by (simp add: getOrCreate_def Let_def)
    moreover have "lru_ok ?c (?n # xs)" using push False cap by (simp add: lru_ok_def)
    moreover have "length (lru_abs ?c (?n # xs)) \<le> rl_cap c" using False push(6,8) by (simp add: lru_abs_append)
    ultimately show ?thesis using spec push(6) by (intro exI [of _ "?n # xs"]) simp
  next
    case True
    then have len: "length xs = rl_cap c" using push(6,8) cap by simp
    define ys v where "ys = butlast (?n # xs)" and "v = last (?n # xs)"
    have split: "?n # xs = ys @ [v]" unfolding ys_def v_def by (simp add: append_butlast_last_id)
    have "rl_tail ?c = Some v" using push(1) unfolding split by (simp add: dll_def)
    let ?d = "(remove_node v ?c)\<lparr>rl_idx := AList.delete (rn_key (rl_heap ?c v)) (rl_idx ?c)\<rparr>"
    have "getOrCreate ip lim c = (lim, ?d)"
      using None True \<open>rl_tail ?c = Some v\<close> by (simp add: getOrCreate_def Let_def remove_node_keeps)
    moreover have "length ys = rl_cap c" using split len by (metis length_Cons length_append_singleton nat.inject)
    moreover have "lru_ok ?d ys" "lru_abs ?d ys = lru_abs ?c ys"
      using lru_evict [of ?c ys v] push(1-6) cap \<open>length ys = rl_cap c\<close> unfolding split by simp_all
    moreover have "rl_cap ?d = rl_cap c" using push(6) by (simp add: remove_node_keeps)
    ultimately show ?thesis using spec unfolding split
      by (intro exI [of _ ys]) (simp add: lru_abs_append)
  qed
qed

section \<open>Sequences of requests\<close>

text \<open>
  The mutex makes every call atomic, so the life of a table is a sequence of
  calls.  The interface of the table is its refinement of the abstract list;
  the runs are proved once against it.
\<close>

datatype 'l limiter_call = Get string 'l | Reset

fun lru_run :: "nat \<Rightarrow> 'l limiter_call list \<Rightarrow> 'l lru \<Rightarrow> 'l list \<times> 'l lru" where
  "lru_run cap [] l = ([], l)"
| "lru_run cap (Get ip lim # cs) l =
     (let (v, l) = lru_get cap ip lim l; (vs, l) = lru_run cap cs l in (v # vs, l))"
| "lru_run cap (Reset # cs) l = lru_run cap cs []"

fun limiter_run :: "'l limiter_call list \<Rightarrow> 'l ipRateLimiter \<Rightarrow> 'l list \<times> 'l ipRateLimiter" where
  "limiter_run [] c = ([], c)"
| "limiter_run (Get ip lim # cs) c =
     (let (v, c) = getOrCreate ip lim c; (vs, c) = limiter_run cs c in (v # vs, c))"
| "limiter_run (Reset # cs) c = limiter_run cs (reset_limiters c)"

locale lru_table =
  fixes get :: "string \<Rightarrow> 'l \<Rightarrow> 's \<Rightarrow> 'l \<times> 's" and reset :: "'s \<Rightarrow> 's" and run :: "'l limiter_call list \<Rightarrow> 's \<Rightarrow> 'l list \<times> 's"
    and shows_lru :: "'s \<Rightarrow> 'l lru \<Rightarrow> bool" and capacity :: "'s \<Rightarrow> nat"
  assumes get_lru: "shows_lru s l \<Longrightarrow> shows_lru (snd (get ip lim s)) (snd (lru_get (capacity s) ip lim l)) \<and>
      fst (get ip lim s) = fst (lru_get (capacity s) ip lim l) \<and> capacity (snd (get ip lim s)) = capacity s"
    and reset_lru: "shows_lru s l \<Longrightarrow> shows_lru (reset s) [] \<and> capacity (reset s) = capacity s"
    and run_simps: "run [] s = ([], s)"
      "run (Get ip lim # cs) s = (let (v, s) = get ip lim s; (vs, s) = run cs s in (v # vs, s))"
      "run (Reset # cs) s = run cs (reset s)"
begin

lemma run_lru:
  "shows_lru s l \<Longrightarrow> shows_lru (snd (run cs s)) (snd (lru_run (capacity s) cs l)) \<and>
     fst (run cs s) = fst (lru_run (capacity s) cs l) \<and> capacity (snd (run cs s)) = capacity s"
proof (induction cs arbitrary: s l)
  case Nil
  then show ?case by (simp add: run_simps)
next
  case (Cons k cs)
  show ?case
  proof (cases k)
    case (Get ip lim)
    note step = get_lru [OF Cons.prems, of ip lim]
    show ?thesis using step Cons.IH [OF step [THEN conjunct1]]
      by (auto simp: Get run_simps split_beta Let_def)
  next
    case Reset
    then show ?thesis using reset_lru [OF Cons.prems] Cons.IH [of "reset s" "[]"] by (simp add: run_simps)
  qed
qed

end

definition limiter_shows :: "'l ipRateLimiter \<Rightarrow> 'l lru \<Rightarrow> bool" where
  "limiter_shows c l = (\<exists>xs. lru_ok c xs \<and> l = lru_abs c xs)"

interpretation limiter: lru_table getOrCreate reset_limiters limiter_run limiter_shows rl_cap
proof unfold_locales
  fix s :: "'a ipRateLimiter" and l :: "'a lru" and ip :: string and lim :: 'a
  assume "limiter_shows s l"
  then obtain xs where xs: "lru_ok s xs" "l = lru_abs s xs" by (auto simp: limiter_shows_def)
  then show "limiter_shows (snd (getOrCreate ip lim s)) (snd (lru_get (rl_cap s) ip lim l)) \<and>
      fst (getOrCreate ip lim s) = fst (lru_get (rl_cap s) ip lim l) \<and> rl_cap (snd (getOrCreate ip lim s)) = rl_cap s"
    using getOrCreate_lru [OF xs(1), of ip lim] unfolding limiter_shows_def by (metis prod.sel)
next
  fix s :: "'a ipRateLimiter" and l :: "'a lru"
  assume "limiter_shows s l"
  then show "limiter_shows (reset_limiters s) [] \<and> rl_cap (reset_limiters s) = rl_cap s"
    by (auto simp: limiter_shows_def reset_limiters_def lru_ok_def dll_def lru_abs_def intro!: exI [of _ "[]"])
qed auto

lemma limiter_shows_new: "limiter_shows (newIPRateLimiter blank cap) []"
  by (auto simp: limiter_shows_def newIPRateLimiter_def lru_ok_def dll_def lru_abs_def)

lemma limiter_shows_size:
  assumes "limiter_shows c l"
  shows "length (rl_idx c) = length l" "length l \<le> rl_cap c" "distinct (map fst l)"
proof -
  obtain xs where xs: "lru_ok c xs" "l = lru_abs c xs" using assms by (auto simp: limiter_shows_def)
  show "length (rl_idx c) = length l" using lru_ok_idx(2) [OF xs(1)] xs(2) by (simp add: lru_abs_append)
  show "length l \<le> rl_cap c" "distinct (map fst l)" using xs by (simp_all add: lru_ok_def lru_abs_def comp_def)
qed

lemma lru_get_keeps:
  assumes "l = pre @ (ip, v) # post" "distinct (map fst l)" "fst ` set pre \<subseteq> K" "k \<in> K" "ip \<notin> K" "finite K" "card K < cap"
  shows "\<exists>pre' post'. snd (lru_get cap k lim l) = pre' @ (ip, v) # post' \<and> fst ` set pre' \<subseteq> K"
proof (cases "map_of l k")
  case (Some w)
  have "k \<noteq> ip" using assms by auto
  then have "snd (lru_get cap k lim l) = ((k, w) # filter (\<lambda>e. fst e \<noteq> k) pre) @ (ip, v) # filter (\<lambda>e. fst e \<noteq> k) post"
    using Some assms(1) by (simp add: lru_get_def)
  moreover have "fst ` set ((k, w) # filter (\<lambda>e. fst e \<noteq> k) pre) \<subseteq> K" using assms(3,4) by auto
  ultimately show ?thesis by blast
next
  case None
  have d: "distinct (map fst ((k, lim) # pre))" using None assms by (auto simp: map_of_eq_None_iff)
  have "length ((k, lim) # pre) = card (fst ` set ((k, lim) # pre))"
    using distinct_card [OF d] by (simp del: distinct.simps)
  also have "\<dots> \<le> card K" using assms by (intro card_mono) auto
  finally have "length ((k, lim) # pre) < cap" using assms(7) by simp
  moreover have "snd (lru_get cap k lim l) = take cap (((k, lim) # pre) @ (ip, v) # post)"
    using None by (simp add: lru_get_def) (simp add: assms(1))
  ultimately have "snd (lru_get cap k lim l) = ((k, lim) # pre) @ (ip, v) # take (cap - length pre - 2) post"
    by (simp add: take_Cons' numeral_2_eq_2)
  moreover have "fst ` set ((k, lim) # pre) \<subseteq> K" using assms(3,4) by auto
  ultimately show ?thesis by blast
qed

text \<open>The calls that ask for one of the addresses of \<open>K\<close>.\<close>

definition asks_only :: "string set \<Rightarrow> 'l limiter_call list \<Rightarrow> bool" where
  "asks_only K cs = list_all (\<lambda>c. case c of Get k _ \<Rightarrow> k \<in> K | Reset \<Rightarrow> False) cs"

lemma limiter_run_keeps:
  assumes "limiter_shows c l" "l = pre @ (ip, v) # post" "fst ` set pre \<subseteq> K" "asks_only K cs" "ip \<notin> K" "finite K" "card K < rl_cap c"
  shows "\<exists>l' pre' post'. limiter_shows (snd (limiter_run cs c)) l' \<and> l' = pre' @ (ip, v) # post' \<and> rl_cap (snd (limiter_run cs c)) = rl_cap c"
  using assms
proof (induction cs arbitrary: c l pre post)
  case Nil
  then show ?case by auto
next
  case (Cons k cs)
  then obtain a lim where k: "k = Get a lim" "a \<in> K" by (cases k) (auto simp: asks_only_def)
  note step = limiter.get_lru [OF Cons.prems(1), of a lim]
  obtain pre' post' where l: "snd (lru_get (rl_cap c) a lim l) = pre' @ (ip, v) # post'" "fst ` set pre' \<subseteq> K"
    using lru_get_keeps [OF Cons.prems(2) limiter_shows_size(3) [OF Cons.prems(1)] Cons.prems(3) k(2) Cons.prems(5,6,7)] by blast
  have "asks_only K cs" using Cons.prems(4) by (simp add: asks_only_def)
  then have "\<exists>l' pre' post'. limiter_shows (snd (limiter_run cs (snd (getOrCreate a lim c)))) l' \<and> l' = pre' @ (ip, v) # post' \<and>
      rl_cap (snd (limiter_run cs (snd (getOrCreate a lim c)))) = rl_cap (snd (getOrCreate a lim c))"
    using Cons.IH [OF step [THEN conjunct1] l] Cons.prems(5-7) step by simp
  then show ?case using step by (simp add: k(1) split_beta Let_def)
qed

lemma lru_get_front:
  "0 < cap \<Longrightarrow> \<exists>post. snd (lru_get cap ip lim l) = [] @ (ip, fst (lru_get cap ip lim l)) # post"
  by (auto simp: lru_get_def take_Cons' split: option.splits)

lemma lru_get_hit: "distinct (map fst l) \<Longrightarrow> l = pre @ (ip, v) # post \<Longrightarrow> fst (lru_get cap ip lim l) = v"
  using map_of_eq_Some_iff [of l ip v] by (simp add: lru_get_def)

text \<open>
  C28: Whatever calls a table of rate limiters receives from its creation on,
  the limiters it hands out are those of a plain list of the least recently
  used addresses, and its index never exceeds the capacity, 16384 when the
  configured capacity is not positive.
\<close>

theorem limiter_run_is_lru:
  "fst (limiter_run cs (newIPRateLimiter blank cap)) = fst (lru_run (if cap \<le> 0 then 16384 else nat cap) cs []) \<and>
   length (rl_idx (snd (limiter_run cs (newIPRateLimiter blank cap)))) \<le> (if cap \<le> 0 then 16384 else nat cap)"
proof -
  have c: "rl_cap (newIPRateLimiter blank cap) = (if cap \<le> 0 then 16384 else nat cap)" by (simp add: newIPRateLimiter_def)
  note run = limiter.run_lru [OF limiter_shows_new [of blank cap], of cs]
  have "length (rl_idx (snd (limiter_run cs (newIPRateLimiter blank cap)))) \<le> rl_cap (snd (limiter_run cs (newIPRateLimiter blank cap)))"
    using limiter_shows_size(1,2) [OF run [THEN conjunct1]] by simp
  then show ?thesis using run unfolding c by simp
qed

text \<open>
  A client cannot get a fresh limiter, and with it a fresh burst, by
  reconnecting: after any history, two calls for the same address get the
  same limiter as long as fewer distinct other addresses than the capacity
  asked in between and the table was not reset.
\<close>

theorem limiter_remembers:
  assumes "asks_only K between" "ip \<notin> K" "finite K" "card K < (if cap \<le> 0 then 16384 else nat cap)"
  shows "let before = snd (limiter_run history (newIPRateLimiter blank cap)); first = getOrCreate ip lim before
    in fst (getOrCreate ip lim' (snd (limiter_run between (snd first)))) = fst first"
proof -
  define before where "before = snd (limiter_run history (newIPRateLimiter blank cap))"
  define first where "first = getOrCreate ip lim before"
  have run: "limiter_shows before (snd (lru_run (rl_cap (newIPRateLimiter blank cap)) history []))" "rl_cap before = rl_cap (newIPRateLimiter blank cap)"
    using limiter.run_lru [OF limiter_shows_new [of blank cap], of history] by (simp_all add: before_def)
  have cap: "rl_cap before = (if cap \<le> 0 then 16384 else nat cap)" using run(2) by (simp add: newIPRateLimiter_def)
  then have "0 < rl_cap before" by simp
  note step = limiter.get_lru [OF run(1), of ip lim]
  from \<open>0 < rl_cap before\<close> obtain post where
    front: "snd (lru_get (rl_cap before) ip lim (snd (lru_run (rl_cap (newIPRateLimiter blank cap)) history []))) = [] @ (ip, fst first) # post"
    using lru_get_front step unfolding first_def by metis
  have "card K < rl_cap (snd first)" using assms(4) step cap by (simp add: first_def)
  then obtain l' pre' post' where after: "limiter_shows (snd (limiter_run between (snd first))) l'" "l' = pre' @ (ip, fst first) # post'"
    using limiter_run_keeps [OF step [THEN conjunct1, folded first_def] front _ assms(1-3)] by auto
  have "fst (getOrCreate ip lim' (snd (limiter_run between (snd first)))) = fst first"
    using limiter.get_lru [OF after(1), of ip lim'] lru_get_hit [OF limiter_shows_size(3) [OF after(1)] after(2)] by simp
  then show ?thesis by (simp add: Let_def first_def before_def)
qed

theorem limiter_remembers_witness:
  "let first = getOrCreate ''10.0.0.1'' (1::nat)
      (snd (limiter_run [Get ''10.0.0.7'' 7, Get ''10.0.0.8'' 8] (newIPRateLimiter \<lparr>rn_prev = None, rn_next = None, rn_key = [], rn_limiter = 0\<rparr> 2)))
   in fst (getOrCreate ''10.0.0.1'' 9 (snd (limiter_run [Get ''10.0.0.2'' 2] (snd first)))) = fst first \<and> fst first = 1"
proof -
  have "let first = getOrCreate ''10.0.0.1'' (1::nat)
      (snd (limiter_run [Get ''10.0.0.7'' 7, Get ''10.0.0.8'' 8] (newIPRateLimiter \<lparr>rn_prev = None, rn_next = None, rn_key = [], rn_limiter = 0\<rparr> 2)))
    in fst first = 1"
    by code_simp
  then show ?thesis
    using limiter_remembers [where K = "{''10.0.0.2''}" and between = "[Get ''10.0.0.2'' (2::nat)]" and ip = "''10.0.0.1''" and cap = 2
        and lim' = 9 and lim = 1 and history = "[Get ''10.0.0.7'' 7, Get ''10.0.0.8'' 8]"
        and blank = "\<lparr>rn_prev = None, rn_next = None, rn_key = [], rn_limiter = 0\<rparr>"]
    unfolding Let_def by (simp add: asks_only_def del: limiter_run.simps)
qed

end
