(* ===== verification/Upstream_Pool.thy ===== *)
theory Upstream_Pool
  imports Go_Lib "HOL-Library.AList" "HOL-Library.Multiset"
begin

text \<open>
  The pool of idle upstream connections of \<open>proxy/upstream_pool.go\<close> and its
  use by the server: \<open>acquireUpstream\<close>, the release of a lease,
  \<open>closeIdleUpstreamConnections\<close> and \<open>SetUpstreamPool\<close> of \<open>proxy/server.go\<close>.

  A connection is a number, its position in the sequence of successful dials.
  The buffered reader made with a connection stays with it; what the pool reads
  of it is the number of buffered bytes at the release.  Times and durations
  are integers.  The operations return the connections they close.
\<close>

section \<open>The pool\<close>

definition defaultUpstreamMaxIdlePerHost :: int where
  "defaultUpstreamMaxIdlePerHost = 32"

definition defaultUpstreamIdleTimeout :: int where
  "defaultUpstreamIdleTimeout = 90 * 1000000000"

record UpstreamPoolConfig =
  cfg_MaxIdlePerHost :: int
  cfg_IdleTimeout :: int

record upstreamPoolKey =
  pk_scheme :: string
  pk_address :: string
  pk_serverName :: string
  pk_alpn :: string
  pk_specID :: string

record pooledUpstreamConn =
  pc_conn :: nat
  pc_lastUsed :: int

record upstreamConnPool =
  up_idle :: "(upstreamPoolKey \<times> pooledUpstreamConn list) list"
  up_maxIdlePerHost :: int
  up_idleTimeout :: int

definition newUpstreamConnPool :: "UpstreamPoolConfig \<Rightarrow> upstreamConnPool option" where
  "newUpstreamConnPool cfg =
     (if cfg_MaxIdlePerHost cfg \<le> 0 then None
      else Some \<lparr>up_idle = [], up_maxIdlePerHost = cfg_MaxIdlePerHost cfg,
                 up_idleTimeout = (if cfg_IdleTimeout cfg \<le> 0 then defaultUpstreamIdleTimeout else cfg_IdleTimeout cfg)\<rparr>)"

definition idle_of :: "upstreamConnPool \<Rightarrow> upstreamPoolKey \<Rightarrow> pooledUpstreamConn list" where
  "idle_of p key = (case map_of (up_idle p) key of Some l \<Rightarrow> l | None \<Rightarrow> [])"

text \<open>The loop of \<open>takeIdle\<close>: the connection found with the remaining ones, and the connections closed on the way.\<close>

function take_loop :: "int \<Rightarrow> int \<Rightarrow> pooledUpstreamConn list \<Rightarrow> (pooledUpstreamConn \<times> pooledUpstreamConn list) option \<times> nat list" where
  "take_loop timeout now idle =
     (if idle = [] then (None, [])
      else let pooled = last idle; idle = butlast idle
           in if now - pc_lastUsed pooled \<le> timeout then (Some (pooled, idle), [])
              else let (r, closed) = take_loop timeout now idle in (r, pc_conn pooled # closed))"
  by pat_completeness auto
termination
  by (relation "measure (\<lambda>(_, _, idle). length idle)") auto

declare take_loop.simps [simp del]

definition takeIdle :: "upstreamPoolKey \<Rightarrow> int \<Rightarrow> upstreamConnPool \<Rightarrow> pooledUpstreamConn option \<times> upstreamConnPool \<times> nat list" where
  "takeIdle key now p =
     (case take_loop (up_idleTimeout p) now (idle_of p key) of
        (Some (pooled, idle), closed) \<Rightarrow>
          (Some pooled, p\<lparr>up_idle := (if idle = [] then AList.delete key (up_idle p) else AList.update key idle (up_idle p))\<rparr>, closed)
      | (None, closed) \<Rightarrow> (None, p\<lparr>up_idle := AList.delete key (up_idle p)\<rparr>, closed))"

text \<open>
  \<open>dialled\<close> is the result the dial function has if it is called.  The lease is
  the connection; its key stays with the caller for the release.
\<close>

definition acquire :: "upstreamPoolKey \<Rightarrow> int \<Rightarrow> nat result \<Rightarrow> upstreamConnPool option \<Rightarrow> nat result \<times> upstreamConnPool option \<times> nat list" where
  "acquire key now dialled p =
     (case p of
        None \<Rightarrow> (dialled, None, [])
      | Some q \<Rightarrow>
          (case takeIdle key now q of
             (Some pooled, q, closed) \<Rightarrow> (Inr (pc_conn pooled), Some q, closed)
           | (None, q, closed) \<Rightarrow> (dialled, Some q, closed)))"

text \<open>
  \<open>buffered\<close> is \<open>None\<close> for a nil reader.  The result \<open>None\<close> is the panic of
  slicing an empty list of idle connections.
\<close>

definition release :: "upstreamPoolKey \<Rightarrow> nat \<Rightarrow> nat option \<Rightarrow> bool \<Rightarrow> int \<Rightarrow> upstreamConnPool option \<Rightarrow> (upstreamConnPool option \<times> nat list) option" where
  "release key conn buffered reusable now p =
     (case p of
        None \<Rightarrow> Some (None, [conn])
      | Some q \<Rightarrow>
          if \<not> reusable \<or> buffered \<noteq> Some 0 then Some (Some q, [conn])
          else
            (let idle = idle_of q key;
                 pooled = \<lparr>pc_conn = conn, pc_lastUsed = now\<rparr>
             in if int (length idle) \<ge> up_maxIdlePerHost q
                then case idle of
                       [] \<Rightarrow> None
                     | oldest # idle \<Rightarrow> Some (Some (q\<lparr>up_idle := AList.update key (idle @ [pooled]) (up_idle q)\<rparr>), [pc_conn oldest])
                else Some (Some (q\<lparr>up_idle := AList.update key (idle @ [pooled]) (up_idle q)\<rparr>), [])))"

definition pool_conns :: "upstreamConnPool option \<Rightarrow> nat list" where
  "pool_conns p = (case p of None \<Rightarrow> [] | Some q \<Rightarrow> concat (map (\<lambda>(_, l). map pc_conn l) (up_idle q)))"

definition closeIdle :: "upstreamConnPool option \<Rightarrow> upstreamConnPool option \<times> nat list" where
  "closeIdle p = (case p of None \<Rightarrow> (None, []) | Some q \<Rightarrow> (Some (q\<lparr>up_idle := []\<rparr>), pool_conns p))"

section \<open>The server's use of the pool\<close>

text \<open>
  \<open>SetUpstreamPool\<close> replaces the pool, and a lease returns to the pool it was
  taken from: the state keeps every pool, the last one being the current one.
  \<open>ps_dialed\<close> has the key every connection was dialled for.
\<close>

record pool_sys =
  ps_pools :: "upstreamConnPool option list"
  ps_leased :: "(nat \<times> upstreamPoolKey \<times> nat) list"
  ps_closed :: "nat list"
  ps_dialed :: "upstreamPoolKey list"

definition acquireUpstream :: "upstreamPoolKey \<Rightarrow> int \<Rightarrow> nat result \<Rightarrow> pool_sys \<Rightarrow> nat result \<times> pool_sys" where
  "acquireUpstream key now dialled s =
     (case acquire key now dialled (last (ps_pools s)) of
        (r, p, closed) \<Rightarrow>
          (r, s\<lparr>ps_pools := (ps_pools s)[length (ps_pools s) - 1 := p],
                ps_leased := (case r of Inr c \<Rightarrow> (c, key, length (ps_pools s) - 1) # ps_leased s | Inl _ \<Rightarrow> ps_leased s),
                ps_closed := closed @ ps_closed s,
                ps_dialed := (if r = dialled \<and> r = Inr (length (ps_dialed s)) then ps_dialed s @ [key] else ps_dialed s)\<rparr>))"

definition release_lease :: "nat \<times> upstreamPoolKey \<times> nat \<Rightarrow> nat option \<Rightarrow> bool \<Rightarrow> int \<Rightarrow> pool_sys \<Rightarrow> pool_sys option" where
  "release_lease lease buffered reusable now s =
     (case lease of (c, key, g) \<Rightarrow>
        (case release key c buffered reusable now (ps_pools s ! g) of
           None \<Rightarrow> None
         | Some (p, closed) \<Rightarrow>
             Some (s\<lparr>ps_pools := (ps_pools s)[g := p], ps_leased := remove1 lease (ps_leased s), ps_closed := closed @ ps_closed s\<rparr>)))"

definition closeIdleUpstreamConnections :: "pool_sys \<Rightarrow> pool_sys" where
  "closeIdleUpstreamConnections s =
     (let (p, closed) = closeIdle (last (ps_pools s))
      in s\<lparr>ps_pools := (ps_pools s)[length (ps_pools s) - 1 := p], ps_closed := closed @ ps_closed s\<rparr>)"

definition SetUpstreamPool :: "UpstreamPoolConfig \<Rightarrow> pool_sys \<Rightarrow> pool_sys" where
  "SetUpstreamPool cfg s =
     (let s = closeIdleUpstreamConnections s in s\<lparr>ps_pools := ps_pools s @ [newUpstreamConnPool cfg]\<rparr>)"

definition pool_start :: "UpstreamPoolConfig \<Rightarrow> pool_sys" where
  "pool_start cfg = \<lparr>ps_pools = [newUpstreamConnPool cfg], ps_leased = [], ps_closed = [], ps_dialed = []\<rparr>"

text \<open>
  The steps of a server.  A successful dial opens a new connection; a lease is
  released once, by the deferred call of the handler that holds it.
\<close>

inductive pool_step :: "pool_sys \<Rightarrow> pool_sys \<Rightarrow> bool" where
  acquired: "dialled = Inr (length (ps_dialed s)) \<or> dialled = Inl e \<Longrightarrow> pool_step s (snd (acquireUpstream key now dialled s))"
| released: "lease \<in> set (ps_leased s) \<Longrightarrow> release_lease lease buffered reusable now s = Some s' \<Longrightarrow> pool_step s s'"
| idle_closed: "pool_step s (closeIdleUpstreamConnections s)"
| reconfigured: "pool_step s (SetUpstreamPool cfg s)"

inductive pool_reachable :: "UpstreamPoolConfig \<Rightarrow> pool_sys \<Rightarrow> bool" for cfg where
  start: "pool_reachable cfg (pool_start cfg)"
| step: "pool_reachable cfg s \<Longrightarrow> pool_step s s' \<Longrightarrow> pool_reachable cfg s'"

section \<open>Conservation of connections\<close>

definition conns_of :: "(upstreamPoolKey \<times> pooledUpstreamConn list) list \<Rightarrow> nat list" where
  "conns_of al = concat (map (\<lambda>(_, l). map pc_conn l) al)"

definition lookup_idle :: "(upstreamPoolKey \<times> pooledUpstreamConn list) list \<Rightarrow> upstreamPoolKey \<Rightarrow> pooledUpstreamConn list" where
  "lookup_idle al key = (case map_of al key of Some l \<Rightarrow> l | None \<Rightarrow> [])"

lemma pool_conns_Some: "pool_conns (Some q) = conns_of (up_idle q)"
  by (simp add: pool_conns_def conns_of_def)

lemma idle_of_lookup: "idle_of q key = lookup_idle (up_idle q) key"
  by (simp add: idle_of_def lookup_idle_def)

lemma conns_of_simps: "conns_of [] = []" "conns_of ((k, l) # al) = map pc_conn l @ conns_of al"
  by (simp_all add: conns_of_def)

lemma lookup_idle_simps: "lookup_idle [] key = []" "lookup_idle ((k, l) # al) key = (if k = key then l else lookup_idle al key)"
  by (simp_all add: lookup_idle_def)

lemma lookup_idle_absent: "key \<notin> fst ` set al \<Longrightarrow> lookup_idle al key = []"
  by (induction al) (auto simp: lookup_idle_simps)

lemma lookup_idle_in: "lookup_idle al key = [] \<or> (key, lookup_idle al key) \<in> set al"
  by (auto simp: lookup_idle_def split: option.splits dest: map_of_SomeD)

lemma conns_of_delete:
  "distinct (map fst al) \<Longrightarrow> mset (conns_of al) = mset (conns_of (AList.delete key al)) + mset (map pc_conn (lookup_idle al key))"
proof (induction al)
  case (Cons a al)
  obtain k l where a: "a = (k, l)" by (cases a)
  show ?case
  proof (cases "k = key")
    case True
    then have "AList.delete key al = al" using Cons.prems a by (auto intro!: delete_idem)
    then show ?thesis using True a by (simp add: conns_of_simps lookup_idle_simps)
  qed (use Cons a in \<open>simp add: conns_of_simps lookup_idle_simps\<close>)
qed (simp add: conns_of_simps lookup_idle_simps)

lemma conns_of_update:
  "distinct (map fst al) \<Longrightarrow> mset (conns_of (AList.update key l al)) + mset (map pc_conn (lookup_idle al key)) = mset (conns_of al) + mset (map pc_conn l)"
  by (induction al) (auto simp: conns_of_simps lookup_idle_simps lookup_idle_absent)

lemma take_loop_spec:
  "take_loop timeout now idle = (r, closed) \<Longrightarrow>
     (case r of
        None \<Rightarrow> mset (map pc_conn idle) = mset closed
      | Some (x, rest) \<Rightarrow> mset (map pc_conn idle) = add_mset (pc_conn x) (mset (map pc_conn rest) + mset closed) \<and>
          now - pc_lastUsed x \<le> timeout \<and> set rest \<subseteq> set idle \<and> x \<in> set idle \<and> length rest \<le> length idle)"
proof (induction timeout now idle arbitrary: r closed rule: take_loop.induct)
  case (1 timeout now idle)
  show ?case
  proof (cases idle rule: rev_cases)
    case Nil
    then show ?thesis using "1.prems" by (auto simp: take_loop.simps [of _ _ "[]"])
  next
    case (snoc ys x)
    show ?thesis
    proof (cases "now - pc_lastUsed x \<le> timeout")
      case True
      then show ?thesis using "1.prems" snoc by (auto simp: take_loop.simps [of _ _ "ys @ [x]"])
    next
      case False
      obtain r' closed' where rec: "take_loop timeout now ys = (r', closed')" by fastforce
      then have "r = r'" "closed = pc_conn x # closed'" using "1.prems" False snoc by (simp_all add: take_loop.simps [of _ _ "ys @ [x]"])
      moreover have "case r' of
        None \<Rightarrow> mset (map pc_conn ys) = mset closed'
      | Some (x, rest) \<Rightarrow> mset (map pc_conn ys) = add_mset (pc_conn x) (mset (map pc_conn rest) + mset closed') \<and>
          now - pc_lastUsed x \<le> timeout \<and> set rest \<subseteq> set ys \<and> x \<in> set ys \<and> length rest \<le> length ys"
        using "1.IH" [of "last idle" "butlast idle" r' closed'] rec False unfolding snoc by (simp only: butlast_snoc last_snoc) simp
      ultimately show ?thesis using snoc by (auto split: option.splits)
    qed
  qed
qed

text \<open>
  A pool is in order when its index has one entry per key, no entry exceeds
  the limit, and the connections under a key were dialled for it.
\<close>

definition pool_ok :: "upstreamPoolKey list \<Rightarrow> upstreamConnPool option \<Rightarrow> bool" where
  "pool_ok dialed p =
     (case p of None \<Rightarrow> True
      | Some q \<Rightarrow> 0 < up_maxIdlePerHost q \<and> distinct (map fst (up_idle q)) \<and>
          (\<forall>(k, l)\<in>set (up_idle q). int (length l) \<le> up_maxIdlePerHost q \<and> (\<forall>x\<in>set l. pc_conn x < length dialed \<and> dialed ! pc_conn x = k)))"

definition entry_ok :: "upstreamPoolKey list \<Rightarrow> int \<Rightarrow> upstreamPoolKey \<Rightarrow> pooledUpstreamConn list \<Rightarrow> bool" where
  "entry_ok dialed m k l = (int (length l) \<le> m \<and> (\<forall>x\<in>set l. pc_conn x < length dialed \<and> dialed ! pc_conn x = k))"

lemma pool_ok_Some:
  "pool_ok dialed (Some q) \<longleftrightarrow> 0 < up_maxIdlePerHost q \<and> distinct (map fst (up_idle q)) \<and>
     (\<forall>e\<in>set (up_idle q). entry_ok dialed (up_maxIdlePerHost q) (fst e) (snd e))"
  by (auto simp: pool_ok_def entry_ok_def)

lemma entry_ok_lookup: "pool_ok dialed (Some q) \<Longrightarrow> entry_ok dialed (up_maxIdlePerHost q) key (lookup_idle (up_idle q) key)"
  using lookup_idle_in [of "up_idle q" key] by (auto simp: pool_ok_Some) (simp add: entry_ok_def)

lemma set_update_subset: "e \<in> set (AList.update k v al) \<Longrightarrow> e = (k, v) \<or> e \<in> set al"
  by (induction al) (auto split: if_splits)

lemma pool_ok_update:
  "pool_ok dialed (Some q) \<Longrightarrow> entry_ok dialed (up_maxIdlePerHost q) key l \<Longrightarrow> pool_ok dialed (Some (q\<lparr>up_idle := AList.update key l (up_idle q)\<rparr>))"
  by (auto simp: pool_ok_Some distinct_update dest!: set_update_subset)

lemma pool_ok_delete: "pool_ok dialed (Some q) \<Longrightarrow> pool_ok dialed (Some (q\<lparr>up_idle := AList.delete key (up_idle q)\<rparr>))"
  by (auto simp: pool_ok_Some AList.delete_eq distinct_map_filter)

lemma pool_ok_more: "pool_ok dialed p \<Longrightarrow> pool_ok (dialed @ ks) p"
  by (cases p) (fastforce simp: pool_ok_Some entry_ok_def nth_append pool_ok_def)+

lemma acquire_spec:
  assumes ok: "pool_ok dialed p" and a: "acquire key now dialled p = (r, p', closed)"
  shows "pool_ok dialed p' \<and>
    (r = dialled \<and> mset (pool_conns p) = mset (pool_conns p') + mset closed \<or>
     (\<exists>c. r = Inr c \<and> mset (pool_conns p) = add_mset c (mset (pool_conns p') + mset closed) \<and> c < length dialed \<and> dialed ! c = key))"
proof (cases p)
  case None
  then show ?thesis using a by (auto simp: acquire_def pool_ok_def)
next
  case (Some q)
  have d: "distinct (map fst (up_idle q))" using ok Some by (simp add: pool_ok_Some)
  note del = conns_of_delete [OF d, of key]
  have entry: "entry_ok dialed (up_maxIdlePerHost q) key (lookup_idle (up_idle q) key)" using ok Some entry_ok_lookup by simp
  obtain t closed' where t: "take_loop (up_idleTimeout q) now (lookup_idle (up_idle q) key) = (t, closed')" by fastforce
  show ?thesis
  proof (cases t)
    case None
    then have "r = dialled" "p' = Some (q\<lparr>up_idle := AList.delete key (up_idle q)\<rparr>)" "closed = closed'"
      using a Some t by (auto simp: acquire_def takeIdle_def idle_of_lookup)
    then show ?thesis using take_loop_spec [OF t] None del Some pool_ok_delete ok by (simp add: pool_conns_Some)
  next
    case (Some xr)
    obtain x rest where xr: "t = Some (x, rest)" using Some by (cases xr) auto
    have r: "r = Inr (pc_conn x)" "closed = closed'"
      "p' = Some (q\<lparr>up_idle := (if rest = [] then AList.delete key (up_idle q) else AList.update key rest (up_idle q))\<rparr>)"
      using a \<open>p = Some q\<close> t xr by (auto simp: acquire_def takeIdle_def idle_of_lookup)
    have sp: "mset (map pc_conn (lookup_idle (up_idle q) key)) = add_mset (pc_conn x) (mset (map pc_conn rest) + mset closed')"
      "set rest \<subseteq> set (lookup_idle (up_idle q) key)" "x \<in> set (lookup_idle (up_idle q) key)" "length rest \<le> length (lookup_idle (up_idle q) key)"
      using take_loop_spec [OF t] xr by auto
    have "entry_ok dialed (up_maxIdlePerHost q) key rest" using entry sp(2,4) by (auto simp: entry_ok_def)
    then have "pool_ok dialed p'" using r(3) ok \<open>p = Some q\<close> pool_ok_update pool_ok_delete by simp
    moreover have "mset (pool_conns p) = add_mset (pc_conn x) (mset (pool_conns p') + mset closed)"
      using sp(1) del conns_of_update [OF d, of key rest] r(2,3) \<open>p = Some q\<close> by (cases "rest = []") (auto simp: pool_conns_Some)
    moreover have "pc_conn x < length dialed \<and> dialed ! pc_conn x = key" using entry sp(3) by (simp add: entry_ok_def)
    ultimately show ?thesis using r(1) by blast
  qed
qed

lemma release_spec:
  assumes ok: "pool_ok dialed p" and c: "c < length dialed" "dialed ! c = key"
  shows "\<exists>p' closed. release key c buffered reusable now p = Some (p', closed) \<and> pool_ok dialed p' \<and>
    add_mset c (mset (pool_conns p)) = mset (pool_conns p') + mset closed"
proof (cases p)
  case None
  then show ?thesis by (simp add: release_def pool_ok_def)
next
  case (Some q)
  have d: "distinct (map fst (up_idle q))" and pos: "0 < up_maxIdlePerHost q" using ok Some by (simp_all add: pool_ok_Some)
  have entry: "entry_ok dialed (up_maxIdlePerHost q) key (lookup_idle (up_idle q) key)" using ok Some entry_ok_lookup by simp
  let ?x = "\<lparr>pc_conn = c, pc_lastUsed = now\<rparr>" and ?l = "lookup_idle (up_idle q) key"
  have put: "pool_ok dialed (Some (q\<lparr>up_idle := AList.update key (l @ [?x]) (up_idle q)\<rparr>))"
    if "set l \<subseteq> set ?l" "int (length l) < up_maxIdlePerHost q" for l
    using that ok Some c entry by (intro pool_ok_update) (auto simp: entry_ok_def)
  show ?thesis
  proof (cases "\<not> reusable \<or> buffered \<noteq> Some 0")
    case True
    then show ?thesis using ok Some by (simp add: release_def)
  next
    case False
    show ?thesis
    proof (cases "int (length ?l) \<ge> up_maxIdlePerHost q")
      case True
      then obtain y ys where l: "?l = y # ys" using pos by (cases ?l) auto
      have "int (length ys) < up_maxIdlePerHost q" using entry l by (simp add: entry_ok_def)
      then show ?thesis using False True Some l put [of ys] conns_of_update [OF d, of key "ys @ [?x]"]
        by (auto simp: release_def idle_of_lookup pool_conns_Some)
    next
      case False
      then show ?thesis using \<open>\<not> (\<not> reusable \<or> buffered \<noteq> Some 0)\<close> Some put [of ?l] conns_of_update [OF d, of key "?l @ [?x]"]
        by (auto simp: release_def idle_of_lookup pool_conns_Some)
    qed
  qed
qed

section \<open>The invariant of the server's connections\<close>

definition all_idle :: "upstreamConnPool option list \<Rightarrow> nat multiset" where
  "all_idle ps = mset (concat (map pool_conns ps))"

lemma all_idle_update:
  "g < length ps \<Longrightarrow> all_idle (ps[g := p]) + mset (pool_conns (ps ! g)) = all_idle ps + mset (pool_conns p)"
proof (induction ps arbitrary: g)
  case (Cons q ps)
  then show ?case by (cases g) (auto simp: all_idle_def)
qed simp

definition pool_inv :: "pool_sys \<Rightarrow> bool" where
  "pool_inv s =
     (ps_pools s \<noteq> [] \<and>
      mset (map fst (ps_leased s)) + all_idle (ps_pools s) + mset (ps_closed s) = mset [0..<length (ps_dialed s)] \<and>
      (\<forall>(c, k, g)\<in>set (ps_leased s). c < length (ps_dialed s) \<and> ps_dialed s ! c = k \<and> g < length (ps_pools s)) \<and>
      (\<forall>p\<in>set (ps_pools s). pool_ok (ps_dialed s) p))"

lemma pool_ok_new: "pool_ok d (newUpstreamConnPool cfg)"
  by (simp add: newUpstreamConnPool_def pool_ok_def)

lemma pool_conns_new: "pool_conns (newUpstreamConnPool cfg) = []"
  by (simp add: newUpstreamConnPool_def pool_conns_def)

lemma pool_inv_start: "pool_inv (pool_start cfg)"
  by (simp add: pool_inv_def pool_start_def all_idle_def pool_ok_new pool_conns_new)

lemma list_update_ball: "(\<forall>p\<in>set ps. P p) \<Longrightarrow> P q \<Longrightarrow> \<forall>p\<in>set (ps[g := q]). P p"
  using set_update_subset_insert [of ps g q] by blast

lemma acquireUpstream_inv:
  assumes inv: "pool_inv s" and dialled: "dialled = Inr (length (ps_dialed s)) \<or> dialled = Inl e"
  shows "pool_inv (snd (acquireUpstream key now dialled s))"
proof -
  let ?n = "length (ps_dialed s)" and ?g = "length (ps_pools s) - 1"
  have ne: "ps_pools s \<noteq> []" "?g < length (ps_pools s)" using inv by (auto simp: pool_inv_def)
  have bal: "mset (map fst (ps_leased s)) + all_idle (ps_pools s) + mset (ps_closed s) = mset [0..<?n]"
    and leases: "\<forall>(c, k, g)\<in>set (ps_leased s). c < ?n \<and> ps_dialed s ! c = k \<and> g < length (ps_pools s)"
    and pools: "\<forall>p\<in>set (ps_pools s). pool_ok (ps_dialed s) p" using inv by (simp_all add: pool_inv_def)
  have cur: "pool_ok (ps_dialed s) (ps_pools s ! ?g)" "last (ps_pools s) = ps_pools s ! ?g"
    using pools ne by (simp_all add: last_conv_nth)
  obtain r p closed where a: "acquire key now dialled (ps_pools s ! ?g) = (r, p, closed)" by (cases "acquire key now dialled (ps_pools s ! ?g)")
  note spec = acquire_spec [OF cur(1) a]
  note upd = all_idle_update [OF ne(2), of p]
  have ok: "\<forall>q\<in>set ((ps_pools s)[?g := p]). pool_ok (ps_dialed s) q" by (rule list_update_ball [OF pools]) (use spec in blast)
  from spec consider (idle) c where "r = Inr c" "mset (pool_conns (ps_pools s ! ?g)) = add_mset c (mset (pool_conns p) + mset closed)" "c < ?n" "ps_dialed s ! c = key"
    | (fresh) "r = Inr ?n" "dialled = r" "mset (pool_conns (ps_pools s ! ?g)) = mset (pool_conns p) + mset closed"
    | (failed) "r = Inl e" "mset (pool_conns (ps_pools s ! ?g)) = mset (pool_conns p) + mset closed" using dialled by blast
  then show ?thesis
  proof cases
    case idle
    then have "add_mset c (all_idle ((ps_pools s)[?g := p]) + mset closed) = all_idle (ps_pools s)" using upd by (simp add: union_commute union_assoc)
    then have "add_mset c (mset (map fst (ps_leased s)) + all_idle ((ps_pools s)[?g := p]) + mset (closed @ ps_closed s)) = mset [0..<?n]"
      using bal by (metis (no_types, lifting) mset_append union_assoc union_commute union_mset_add_mset_right)
    then show ?thesis using idle leases ok ne a cur(2) by (auto simp: pool_inv_def acquireUpstream_def)
  next
    case fresh
    then have "all_idle ((ps_pools s)[?g := p]) + mset closed = all_idle (ps_pools s)" using upd by (simp add: union_commute union_assoc)
    then have "mset (map fst (ps_leased s)) + all_idle ((ps_pools s)[?g := p]) + mset (closed @ ps_closed s) = mset [0..<?n]"
      using bal by (metis (no_types, lifting) mset_append union_assoc union_commute)
    then have "add_mset ?n (mset (map fst (ps_leased s)) + all_idle ((ps_pools s)[?g := p]) + mset (closed @ ps_closed s)) = mset [0..<Suc ?n]" by simp
    moreover have "\<forall>q\<in>set ((ps_pools s)[?g := p]). pool_ok (ps_dialed s @ [key]) q" using ok pool_ok_more by blast
    ultimately show ?thesis using fresh leases ne a cur(2) by (auto simp: pool_inv_def acquireUpstream_def nth_append)
  next
    case failed
    then have "all_idle ((ps_pools s)[?g := p]) + mset closed = all_idle (ps_pools s)" using upd by (simp add: union_commute union_assoc)
    then have "mset (map fst (ps_leased s)) + all_idle ((ps_pools s)[?g := p]) + mset (closed @ ps_closed s) = mset [0..<?n]"
      using bal by (metis (no_types, lifting) mset_append union_assoc union_commute)
    then show ?thesis using failed leases ok ne a cur(2) by (auto simp: pool_inv_def acquireUpstream_def)
  qed
qed

lemma mset_exchange:
  fixes A B P Q R :: "'a multiset"
  assumes "A + P = B + Q" "add_mset c P = Q + R"
  shows "A + R = add_mset c B"
proof -
  have "A + R + P = (A + P) + R" by (simp only: ac_simps)
  also have "\<dots> = B + (Q + R)" using assms(1) by (simp only: ac_simps)
  also have "\<dots> = add_mset c B + P" using assms(2) [symmetric] by simp
  finally show ?thesis by simp
qed

lemma release_lease_inv:
  assumes inv: "pool_inv s" and lease: "(c, key, g) \<in> set (ps_leased s)"
  shows "\<exists>s'. release_lease (c, key, g) buffered reusable now s = Some s' \<and> pool_inv s'"
proof -
  have c: "c < length (ps_dialed s)" "ps_dialed s ! c = key" "g < length (ps_pools s)" and ok: "\<forall>p\<in>set (ps_pools s). pool_ok (ps_dialed s) p"
    using inv lease by (auto simp: pool_inv_def)
  then have "pool_ok (ps_dialed s) (ps_pools s ! g)" by simp
  from release_spec [OF this c(1,2), of buffered reusable now] obtain p closed where
    p: "release key c buffered reusable now (ps_pools s ! g) = Some (p, closed)" "pool_ok (ps_dialed s) p"
      "add_mset c (mset (pool_conns (ps_pools s ! g))) = mset (pool_conns p) + mset closed" by blast
  let ?s = "s\<lparr>ps_pools := (ps_pools s)[g := p], ps_leased := remove1 (c, key, g) (ps_leased s), ps_closed := closed @ ps_closed s\<rparr>"
  have "mset (ps_leased s) = add_mset (c, key, g) (mset (remove1 (c, key, g) (ps_leased s)))" using lease by simp
  then have "mset (map fst (ps_leased s)) = add_mset c (mset (map fst (remove1 (c, key, g) (ps_leased s))))"
    by (metis fst_conv image_mset_add_mset mset_map)
  moreover have "all_idle ((ps_pools s)[g := p]) + mset closed = add_mset c (all_idle (ps_pools s))"
    by (rule mset_exchange [OF all_idle_update [OF c(3), of p] p(3)])
  moreover have "mset (map fst (ps_leased s)) + all_idle (ps_pools s) + mset (ps_closed s) = mset [0..<length (ps_dialed s)]"
    using inv by (simp add: pool_inv_def)
  ultimately have "mset (map fst (remove1 (c, key, g) (ps_leased s))) + (all_idle ((ps_pools s)[g := p]) + mset closed) + mset (ps_closed s) = mset [0..<length (ps_dialed s)]"
    by (simp only: union_mset_add_mset_left union_mset_add_mset_right)
  then have "mset (map fst (remove1 (c, key, g) (ps_leased s))) + all_idle ((ps_pools s)[g := p]) + mset (closed @ ps_closed s) = mset [0..<length (ps_dialed s)]"
    by (simp only: mset_append ac_simps)
  moreover have "\<forall>q\<in>set ((ps_pools s)[g := p]). pool_ok (ps_dialed s) q" by (rule list_update_ball [OF ok p(2)])
  moreover have "ps_pools s \<noteq> []" using inv by (simp add: pool_inv_def)
  moreover have "\<forall>(c', k', g')\<in>set (remove1 (c, key, g) (ps_leased s)). c' < length (ps_dialed s) \<and> ps_dialed s ! c' = k' \<and> g' < length (ps_pools s)"
    using inv set_remove1_subset [of "(c, key, g)" "ps_leased s"] by (auto simp: pool_inv_def)
  ultimately have "pool_inv ?s" by (simp add: pool_inv_def)
  then show ?thesis using p(1) by (simp add: release_lease_def)
qed

lemma closeIdle_inv:
  assumes inv: "pool_inv s"
  shows "pool_inv (closeIdleUpstreamConnections s)"
proof -
  let ?g = "length (ps_pools s) - 1"
  have ne: "ps_pools s \<noteq> []" "?g < length (ps_pools s)" using inv by (auto simp: pool_inv_def)
  have ok: "\<forall>p\<in>set (ps_pools s). pool_ok (ps_dialed s) p" using inv by (simp add: pool_inv_def)
  have last: "last (ps_pools s) = ps_pools s ! ?g" using ne by (simp add: last_conv_nth)
  obtain p closed where p: "closeIdle (ps_pools s ! ?g) = (p, closed)" by fastforce
  then have conns: "pool_conns p = []" "closed = pool_conns (ps_pools s ! ?g)"
    by (auto simp: closeIdle_def pool_conns_def split: option.splits)
  have "pool_ok (ps_dialed s) (ps_pools s ! ?g)" using ok ne by simp
  then have "pool_ok (ps_dialed s) p" using p by (auto simp: closeIdle_def pool_ok_def split: option.splits)
  then have "\<forall>q\<in>set ((ps_pools s)[?g := p]). pool_ok (ps_dialed s) q" by (rule list_update_ball [OF ok])
  moreover have "all_idle (ps_pools s) = all_idle ((ps_pools s)[?g := p]) + mset closed"
    using all_idle_update [OF ne(2), of p] conns by simp
  ultimately show ?thesis using inv p last unfolding pool_inv_def
    by (auto simp: closeIdleUpstreamConnections_def union_assoc)
qed

lemma SetUpstreamPool_inv: "pool_inv s \<Longrightarrow> pool_inv (SetUpstreamPool cfg s)"
  using closeIdle_inv [of s] by (fastforce simp: SetUpstreamPool_def pool_inv_def all_idle_def pool_ok_new pool_conns_new Let_def)

lemma pool_step_inv: "pool_step s s' \<Longrightarrow> pool_inv s \<Longrightarrow> pool_inv s'"
proof (induction rule: pool_step.induct)
  case (released lease s buffered reusable now s')
  obtain c key g where "lease = (c, key, g)" by (cases lease)
  then show ?case using released release_lease_inv [of s c key g buffered reusable now] by simp
qed (auto intro: acquireUpstream_inv closeIdle_inv SetUpstreamPool_inv)

lemma pool_reachable_inv: "pool_reachable cfg s \<Longrightarrow> pool_inv s"
  by (induction rule: pool_reachable.induct) (auto intro: pool_inv_start pool_step_inv)

lemma reachable_distinct:
  assumes "pool_reachable cfg s"
  shows "distinct (map fst (ps_leased s) @ concat (map pool_conns (ps_pools s)) @ ps_closed s)"
    "set (map fst (ps_leased s) @ concat (map pool_conns (ps_pools s)) @ ps_closed s) = {0..<length (ps_dialed s)}"
proof -
  have m: "mset (map fst (ps_leased s) @ concat (map pool_conns (ps_pools s)) @ ps_closed s) = mset [0..<length (ps_dialed s)]"
    using pool_reachable_inv [OF assms] by (simp add: pool_inv_def all_idle_def union_assoc del: mset_map mset_upt)
  show "distinct (map fst (ps_leased s) @ concat (map pool_conns (ps_pools s)) @ ps_closed s)"
    using mset_eq_imp_distinct_iff [OF m] by simp
  show "set (map fst (ps_leased s) @ concat (map pool_conns (ps_pools s)) @ ps_closed s) = {0..<length (ps_dialed s)}"
    using mset_eq_setD [OF m] by simp
qed

lemma take_loop_fresh: "take_loop timeout now idle = (Some (x, rest), closed) \<Longrightarrow> now - pc_lastUsed x \<le> timeout \<and> x \<in> set idle"
  using take_loop_spec [of timeout now idle "Some (x, rest)" closed] by simp

section \<open>Properties\<close>

text \<open>
  C29: In every state a server can reach, over any interleaving of acquisitions,
  releases, idle closings and reconfigurations, every connection ever dialled
  is in exactly one place: held by exactly one lease, idle in exactly one
  pool, or closed once.  Leases hold connections dialled for their key, and no
  pool keeps more idle connections per key than its limit, which is positive.
\<close>

theorem pool_connections_accounted:
  assumes "pool_reachable cfg s"
  shows "distinct (map fst (ps_leased s) @ concat (map pool_conns (ps_pools s)) @ ps_closed s) \<and>
    set (map fst (ps_leased s) @ concat (map pool_conns (ps_pools s)) @ ps_closed s) = {0..<length (ps_dialed s)} \<and>
    list_all (\<lambda>(c, key, g). ps_dialed s ! c = key \<and> g < length (ps_pools s)) (ps_leased s) \<and>
    list_all (\<lambda>p. case p of None \<Rightarrow> True | Some q \<Rightarrow> 0 < up_maxIdlePerHost q \<and>
      list_all (\<lambda>(key, l). int (length l) \<le> up_maxIdlePerHost q) (up_idle q)) (ps_pools s)"
  using reachable_distinct [OF assms] pool_reachable_inv [OF assms]
  by (fastforce simp: pool_inv_def pool_ok_def list_all_iff split: option.splits)

definition pool_key :: "string \<Rightarrow> upstreamPoolKey" where
  "pool_key host = \<lparr>pk_scheme = ''https'', pk_address = host @ '':443'', pk_serverName = host, pk_alpn = ''h2,http/1.1'', pk_specID = ''utls-firefox-120''\<rparr>"

definition pool_cfg :: UpstreamPoolConfig where
  "pool_cfg = \<lparr>cfg_MaxIdlePerHost = 1, cfg_IdleTimeout = 0\<rparr>"

text \<open>A lease for \<open>a\<close> is taken, the pool is replaced, and the lease is released as reusable.\<close>

definition reload_trace :: pool_sys where
  "reload_trace = the (release_lease (0, pool_key ''a'', 0) (Some 0) True 5 (SetUpstreamPool pool_cfg (snd (acquireUpstream (pool_key ''a'') 0 (Inr 0) (pool_start pool_cfg)))))"

lemma reload_trace_reachable: "pool_reachable pool_cfg reload_trace"
proof -
  let ?a = "snd (acquireUpstream (pool_key ''a'') 0 (Inr 0) (pool_start pool_cfg))"
  have "pool_reachable pool_cfg ?a"
    by (rule pool_reachable.step [OF pool_reachable.start pool_step.acquired]) (simp add: pool_start_def)
  then have r: "pool_reachable pool_cfg (SetUpstreamPool pool_cfg ?a)"
    by (rule pool_reachable.step) (rule pool_step.reconfigured)
  have "(0, pool_key ''a'', 0) \<in> set (ps_leased (SetUpstreamPool pool_cfg ?a))"
    "release_lease (0, pool_key ''a'', 0) (Some 0) True 5 (SetUpstreamPool pool_cfg ?a) = Some reload_trace"
    by code_simp+
  then show ?thesis by (rule pool_reachable.step [OF r pool_step.released])
qed

theorem pool_connections_accounted_witness:
  "concat (map pool_conns (ps_pools reload_trace)) = [0] \<and> distinct (concat (map pool_conns (ps_pools reload_trace)) @ ps_closed reload_trace)"
proof -
  have "concat (map pool_conns (ps_pools reload_trace)) = [0]" by code_simp
  then show ?thesis using pool_connections_accounted [OF reload_trace_reachable] by simp
qed

text \<open>
  C30: A connection handed out is safe to use: it was dialled for the requested
  key, nobody else holds it, it has not been closed, and if it is not newly
  dialled it was idle in the current pool under that key and last used no
  longer ago than the pool's idle timeout.  Releasing a lease never panics.
\<close>

theorem pool_acquire_safe:
  assumes r: "pool_reachable cfg s" and d: "dialled = Inr (length (ps_dialed s)) \<or> dialled = Inl e"
    and a: "acquireUpstream key now dialled s = (Inr c, s')"
  shows "ps_dialed s' ! c = key \<and> c \<notin> fst ` set (ps_leased s) \<and> c \<notin> set (ps_closed s') \<and>
    (c = length (ps_dialed s) \<or>
     (\<exists>q. last (ps_pools s) = Some q \<and> (\<exists>x\<in>set (idle_of q key). pc_conn x = c \<and> now - pc_lastUsed x \<le> up_idleTimeout q))) \<and>
    release_lease (c, key, length (ps_pools s) - 1) buffered reusable later s' \<noteq> None"
proof -
  have s': "s' = snd (acquireUpstream key now dialled s)" using a by simp
  have r': "pool_reachable cfg s'" using pool_reachable.step [OF r pool_step.acquired [OF d]] s' by simp
  obtain p closed where ac: "acquire key now dialled (last (ps_pools s)) = (Inr c, p, closed)"
    using a by (auto simp: acquireUpstream_def split: prod.splits)
  then have lease: "(c, key, length (ps_pools s) - 1) \<in> set (ps_leased s')" and leased: "ps_leased s' = (c, key, length (ps_pools s) - 1) # ps_leased s"
    using a by (auto simp: acquireUpstream_def split: prod.splits)
  have key: "ps_dialed s' ! c = key" using pool_reachable_inv [OF r'] lease by (auto simp: pool_inv_def)
  have fresh: "c \<notin> fst ` set (ps_leased s)" "c \<notin> set (ps_closed s')" using reachable_distinct(1) [OF r'] leased by auto
  have "c = length (ps_dialed s) \<or>
     (\<exists>q. last (ps_pools s) = Some q \<and> (\<exists>x\<in>set (idle_of q key). pc_conn x = c \<and> now - pc_lastUsed x \<le> up_idleTimeout q))"
  proof (cases "last (ps_pools s)")
    case None
    then show ?thesis using ac d by (auto simp: acquire_def)
  next
    case (Some q)
    then show ?thesis using ac d
      by (auto simp: acquire_def takeIdle_def split: prod.splits option.splits dest!: take_loop_fresh)
  qed
  then show ?thesis using key fresh release_lease_inv [OF pool_reachable_inv [OF r'] lease, of buffered reusable later] by auto
qed

definition one_idle :: pool_sys where
  "one_idle = the (release_lease (0, pool_key ''a'', 0) (Some 0) True 5 (snd (acquireUpstream (pool_key ''a'') 0 (Inr 0) (pool_start pool_cfg))))"

lemma one_idle_reachable: "pool_reachable pool_cfg one_idle"
proof -
  let ?a = "snd (acquireUpstream (pool_key ''a'') 0 (Inr 0) (pool_start pool_cfg))"
  have r: "pool_reachable pool_cfg ?a"
    by (rule pool_reachable.step [OF pool_reachable.start pool_step.acquired]) (simp add: pool_start_def)
  have "(0, pool_key ''a'', 0) \<in> set (ps_leased ?a)" "release_lease (0, pool_key ''a'', 0) (Some 0) True 5 ?a = Some one_idle"
    by code_simp+
  then show ?thesis by (rule pool_reachable.step [OF r pool_step.released])
qed

theorem pool_acquire_safe_witness:
  "fst (acquireUpstream (pool_key ''a'') 7 (Inr 1) one_idle) = Inr 0 \<and>
   ps_dialed (snd (acquireUpstream (pool_key ''a'') 7 (Inr 1) one_idle)) ! 0 = pool_key ''a''"
proof -
  have a: "fst (acquireUpstream (pool_key ''a'') 7 (Inr 1) one_idle) = Inr 0" "length (ps_dialed one_idle) = 1" by code_simp+
  then have "acquireUpstream (pool_key ''a'') 7 (Inr 1) one_idle = (Inr 0, snd (acquireUpstream (pool_key ''a'') 7 (Inr 1) one_idle))"
    by (metis prod.collapse)
  from pool_acquire_safe [OF one_idle_reachable _ this] a show ?thesis by simp
qed

text \<open>
  A lease that is released after the pool was replaced puts its connection
  into the old pool, which nothing looks at any more: once no lease of that
  pool is left, its idle connections are never handed out and never closed.
\<close>

theorem replaced_pool_stuck:
  assumes "pool_step\<^sup>*\<^sup>* s s'" "g < length (ps_pools s) - 1" "\<forall>(c, key, g')\<in>set (ps_leased s). g' \<noteq> g"
  shows "ps_pools s' ! g = ps_pools s ! g"
proof -
  have "g < length (ps_pools s') - 1 \<and> ps_pools s' ! g = ps_pools s ! g \<and> (\<forall>(c, key, g')\<in>set (ps_leased s'). g' \<noteq> g)"
    using assms
  proof (induction rule: rtranclp_induct)
    case (step y z)
    then have y: "g < length (ps_pools y) - 1" "ps_pools y ! g = ps_pools s ! g" "\<forall>(c, key, g')\<in>set (ps_leased y). g' \<noteq> g" by auto
    from step.hyps(2) show ?case
    proof cases
      case (acquired dialled e key now)
      then show ?thesis using y by (auto simp: acquireUpstream_def split: prod.splits sum.splits)
    next
      case (released lease buffered reusable now)
      obtain c key g' where lease: "lease = (c, key, g')" by (cases lease)
      then have "g' \<noteq> g" using y(3) released(1) by auto
      moreover obtain p closed where "z = y\<lparr>ps_pools := (ps_pools y)[g' := p], ps_leased := remove1 lease (ps_leased y), ps_closed := closed @ ps_closed y\<rparr>"
        using released(2) lease by (auto simp: release_lease_def split: option.splits prod.splits)
      ultimately show ?thesis using y set_remove1_subset [of lease "ps_leased y"] by auto
    next
      case idle_closed
      then show ?thesis using y by (auto simp: closeIdleUpstreamConnections_def split: prod.splits)
    next
      case (reconfigured cfg)
      then show ?thesis using y by (auto simp: SetUpstreamPool_def closeIdleUpstreamConnections_def nth_append split: prod.splits)
    qed
  qed auto
  then show ?thesis by blast
qed

corollary replaced_pool_leaks: "pool_step\<^sup>*\<^sup>* reload_trace s' \<Longrightarrow> pool_conns (ps_pools s' ! 0) = [0]"
proof -
  assume "pool_step\<^sup>*\<^sup>* reload_trace s'"
  moreover have "length (ps_pools reload_trace) = 2" "ps_leased reload_trace = []" "pool_conns (ps_pools reload_trace ! 0) = [0]" by code_simp+
  ultimately show ?thesis using replaced_pool_stuck [of reload_trace s' 0] by simp
qed

end
