(* ===== verification/Audit_Scope.thy ===== *)
theory Audit_Scope
  imports Filter_Chain Policy
begin

text \<open>
  The audit scope of \<open>proxy/audit_scope.go\<close>: which hosts are audited as roots,
  which as dependencies a root page pulled in, and which not at all, and what
  the relay may do with each class.  The state is the map of known
  dependencies; the clock is an argument of every operation.  Go's random map
  order appears as the order of the association list, on which no statement
  depends.  A panic of the domain matcher is the value \<open>None\<close>.
\<close>

section \<open>State and configuration\<close>

datatype AuditClass = AuditClassRoot | AuditClassDependency | AuditClassNone

record AuditScopeConfig =
  ac_Enabled :: bool
  ac_Roots :: "string list"
  ac_DependencyTTL :: int
  ac_MaxDependencies :: int
  ac_NoneMode :: string
  ac_DependencyMutations :: string

record AuditScopeDecision =
  ad_Class :: AuditClass
  ad_Root :: string
  ad_Reason :: string
  ad_MutationAllowed :: bool
  ad_InspectAllowed :: bool
  ad_DumpAllowed :: bool

record auditDependencyEntry =
  de_root :: string
  de_reason :: string
  de_lastSeen :: int

record AuditScope =
  as_enabled :: bool
  as_roots :: "DomainMatcher option"
  as_dependencyTTL :: int
  as_maxDependencies :: int
  as_noneMode :: string
  as_dependencyMutations :: string
  as_dependencies :: "(string \<times> auditDependencyEntry) list"

definition NewAuditScope :: "AuditScopeConfig \<Rightarrow> AuditScope option" where
  "NewAuditScope cfg =
     (let ttl = (if ac_DependencyTTL cfg \<le> 0 then 30 * 60 * 1000000000 else ac_DependencyTTL cfg);
          maxDeps = (if ac_MaxDependencies cfg \<le> 0 then 8192 else ac_MaxDependencies cfg);
          mode = to_lower (trim_space (ac_NoneMode cfg));
          muts = to_lower (trim_space (ac_DependencyMutations cfg))
      in do {
        m \<leftarrow> NewDomainMatcher (ac_Roots cfg);
        Some \<lparr>as_enabled = (ac_Enabled cfg \<and> ac_Roots cfg \<noteq> []), as_roots = Some m, as_dependencyTTL = ttl,
              as_maxDependencies = maxDeps, as_noneMode = (if mode = [] then ''tunnel'' else mode),
              as_dependencyMutations = (if muts = [] then ''restricted'' else muts), as_dependencies = []\<rparr> })"

definition AuditScope_Enabled :: "AuditScope option \<Rightarrow> bool" where
  "AuditScope_Enabled s = (case s of None \<Rightarrow> False | Some s \<Rightarrow> as_enabled s)"

definition AuditScope_NoneMode :: "AuditScope option \<Rightarrow> string" where
  "AuditScope_NoneMode s =
     (case s of None \<Rightarrow> ''tunnel'' | Some s \<Rightarrow> if as_noneMode s = [] then ''tunnel'' else as_noneMode s)"

definition trim_dots :: "string \<Rightarrow> string" where
  "trim_dots s = trim_right_if (\<lambda>c. c = dot) (dropWhile (\<lambda>c. c = dot) s)"

definition normalizeAuditHost :: "string \<Rightarrow> string" where
  "normalizeAuditHost host =
     (let host = trim_space host;
          host = trim_prefix ''http://'' host;
          host = trim_prefix ''https://'' host;
          host = (case index_byte host slash of Some i \<Rightarrow> take i host | None \<Rightarrow> host);
          host = trim_prefix ''*.'' host
      in trim_dots (normalizedPolicyHost host))"

definition hostFromAbsoluteURL :: "go_lib \<Rightarrow> string \<Rightarrow> string" where
  "hostFromAbsoluteURL lib raw =
     (let raw = trim_space raw
      in if raw = [] then []
         else case url_Parse lib raw of
                None \<Rightarrow> []
              | Some u \<Rightarrow> if u_host u = [] then [] else normalizeAuditHost (u_host u))"

section \<open>Operations\<close>

definition lookupDependency :: "AuditScope \<Rightarrow> int \<Rightarrow> string \<Rightarrow> auditDependencyEntry option" where
  "lookupDependency s now host =
     (let host = normalizeAuditHost host
      in if host = [] then None
         else case map_of (as_dependencies s) host of
                None \<Rightarrow> None
              | Some entry \<Rightarrow> if now - de_lastSeen entry > as_dependencyTTL s then None else Some entry)"

definition dependencyDecision :: "AuditScope \<Rightarrow> string \<Rightarrow> string \<Rightarrow> AuditScopeDecision" where
  "dependencyDecision s root reason =
     \<lparr>ad_Class = AuditClassDependency, ad_Root = root, ad_Reason = reason,
      ad_MutationAllowed = (as_dependencyMutations s = ''full''), ad_InspectAllowed = True, ad_DumpAllowed = True\<rparr>"

definition noneDecision :: "string \<Rightarrow> AuditScopeDecision" where
  "noneDecision reason =
     \<lparr>ad_Class = AuditClassNone, ad_Root = [], ad_Reason = reason, ad_MutationAllowed = False, ad_InspectAllowed = False, ad_DumpAllowed = False\<rparr>"

definition rootFromHeaderURL :: "go_lib \<Rightarrow> AuditScope \<Rightarrow> int \<Rightarrow> string \<Rightarrow> string option" where
  "rootFromHeaderURL lib s now raw =
     (let host = hostFromAbsoluteURL lib raw
      in if host = [] then Some []
         else do {
           m \<leftarrow> DomainMatcher_Match (as_roots s) host;
           Some (if m then host else case lookupDependency s now host of Some entry \<Rightarrow> de_root entry | None \<Rightarrow> []) })"

definition rootFromPropagationHeaders :: "go_lib \<Rightarrow> AuditScope \<Rightarrow> int \<Rightarrow> request \<Rightarrow> (string \<times> string) option" where
  "rootFromPropagationHeaders lib s now req = do {
     r \<leftarrow> rootFromHeaderURL lib s now (header_Get (req_header req) ''Origin'');
     if r \<noteq> [] then Some (r, ''origin'') else do {
       r \<leftarrow> rootFromHeaderURL lib s now (header_Get (req_header req) ''Referer'');
       Some (if r \<noteq> [] then (r, ''referer'') else ([], [])) } }"

text \<open>The inner loop of the eviction: the host seen least recently.\<close>

fun oldest_host :: "(string \<times> auditDependencyEntry) list \<Rightarrow> string \<Rightarrow> int \<Rightarrow> string" where
  "oldest_host [] h t = h"
| "oldest_host ((host, entry) # es) h t =
     (if h = [] \<or> de_lastSeen entry < t then oldest_host es host (de_lastSeen entry) else oldest_host es h t)"

text \<open>The outer loop may not end in general, so that it ends is a theorem below.\<close>

partial_function (option) evict_oldest :: "int \<Rightarrow> (string \<times> auditDependencyEntry) list \<Rightarrow> (string \<times> auditDependencyEntry) list option" where
  "evict_oldest m next = (if int (length next) > m then evict_oldest m (AList.delete (oldest_host next [] 0) next) else Some next)"

declare evict_oldest.simps [code]

definition RegisterDependency :: "string \<Rightarrow> string \<Rightarrow> string \<Rightarrow> int \<Rightarrow> AuditScope \<Rightarrow> AuditScope option" where
  "RegisterDependency root dependency reason now s =
     (if \<not> as_enabled s then Some s
      else let root = normalizeAuditHost root; dependency = normalizeAuditHost dependency
      in if root = [] \<or> dependency = [] \<or> root = dependency then Some s
      else do {
        dm \<leftarrow> DomainMatcher_Match (as_roots s) dependency;
        if dm then Some s else do {
        rm \<leftarrow> DomainMatcher_Match (as_roots s) root;
        case (if rm then Some root else map_option de_root (lookupDependency s now root)) of
          None \<Rightarrow> Some s
        | Some root \<Rightarrow>
            (let reason = (if reason = [] then ''manual'' else reason);
                 next = filter (\<lambda>(host, entry). now - de_lastSeen entry \<le> as_dependencyTTL s) (as_dependencies s);
                 next = AList.update dependency \<lparr>de_root = root, de_reason = reason, de_lastSeen = now\<rparr> next
             in do { next \<leftarrow> evict_oldest (as_maxDependencies s) next; Some (s\<lparr>as_dependencies := next\<rparr>) }) } })"

definition root_decision :: "string \<Rightarrow> string \<Rightarrow> AuditScopeDecision" where
  "root_decision root reason =
     \<lparr>ad_Class = AuditClassRoot, ad_Root = root, ad_Reason = reason, ad_MutationAllowed = True, ad_InspectAllowed = True, ad_DumpAllowed = True\<rparr>"

definition AuditScope_Decide :: "go_lib \<Rightarrow> request option \<Rightarrow> string \<Rightarrow> int \<Rightarrow> AuditScope \<Rightarrow> (AuditScopeDecision \<times> AuditScope) option" where
  "AuditScope_Decide lib req host now s =
     (if \<not> as_enabled s then Some (root_decision [] ''disabled'', s)
      else let host = normalizeAuditHost host
      in if host = [] then Some (noneDecision ''empty_host'', s)
      else do {
        m \<leftarrow> DomainMatcher_Match (as_roots s) host;
        if m then Some (root_decision host ''root_host'', s)
        else case lookupDependency s now host of
               Some entry \<Rightarrow> Some (dependencyDecision s (de_root entry) (''known_dependency:'' @ de_reason entry), s)
             | None \<Rightarrow>
                 (case req of
                    None \<Rightarrow> Some (noneDecision ''out_of_scope'', s)
                  | Some r \<Rightarrow> do {
                      (root, reason) \<leftarrow> rootFromPropagationHeaders lib s now r;
                      if root \<noteq> [] then do {
                        s' \<leftarrow> RegisterDependency root host reason now s;
                        Some (dependencyDecision s root reason, s') }
                      else Some (noneDecision ''out_of_scope'', s) }) })"

section \<open>What the relay may do\<close>

definition NewContentFilter :: "PhraseFilter option \<Rightarrow> MaskingFilter option \<Rightarrow> string option \<Rightarrow> string list option \<Rightarrow> SubstitutionFilter option \<Rightarrow> ContentFilter" where
  "NewContentFilter semantic masking html magic substitution =
     \<lparr>cf_Semantic = semantic, cf_LogSemantic = None, cf_Masking = masking, cf_HTML = html, cf_Magic = magic, cf_Substitution = substitution\<rparr>"

definition WithLogSemantic :: "PhraseFilter option \<Rightarrow> ContentFilter \<Rightarrow> ContentFilter" where
  "WithLogSemantic logSemantic f = f\<lparr>cf_LogSemantic := logSemantic\<rparr>"

text \<open>The filter of the relay options: a content filter with its antivirus, or the filter that passes everything.\<close>

datatype 'av relay_filter = FContent ContentFilter "'av option" | FPassThrough

record 'av scope_options =
  so_LogBodies :: bool
  so_DumpDir :: string
  so_Filter :: "'av relay_filter"
  so_RequestFilter :: "'av relay_filter option"
  so_RequestSubstitutionFilter :: "SubstitutionFilter option"

fun nonMutatingFilter :: "'av relay_filter \<Rightarrow> 'av relay_filter" where
  "nonMutatingFilter (FContent f av) = FContent (WithLogSemantic (cf_LogSemantic f) (NewContentFilter (cf_Semantic f) None None (cf_Magic f) None)) av"
| "nonMutatingFilter FPassThrough = FPassThrough"

definition ForAuditScope :: "AuditScopeDecision \<Rightarrow> 'av scope_options \<Rightarrow> 'av scope_options" where
  "ForAuditScope dec opts =
     (case ad_Class dec of
        AuditClassRoot \<Rightarrow> opts
      | AuditClassNone \<Rightarrow> opts\<lparr>so_LogBodies := False, so_DumpDir := [], so_Filter := FPassThrough, so_RequestFilter := None, so_RequestSubstitutionFilter := None\<rparr>
      | AuditClassDependency \<Rightarrow>
          if \<not> ad_MutationAllowed dec
          then opts\<lparr>so_RequestSubstitutionFilter := None, so_Filter := nonMutatingFilter (so_Filter opts)\<rparr> else opts)"

section \<open>Eviction ends within the limit\<close>

lemma oldest_host_in: "h \<in> K \<or> h = [] \<and> es \<noteq> [] \<Longrightarrow> fst ` set es \<subseteq> K \<Longrightarrow> [] \<notin> K \<Longrightarrow> oldest_host es h t \<in> K"
  by (induction es h t rule: oldest_host.induct) (auto split: if_splits)

lemma evict_oldest_ok:
  assumes "0 \<le> m" "distinct (map fst es)" "[] \<notin> fst ` set es"
  shows "\<exists>es'. evict_oldest m es = Some es' \<and> int (length es') \<le> m \<and> set es' \<subseteq> set es \<and> distinct (map fst es')"
  using assms(2,3)
proof (induction "length es" arbitrary: es rule: less_induct)
  case less
  show ?case
  proof (cases "int (length es) > m")
    case False
    then show ?thesis using less.prems by (subst evict_oldest.simps) auto
  next
    case True
    let ?h = "oldest_host es [] 0"
    have "es \<noteq> []" using True assms(1) by auto
    then have "?h \<in> fst ` set es" using oldest_host_in [of "[]" "fst ` set es" es 0] less.prems(2) by auto
    then have "length (AList.delete ?h es) < length es"
      by (auto simp: AList.delete_eq intro!: length_filter_less)
    moreover have "distinct (map fst (AList.delete ?h es))" "[] \<notin> fst ` set (AList.delete ?h es)" "set (AList.delete ?h es) \<subseteq> set es"
      using less.prems by (auto simp: AList.delete_eq distinct_map_filter)
    ultimately obtain es' where es': "evict_oldest m (AList.delete ?h es) = Some es'" "int (length es') \<le> m"
      "set es' \<subseteq> set (AList.delete ?h es)" "distinct (map fst es')" using less.hyps by blast
    then show ?thesis using True \<open>set (AList.delete ?h es) \<subseteq> set es\<close> by (subst evict_oldest.simps) auto
  qed
qed

section \<open>The invariant of the scope\<close>

definition root_listed :: "string list \<Rightarrow> string \<Rightarrow> bool" where
  "root_listed roots host = domain_listed (map (trim_prefix ''*.'') roots) host"

definition audit_ok :: "string list \<Rightarrow> AuditScope \<Rightarrow> bool" where
  "audit_ok roots s =
     ((\<forall>host. DomainMatcher_Match (as_roots s) host = Some (root_listed roots host)) \<and> 0 < as_maxDependencies s \<and>
      distinct (map fst (as_dependencies s)) \<and> int (length (as_dependencies s)) \<le> as_maxDependencies s \<and>
      (\<forall>(h, e)\<in>set (as_dependencies s). h \<noteq> [] \<and> \<not> root_listed roots h \<and> root_listed roots (de_root e)))"

lemma NewAuditScope_ok:
  assumes "label_total (map (trim_prefix ''*.'') (ac_Roots cfg)) < 4294967296"
  shows "\<exists>s. NewAuditScope cfg = Some s \<and> audit_ok (ac_Roots cfg) s \<and>
    as_maxDependencies s = (if ac_MaxDependencies cfg \<le> 0 then 8192 else ac_MaxDependencies cfg)"
  using NewDomainMatcher_ok [OF assms] trie.matches_listed
  by (auto simp: NewAuditScope_def Let_def audit_ok_def root_listed_def matcher_for_def DomainMatcher_Match_def)

lemma lookupDependency_listed: "audit_ok roots s \<Longrightarrow> lookupDependency s now host = Some e \<Longrightarrow> root_listed roots (de_root e)"
  by (auto simp: lookupDependency_def Let_def audit_ok_def split: if_splits option.splits dest!: map_of_SomeD)

lemma set_update_cases: "x \<in> set (AList.update k v al) \<Longrightarrow> x = (k, v) \<or> x \<in> set al"
  by (induction al) (auto split: if_splits)

lemma RegisterDependency_ok:
  assumes ok: "audit_ok roots s"
  shows "\<exists>s'. RegisterDependency root dep reason now s = Some s' \<and> audit_ok roots s' \<and> as_maxDependencies s' = as_maxDependencies s"
proof -
  define r d where "r = normalizeAuditHost root" and "d = normalizeAuditHost dep"
  have m: "DomainMatcher_Match (as_roots s) host = Some (root_listed roots host)" for host using ok by (simp add: audit_ok_def)
  consider (skip) "RegisterDependency root dep reason now s = Some s"
    | (add) x where "d \<noteq> []" "\<not> root_listed roots d" "root_listed roots (de_root x)" "RegisterDependency root dep reason now s =
        map_option (\<lambda>n. s\<lparr>as_dependencies := n\<rparr>) (evict_oldest (as_maxDependencies s)
          (AList.update d x (filter (\<lambda>(host, entry). now - de_lastSeen entry \<le> as_dependencyTTL s) (as_dependencies s))))"
  proof (cases "\<not> as_enabled s \<or> r = [] \<or> d = [] \<or> r = d \<or> root_listed roots d")
    case True
    then show thesis using that(1) m by (auto simp: RegisterDependency_def Let_def r_def d_def)
  next
    case False
    show thesis
    proof (cases "if root_listed roots r then Some r else map_option de_root (lookupDependency s now r)")
      case None
      then show thesis using that(1) False m by (auto simp: RegisterDependency_def Let_def r_def d_def split: if_splits)
    next
      case (Some rt)
      then have "root_listed roots rt" using lookupDependency_listed [OF ok] by (auto split: if_splits)
      then show thesis
        using that(2) [of "\<lparr>de_root = rt, de_reason = (if reason = [] then ''manual'' else reason), de_lastSeen = now\<rparr>"] False Some m
        by (auto simp: RegisterDependency_def Let_def r_def [symmetric] d_def [symmetric] bind_eq_Some_conv map_option_case Option.bind_def split: if_splits option.splits)
    qed
  qed
  then show ?thesis
  proof cases
    case skip
    then show ?thesis using ok by simp
  next
    case (add x)
    let ?es = "AList.update d x (filter (\<lambda>(host, entry). now - de_lastSeen entry \<le> as_dependencyTTL s) (as_dependencies s))"
    have all: "h \<noteq> [] \<and> \<not> root_listed roots h \<and> root_listed roots (de_root e)" if "(h, e) \<in> set ?es" for h e
      using set_update_cases [OF that] add(1-3) ok by (auto simp: audit_ok_def)
    have "distinct (map fst ?es)" using ok by (simp add: audit_ok_def distinct_update distinct_map_filter)
    moreover have "[] \<notin> fst ` set ?es" using all by force
    moreover have "0 \<le> as_maxDependencies s" using ok by (simp add: audit_ok_def)
    ultimately obtain es' where es': "evict_oldest (as_maxDependencies s) ?es = Some es'" "int (length es') \<le> as_maxDependencies s"
      "set es' \<subseteq> set ?es" "distinct (map fst es')" using evict_oldest_ok by blast
    have "audit_ok roots (s\<lparr>as_dependencies := es'\<rparr>)" using es' all ok by (auto simp: audit_ok_def)
    then show ?thesis using add(4) es'(1) by simp
  qed
qed

lemma rootFromHeaderURL_ok:
  assumes "audit_ok roots s"
  shows "\<exists>r. rootFromHeaderURL lib s now raw = Some r \<and> (r = [] \<or> root_listed roots r)"
proof -
  have "DomainMatcher_Match (as_roots s) host = Some (root_listed roots host)" for host using assms by (simp add: audit_ok_def)
  then show ?thesis using lookupDependency_listed [OF assms] by (auto simp: rootFromHeaderURL_def Let_def split: option.splits)
qed

lemma rootFromPropagationHeaders_ok:
  assumes "audit_ok roots s"
  shows "\<exists>r reason. rootFromPropagationHeaders lib s now req = Some (r, reason) \<and> (r = [] \<or> root_listed roots r)"
proof -
  obtain o' where o': "rootFromHeaderURL lib s now (header_Get (req_header req) ''Origin'') = Some o'" "o' = [] \<or> root_listed roots o'"
    using rootFromHeaderURL_ok [OF assms] by blast
  obtain r where r: "rootFromHeaderURL lib s now (header_Get (req_header req) ''Referer'') = Some r" "r = [] \<or> root_listed roots r"
    using rootFromHeaderURL_ok [OF assms] by blast
  show ?thesis using o' r by (auto simp: rootFromPropagationHeaders_def)
qed

lemma Decide_ok:
  assumes ok: "audit_ok roots s"
  shows "\<exists>dec s'. AuditScope_Decide lib req host now s = Some (dec, s') \<and> audit_ok roots s' \<and> as_maxDependencies s' = as_maxDependencies s \<and>
    (as_enabled s \<longrightarrow>
      (ad_Class dec = AuditClassRoot \<longleftrightarrow> normalizeAuditHost host \<noteq> [] \<and> root_listed roots (normalizeAuditHost host)) \<and>
      (ad_Class dec = AuditClassDependency \<longrightarrow> root_listed roots (ad_Root dec) \<and> (ad_MutationAllowed dec \<longleftrightarrow> as_dependencyMutations s = ''full'')) \<and>
      (ad_Class dec = AuditClassNone \<longrightarrow> \<not> ad_MutationAllowed dec \<and> \<not> ad_InspectAllowed dec \<and> \<not> ad_DumpAllowed dec))"
proof -
  define h where "h = normalizeAuditHost host"
  have m: "DomainMatcher_Match (as_roots s) h' = Some (root_listed roots h')" for h' using ok by (simp add: audit_ok_def)
  note defs = AuditScope_Decide_def Let_def h_def [symmetric] root_decision_def noneDecision_def dependencyDecision_def
  consider "\<not> as_enabled s" | "h = []" | "as_enabled s" "h \<noteq> []" "root_listed roots h"
    | (dep) e where "as_enabled s" "h \<noteq> []" "\<not> root_listed roots h" "lookupDependency s now h = Some e"
    | (new) "as_enabled s" "h \<noteq> []" "\<not> root_listed roots h" "lookupDependency s now h = None" by (cases "lookupDependency s now h") auto
  then show ?thesis
  proof cases
    case dep
    then show ?thesis using ok m lookupDependency_listed [OF ok dep(4)] by (simp add: defs)
  next
    case new
    show ?thesis
    proof (cases req)
      case None
      then show ?thesis using new m ok by (simp add: defs)
    next
      case (Some q)
      obtain r reason where r: "rootFromPropagationHeaders lib s now q = Some (r, reason)" "r = [] \<or> root_listed roots r"
        using rootFromPropagationHeaders_ok [OF ok] by blast
      obtain s' where s': "RegisterDependency r h reason now s = Some s'" "audit_ok roots s'" "as_maxDependencies s' = as_maxDependencies s"
        using RegisterDependency_ok [OF ok] by blast
      show ?thesis using Some new m ok r s' by (cases "r = []") (simp_all add: defs)
    qed
  qed (use ok m in \<open>simp_all add: defs\<close>)
qed

section \<open>Properties\<close>

datatype audit_call =
    CallDecide "request option" string int
  | CallRegister string string string int

fun audit_apply :: "go_lib \<Rightarrow> audit_call \<Rightarrow> AuditScope \<Rightarrow> AuditScope option" where
  "audit_apply lib (CallDecide req host now) s = map_option snd (AuditScope_Decide lib req host now s)"
| "audit_apply lib (CallRegister root dep reason now) s = RegisterDependency root dep reason now s"

fun audit_run :: "go_lib \<Rightarrow> audit_call list \<Rightarrow> AuditScope \<Rightarrow> AuditScope option" where
  "audit_run lib [] s = Some s"
| "audit_run lib (c # cs) s = do { s \<leftarrow> audit_apply lib c s; audit_run lib cs s }"

lemma RegisterDependency_settings:
  "RegisterDependency root dep reason now s = Some s' \<Longrightarrow> as_enabled s' = as_enabled s \<and> as_dependencyMutations s' = as_dependencyMutations s"
  by (auto simp: RegisterDependency_def Let_def bind_eq_Some_conv split: if_splits option.splits)

lemma Decide_settings:
  "AuditScope_Decide lib req host now s = Some (dec, s') \<Longrightarrow> as_enabled s' = as_enabled s \<and> as_dependencyMutations s' = as_dependencyMutations s"
  by (auto simp: AuditScope_Decide_def Let_def bind_eq_Some_conv split: if_splits option.splits dest: RegisterDependency_settings)

lemma audit_run_ok:
  "audit_ok roots s \<Longrightarrow> \<exists>s'. audit_run lib cs s = Some s' \<and> audit_ok roots s' \<and> as_maxDependencies s' = as_maxDependencies s \<and>
     as_enabled s' = as_enabled s \<and> as_dependencyMutations s' = as_dependencyMutations s"
proof (induction cs arbitrary: s)
  case (Cons c cs)
  have "\<exists>s1. audit_apply lib c s = Some s1 \<and> audit_ok roots s1 \<and> as_maxDependencies s1 = as_maxDependencies s \<and>
      as_enabled s1 = as_enabled s \<and> as_dependencyMutations s1 = as_dependencyMutations s"
  proof (cases c)
    case (CallDecide req host now)
    then show ?thesis using Decide_ok [OF Cons.prems, of lib req host now] Decide_settings [of lib req host now s] by fastforce
  next
    case (CallRegister root dep reason now)
    then show ?thesis using RegisterDependency_ok [OF Cons.prems, of root dep reason now] RegisterDependency_settings [of root dep reason now s] by auto
  qed
  then obtain s1 where s1: "audit_apply lib c s = Some s1" "audit_ok roots s1" "as_maxDependencies s1 = as_maxDependencies s"
    "as_enabled s1 = as_enabled s" "as_dependencyMutations s1 = as_dependencyMutations s" by blast
  then show ?case using Cons.IH [OF s1(2)] by auto
qed auto

text \<open>
  C38: Whatever requests a scope decides and whatever dependencies are
  registered, in any order and at any times, no call panics and every eviction
  ends; the map of dependencies never exceeds its configured limit, 8192 when
  none is given; and every known dependency belongs to a configured root and
  is not itself covered by one.
\<close>

theorem audit_scope_run:
  assumes "label_total (map (trim_prefix ''*.'') (ac_Roots cfg)) < 4294967296"
  shows "\<exists>s0 s. NewAuditScope cfg = Some s0 \<and> audit_run lib calls s0 = Some s \<and>
    int (length (as_dependencies s)) \<le> (if ac_MaxDependencies cfg \<le> 0 then 8192 else ac_MaxDependencies cfg) \<and>
    distinct (map fst (as_dependencies s)) \<and>
    list_all (\<lambda>(h, e). h \<noteq> [] \<and> \<not> root_listed (ac_Roots cfg) h \<and> root_listed (ac_Roots cfg) (de_root e)) (as_dependencies s)"
proof -
  obtain s0 where s0: "NewAuditScope cfg = Some s0" "audit_ok (ac_Roots cfg) s0"
    "as_maxDependencies s0 = (if ac_MaxDependencies cfg \<le> 0 then 8192 else ac_MaxDependencies cfg)" using NewAuditScope_ok [OF assms] by blast
  obtain s where "audit_run lib calls s0 = Some s" "audit_ok (ac_Roots cfg) s" "as_maxDependencies s = as_maxDependencies s0"
    using audit_run_ok [OF s0(2)] by blast
  then show ?thesis using s0 by (auto simp: audit_ok_def list_all_iff)
qed

definition one_root :: AuditScopeConfig where
  "one_root = \<lparr>ac_Enabled = True, ac_Roots = [''a.org''], ac_DependencyTTL = 10, ac_MaxDependencies = 1, ac_NoneMode = [], ac_DependencyMutations = []\<rparr>"

theorem audit_scope_run_witness:
  "\<exists>s0 s. NewAuditScope one_root = Some s0 \<and>
     audit_run null_lib [CallRegister ''a.org'' ''cdn.net'' [] 1, CallRegister ''cdn.net'' ''img.net'' ''link'' 2] s0 = Some s \<and>
     int (length (as_dependencies s)) \<le> 1 \<and> list_all (\<lambda>(h, e). root_listed [''a.org''] (de_root e)) (as_dependencies s)"
proof -
  let ?cs = "[CallRegister ''a.org'' ''cdn.net'' [] 1, CallRegister ''cdn.net'' ''img.net'' ''link'' 2]"
  have "label_total (map (trim_prefix ''*.'') (ac_Roots one_root)) = 2" by code_simp
  then obtain s0 s where s: "NewAuditScope one_root = Some s0" "audit_run null_lib ?cs s0 = Some s"
    "int (length (as_dependencies s)) \<le> (if ac_MaxDependencies one_root \<le> 0 then 8192 else ac_MaxDependencies one_root)"
    "list_all (\<lambda>(h, e). h \<noteq> [] \<and> \<not> root_listed (ac_Roots one_root) h \<and> root_listed (ac_Roots one_root) (de_root e)) (as_dependencies s)"
    using audit_scope_run [of one_root null_lib ?cs] by auto
  then have "int (length (as_dependencies s)) \<le> 1" "list_all (\<lambda>(h, e). root_listed [''a.org''] (de_root e)) (as_dependencies s)"
    by (auto simp: one_root_def list_all_iff)
  then show ?thesis using s(1,2) by blast
qed

definition stage_mutates :: "stage \<Rightarrow> bool" where
  "stage_mutates s = (case s of SMask _ \<Rightarrow> True | SInject _ \<Rightarrow> True | SSubst _ \<Rightarrow> True | _ \<Rightarrow> False)"

lemma nonMutatingFilter_stages:
  "nonMutatingFilter (FContent f av) = FContent g av' \<Longrightarrow> list_all (\<lambda>s. \<not> stage_mutates s) (respFilter_stages g ct req)"
proof -
  assume "nonMutatingFilter (FContent f av) = FContent g av'"
  then have g: "g = \<lparr>cf_Semantic = cf_Semantic f, cf_LogSemantic = cf_LogSemantic f, cf_Masking = None, cf_HTML = None, cf_Magic = cf_Magic f, cf_Substitution = None\<rparr>"
    by (auto simp: WithLogSemantic_def NewContentFilter_def)
  have "subst_stages g = []" "masking_stages g = []" "list_all (\<lambda>s. \<not> stage_mutates s) (magic_stages g)"
    by (simp_all add: g subst_stages_def masking_stages_def magic_stages_def stage_mutates_def opt_stage_def split: option.split)
  moreover have "\<not> stage_mutates (SPhrase p)" "\<not> stage_mutates (SHtml q)" for p q by (simp_all add: stage_mutates_def)
  moreover have "cf_HTML g = None" "cf_Substitution g = None" by (simp_all add: g)
  ultimately show ?thesis
    unfolding respFilter_stages_def by (cases "cf_Semantic g"; cases "cf_LogSemantic g") simp_all
qed

text \<open>
  C39: What a class allows.  In every state of an enabled scope a host is a root
  exactly when the configuration lists it; traffic that is out of scope is
  relayed with the filter that passes everything, without dumps, body logging
  and request filters; and traffic of a dependency, unless mutations are
  configured as full, meets no filter that alters a response, whatever the
  content type, and no request substitution.
\<close>

theorem audit_class_limits:
  assumes "label_total (map (trim_prefix ''*.'') (ac_Roots cfg)) < 4294967296"
    and "NewAuditScope cfg = Some s0" "as_enabled s0" "audit_run lib calls s0 = Some s"
  shows "\<exists>dec s'. AuditScope_Decide lib req host now s = Some (dec, s') \<and>
    (ad_Class dec = AuditClassRoot \<longleftrightarrow> normalizeAuditHost host \<noteq> [] \<and> root_listed (ac_Roots cfg) (normalizeAuditHost host)) \<and>
    (ad_Class dec = AuditClassNone \<longrightarrow>
       ForAuditScope dec opts = opts\<lparr>so_LogBodies := False, so_DumpDir := [], so_Filter := FPassThrough, so_RequestFilter := None, so_RequestSubstitutionFilter := None\<rparr>) \<and>
    (ad_Class dec = AuditClassDependency \<and> as_dependencyMutations s0 \<noteq> ''full'' \<longrightarrow>
       so_RequestSubstitutionFilter (ForAuditScope dec opts) = None \<and>
       (case so_Filter (ForAuditScope dec opts) of
          FContent f _ \<Rightarrow> (\<forall>ct r. list_all (\<lambda>st. \<not> stage_mutates st) (respFilter_stages f ct r))
        | FPassThrough \<Rightarrow> True))"
proof -
  have "audit_ok (ac_Roots cfg) s0" using NewAuditScope_ok [OF assms(1)] assms(2) by auto
  then have ok: "audit_ok (ac_Roots cfg) s" "as_enabled s" "as_dependencyMutations s = as_dependencyMutations s0"
    using audit_run_ok [of "ac_Roots cfg" s0 lib calls] assms(3,4) by auto
  obtain dec s' where d: "AuditScope_Decide lib req host now s = Some (dec, s')"
    "ad_Class dec = AuditClassRoot \<longleftrightarrow> normalizeAuditHost host \<noteq> [] \<and> root_listed (ac_Roots cfg) (normalizeAuditHost host)"
    "ad_Class dec = AuditClassDependency \<longrightarrow> (ad_MutationAllowed dec \<longleftrightarrow> as_dependencyMutations s0 = ''full'')"
    using Decide_ok [OF ok(1), of lib req host now] ok(2,3) by auto
  have "case so_Filter (ForAuditScope dec opts) of
          FContent f _ \<Rightarrow> (\<forall>ct r. list_all (\<lambda>st. \<not> stage_mutates st) (respFilter_stages f ct r))
        | FPassThrough \<Rightarrow> True" if "ad_Class dec = AuditClassDependency" "as_dependencyMutations s0 \<noteq> ''full''"
    using that d(3) nonMutatingFilter_stages by (cases "so_Filter opts") (fastforce simp: ForAuditScope_def)+
  then show ?thesis using d by (intro exI [of _ dec] exI [of _ s']) (auto simp: ForAuditScope_def)
qed

theorem audit_class_limits_witness:
  "\<exists>s0 dec s'. NewAuditScope one_root = Some s0 \<and> AuditScope_Decide null_lib None ''other.net'' 5 s0 = Some (dec, s') \<and> ad_Class dec \<noteq> AuditClassRoot"
proof -
  have fits: "label_total (map (trim_prefix ''*.'') (ac_Roots one_root)) < 4294967296"
  proof -
    have "label_total (map (trim_prefix ''*.'') (ac_Roots one_root)) = 2" by code_simp
    then show ?thesis by simp
  qed
  obtain s0 where s0: "NewAuditScope one_root = Some s0" using NewAuditScope_ok [OF fits] by blast
  then have "as_enabled s0" by (auto simp: NewAuditScope_def one_root_def Let_def bind_eq_Some_conv)
  moreover have "\<not> root_listed (ac_Roots one_root) (normalizeAuditHost ''other.net'')" by code_simp
  moreover have "audit_run null_lib [] s0 = Some s0" by simp
  ultimately show ?thesis
    using audit_class_limits [OF fits s0, where opts = "\<lparr>so_LogBodies = True, so_DumpDir = ''d'', so_Filter = (FPassThrough :: unit relay_filter), so_RequestFilter = None, so_RequestSubstitutionFilter = None\<rparr>"
        and lib = null_lib and calls = "[]" and s = s0 and req = None and host = "''other.net''" and now = 5] s0 by blast
qed

end
