(* ===== verification/Access_Control.thy ===== *)
theory Access_Control
  imports Complex_Main Policy_Rules
begin

text \<open>
  Who may use the proxy, and when: the time windows of
  \<open>proxy/schedule_rules.go\<close> and the client profiles of
  \<open>proxy/access_rules.go\<close>, with the number parser of \<open>strconv\<close> they use.
  The table of profiles is a longest-prefix table with values of the package
  \<open>bart\<close>; it is a parameter like the table of \<open>Go_Lib\<close>.
\<close>

section \<open>Decimal numbers\<close>

fun digits_value :: "int \<Rightarrow> string \<Rightarrow> int" where
  "digits_value acc [] = acc"
| "digits_value acc (c # cs) = digits_value (10 * acc + int (digit_val c)) cs"

definition strconv_ParseDigits :: "string \<Rightarrow> int option" where
  "strconv_ParseDigits s = (if s = [] \<or> \<not> list_all is_digit s then None else Some (digits_value 0 s))"

definition strconv_Atoi :: "string \<Rightarrow> int option" where
  "strconv_Atoi s =
     (let (neg, t) = (if s \<noteq> [] \<and> hd s = CHR ''-'' then (True, tl s) else if s \<noteq> [] \<and> hd s = CHR ''+'' then (False, tl s) else (False, s))
      in case strconv_ParseDigits t of
           None \<Rightarrow> None
         | Some n \<Rightarrow> (if neg then (if n \<le> 2 ^ 63 then Some (- n) else None) else if n < 2 ^ 63 then Some n else None))"

section \<open>Schedules\<close>

record ScheduleWindow =
  sw_Profile :: string
  sw_Days :: "string list"
  sw_Start :: string
  sw_End :: string

record scheduleWindow =
  w_days :: "bool list"
  w_start :: int
  w_end :: int

type_synonym ScheduleRules = "(string \<times> scheduleWindow list) list"

text \<open>What the code reads of a \<open>time.Time\<close>.\<close>

record wall_clock =
  ck_Weekday :: nat
  ck_Hour :: nat
  ck_Minute :: nat

definition parseWeekday :: "string \<Rightarrow> nat result" where
  "parseWeekday value =
     (let d = to_lower (trim_space value)
      in if d \<in> set [''sun'', ''sunday''] then Inr 0
         else if d \<in> set [''mon'', ''monday''] then Inr 1
         else if d \<in> set [''tue'', ''tues'', ''tuesday''] then Inr 2
         else if d \<in> set [''wed'', ''wednesday''] then Inr 3
         else if d \<in> set [''thu'', ''thur'', ''thurs'', ''thursday''] then Inr 4
         else if d \<in> set [''fri'', ''friday''] then Inr 5
         else if d \<in> set [''sat'', ''saturday''] then Inr 6
         else Inl (Failure ''invalid weekday''))"

definition parseClockMinute :: "string \<Rightarrow> int result" where
  "parseClockMinute value =
     (let v = trim_space value
      in case index_byte v colon of
           None \<Rightarrow> Inl (Failure ''invalid clock'')
         | Some i \<Rightarrow>
             (case strconv_Atoi (take i v) of
                None \<Rightarrow> Inl (Failure ''atoi'')
              | Some hour \<Rightarrow>
                  (case strconv_Atoi (drop (Suc i) v) of
                     None \<Rightarrow> Inl (Failure ''atoi'')
                   | Some minute \<Rightarrow>
                       if hour = 24 \<and> minute = 0 then Inr (24 * 60)
                       else if hour < 0 \<or> hour > 23 \<or> minute < 0 \<or> minute > 59 then Inl (Failure ''invalid clock'')
                       else Inr (hour * 60 + minute))))"

fun set_days :: "string list \<Rightarrow> bool list \<Rightarrow> bool list result" where
  "set_days [] days = Inr days"
| "set_days (d # ds) days = rbind (parseWeekday d) (\<lambda>w. set_days ds (days[w := True]))"

definition compileScheduleWindow :: "ScheduleWindow \<Rightarrow> scheduleWindow result" where
  "compileScheduleWindow window =
     rbind (if sw_Days window = [] then Inr (replicate 7 True) else set_days (sw_Days window) (replicate 7 False)) (\<lambda>days.
     rbind (parseClockMinute (sw_Start window)) (\<lambda>start.
     rbind (parseClockMinute (sw_End window)) (\<lambda>end.
       if end \<le> start then Inl (Failure ''end must be after start'')
       else Inr \<lparr>w_days = days, w_start = start, w_end = end\<rparr>)))"

definition profile_windows :: "ScheduleRules \<Rightarrow> string \<Rightarrow> scheduleWindow list" where
  "profile_windows rules profile = (case map_of rules profile of Some ws \<Rightarrow> ws | None \<Rightarrow> [])"

fun add_windows :: "ScheduleWindow list \<Rightarrow> ScheduleRules \<Rightarrow> ScheduleRules result" where
  "add_windows [] rules = Inr rules"
| "add_windows (w # ws) rules =
     (if sw_Profile w = [] then Inl (Failure ''schedule profile cannot be empty'')
      else rbind (compileScheduleWindow w) (\<lambda>c.
             add_windows ws (AList.update (sw_Profile w) (profile_windows rules (sw_Profile w) @ [c]) rules)))"

definition NewScheduleRules :: "ScheduleWindow list \<Rightarrow> ScheduleRules result" where
  "NewScheduleRules windows = add_windows windows []"

definition ScheduleRules_Allowed :: "ScheduleRules option \<Rightarrow> string \<Rightarrow> wall_clock \<Rightarrow> bool" where
  "ScheduleRules_Allowed r profile now =
     (case r of
        None \<Rightarrow> True
      | Some rules \<Rightarrow>
          (let windows = profile_windows rules profile; minute = int (ck_Hour now) * 60 + int (ck_Minute now)
           in windows = [] \<or>
              list_ex (\<lambda>w. w_days w ! ck_Weekday now \<and> w_start w \<le> minute \<and> minute < w_end w) windows))"

text \<open>The reading of a configured window: its days, or every day, and the minutes from its start up to its end.\<close>

definition window_covers :: "ScheduleWindow \<Rightarrow> wall_clock \<Rightarrow> bool" where
  "window_covers w now =
     ((sw_Days w = [] \<or> list_ex (\<lambda>d. parseWeekday d = Inr (ck_Weekday now)) (sw_Days w)) \<and>
      (case (parseClockMinute (sw_Start w), parseClockMinute (sw_End w)) of
         (Inr start, Inr end) \<Rightarrow> start \<le> int (ck_Hour now) * 60 + int (ck_Minute now) \<and> int (ck_Hour now) * 60 + int (ck_Minute now) < end
       | _ \<Rightarrow> False))"

lemma parseWeekday_range: "parseWeekday d = Inr w \<Longrightarrow> w < 7"
  by (auto simp: parseWeekday_def Let_def split: if_splits)

lemma set_days_spec:
  "set_days ds days = Inr out \<Longrightarrow> length days = 7 \<Longrightarrow>
     length out = 7 \<and> (\<forall>k<7. out ! k \<longleftrightarrow> days ! k \<or> list_ex (\<lambda>d. parseWeekday d = Inr k) ds)"
proof (induction ds arbitrary: days)
  case (Cons d ds)
  then obtain w where w: "parseWeekday d = Inr w" "set_days ds (days[w := True]) = Inr out" by (auto simp: rbind_eq_Inr)
  then have "length out = 7 \<and> (\<forall>k<7. out ! k \<longleftrightarrow> days[w := True] ! k \<or> list_ex (\<lambda>d. parseWeekday d = Inr k) ds)"
    using Cons.IH [OF w(2)] Cons.prems(2) by simp
  then show ?case using w(1) parseWeekday_range [OF w(1)] Cons.prems(2) by (auto simp: nth_list_update)
qed auto

lemma compileScheduleWindow_covers:
  assumes "compileScheduleWindow w = Inr c" "ck_Weekday now < 7"
  shows "w_days c ! ck_Weekday now \<and> w_start c \<le> int (ck_Hour now) * 60 + int (ck_Minute now) \<and> int (ck_Hour now) * 60 + int (ck_Minute now) < w_end c
     \<longleftrightarrow> window_covers w now"
proof -
  obtain days start end' where c: "parseClockMinute (sw_Start w) = Inr start" "parseClockMinute (sw_End w) = Inr end'"
    "c = \<lparr>w_days = days, w_start = start, w_end = end'\<rparr>"
    "(if sw_Days w = [] then Inr (replicate 7 True) else set_days (sw_Days w) (replicate 7 False)) = Inr days"
    using assms(1) by (auto simp: compileScheduleWindow_def rbind_eq_Inr split: if_splits)
  have "days ! ck_Weekday now \<longleftrightarrow> sw_Days w = [] \<or> list_ex (\<lambda>d. parseWeekday d = Inr (ck_Weekday now)) (sw_Days w)"
    using c(4) assms(2) set_days_spec [of "sw_Days w" "replicate 7 False" days] by (auto split: if_splits)
  then show ?thesis using c(1-3) by (simp add: window_covers_def)
qed

lemma add_windows_spec:
  "add_windows ws rules = Inr out \<Longrightarrow>
     \<exists>cs. list_all2 (\<lambda>w c. compileScheduleWindow w = Inr c) (filter (\<lambda>w. sw_Profile w = profile) ws) cs \<and>
       profile_windows out profile = profile_windows rules profile @ cs"
proof (induction ws arbitrary: rules)
  case (Cons w ws)
  then obtain c where c: "compileScheduleWindow w = Inr c"
    "add_windows ws (AList.update (sw_Profile w) (profile_windows rules (sw_Profile w) @ [c]) rules) = Inr out"
    by (auto simp: rbind_eq_Inr split: if_splits)
  from Cons.IH [OF c(2)] obtain cs where
    cs: "list_all2 (\<lambda>w c. compileScheduleWindow w = Inr c) (filter (\<lambda>w. sw_Profile w = profile) ws) cs"
    "profile_windows out profile = profile_windows (AList.update (sw_Profile w) (profile_windows rules (sw_Profile w) @ [c]) rules) profile @ cs" by blast
  show ?case
  proof (cases "sw_Profile w = profile")
    case True
    then show ?thesis using cs c(1) by (intro exI [of _ "c # cs"]) (auto simp: profile_windows_def update_conv')
  next
    case False
    then show ?thesis using cs by (intro exI [of _ cs]) (auto simp: profile_windows_def update_conv')
  qed
qed auto

lemma parseClockMinute_range: "parseClockMinute s = Inr m \<Longrightarrow> 0 \<le> m \<and> m \<le> 1440"
  by (auto simp: parseClockMinute_def Let_def split: option.splits if_splits)

lemma ScheduleRules_Allowed_iff:
  assumes "NewScheduleRules windows = Inr rules" "ck_Weekday now < 7"
  shows "ScheduleRules_Allowed (Some rules) profile now \<longleftrightarrow>
    list_all (\<lambda>w. sw_Profile w \<noteq> profile) windows \<or> list_ex (\<lambda>w. sw_Profile w = profile \<and> window_covers w now) windows"
proof -
  obtain cs where cs: "list_all2 (\<lambda>w c. compileScheduleWindow w = Inr c) (filter (\<lambda>w. sw_Profile w = profile) windows) cs"
    "profile_windows rules profile = cs"
    using add_windows_spec [of windows "[]" rules profile] assms(1) by (auto simp: NewScheduleRules_def profile_windows_def)
  let ?P = "\<lambda>c. w_days c ! ck_Weekday now \<and> w_start c \<le> int (ck_Hour now) * 60 + int (ck_Minute now) \<and> int (ck_Hour now) * 60 + int (ck_Minute now) < w_end c"
  from cs(1) have "list_ex ?P cs \<longleftrightarrow> list_ex (\<lambda>w. window_covers w now) (filter (\<lambda>w. sw_Profile w = profile) windows)"
    by (induction rule: list_all2_induct) (simp_all add: compileScheduleWindow_covers [OF _ assms(2)])
  moreover have "cs = [] \<longleftrightarrow> list_all (\<lambda>w. sw_Profile w \<noteq> profile) windows"
  proof -
    have "cs = [] \<longleftrightarrow> filter (\<lambda>w. sw_Profile w = profile) windows = []" using cs(1) by (cases cs) (auto simp: list_all2_Cons2)
    then show ?thesis by (simp add: list_all_iff filter_empty_conv)
  qed
  ultimately show ?thesis using cs(2) by (auto simp: ScheduleRules_Allowed_def Let_def list_ex_iff)
qed

text \<open>
  C33: Schedules mean what their configuration says.  A profile without windows
  is always allowed; a profile with windows is allowed exactly when one of its
  own windows names the weekday, or no weekday, and the minute lies in the
  half-open interval from its start to its end.
\<close>

theorem schedule_allowed:
  assumes "NewScheduleRules windows = Inr rules" "ck_Weekday now < 7"
  shows "ScheduleRules_Allowed (Some rules) profile now \<longleftrightarrow>
    list_all (\<lambda>w. sw_Profile w \<noteq> profile) windows \<or> list_ex (\<lambda>w. sw_Profile w = profile \<and> window_covers w now) windows"
  by (rule ScheduleRules_Allowed_iff [OF assms])

definition school_hours :: ScheduleWindow where
  "school_hours = \<lparr>sw_Profile = ''pupils'', sw_Days = [''Mon'', ''friday''], sw_Start = ''08:30'', sw_End = ''24:00''\<rparr>"

theorem schedule_allowed_witness:
  "(case NewScheduleRules [school_hours] of
     Inr rules \<Rightarrow> ScheduleRules_Allowed (Some rules) ''pupils'' \<lparr>ck_Weekday = 1, ck_Hour = 8, ck_Minute = 30\<rparr> \<and>
       \<not> ScheduleRules_Allowed (Some rules) ''pupils'' \<lparr>ck_Weekday = 2, ck_Hour = 8, ck_Minute = 30\<rparr>
   | Inl _ \<Rightarrow> False)"
proof -
  have "case NewScheduleRules [school_hours] of Inr _ \<Rightarrow> True | Inl _ \<Rightarrow> False" by code_simp
  then obtain rules where r: "NewScheduleRules [school_hours] = Inr rules" by (auto split: sum.splits)
  have "window_covers school_hours \<lparr>ck_Weekday = 1, ck_Hour = 8, ck_Minute = 30\<rparr>"
    "\<not> window_covers school_hours \<lparr>ck_Weekday = 2, ck_Hour = 8, ck_Minute = 30\<rparr>" "sw_Profile school_hours = ''pupils''"
    by code_simp+
  then show ?thesis
    using r schedule_allowed [OF r, of "\<lparr>ck_Weekday = 1, ck_Hour = 8, ck_Minute = 30\<rparr>" "''pupils''"]
      schedule_allowed [OF r, of "\<lparr>ck_Weekday = 2, ck_Hour = 8, ck_Minute = 30\<rparr>" "''pupils''"] by simp
qed

section \<open>Client profiles\<close>

text \<open>\<open>bart.Table[string]\<close>, by the operations the code calls.\<close>

record 'm bart_map =
  bm_new :: 'm
  bm_Insert :: "'m \<Rightarrow> prefix_ip \<Rightarrow> string \<Rightarrow> 'm"
  bm_Lookup :: "'m \<Rightarrow> addr \<Rightarrow> string option"

text \<open>
  The documented behaviour: \<open>Lookup\<close> returns the value of the longest inserted
  prefix that contains the address, the last value inserted for it.
\<close>

fun lpm_best :: "(nat \<times> string) option \<Rightarrow> (prefix_ip \<times> string) list \<Rightarrow> addr \<Rightarrow> (nat \<times> string) option" where
  "lpm_best best [] a = best"
| "lpm_best best ((p, v) # es) a =
     lpm_best (if prefix_contains p a \<and> (case best of None \<Rightarrow> True | Some (n, _) \<Rightarrow> n \<le> prefix_bits p) then Some (prefix_bits p, v) else best) es a"

definition lpm :: "(prefix_ip \<times> string) list \<Rightarrow> addr \<Rightarrow> string option" where
  "lpm es a = map_option snd (lpm_best None es a)"

definition bm_insert_all :: "'m bart_map \<Rightarrow> 'm \<Rightarrow> (prefix_ip \<times> string) list \<Rightarrow> 'm" where
  "bm_insert_all bm t es = foldl (\<lambda>t (p, v). bm_Insert bm t p v) t es"

definition bm_lawful :: "'m bart_map \<Rightarrow> bool" where
  "bm_lawful bm = (\<forall>es a. bm_Lookup bm (bm_insert_all bm (bm_new bm) es) a = lpm es a)"

text \<open>An instance of the law: the list of the insertions.\<close>

definition bm_list :: "(prefix_ip \<times> string) list bart_map" where
  "bm_list = \<lparr>bm_new = [], bm_Insert = (\<lambda>t p v. t @ [(p, v)]), bm_Lookup = lpm\<rparr>"

lemma bm_lawful_list: "bm_lawful bm_list"
proof -
  have "bm_insert_all bm_list t es = t @ es" for t es
    by (induction es arbitrary: t) (auto simp: bm_insert_all_def bm_list_def)
  then show ?thesis by (simp add: bm_lawful_def) (simp add: bm_list_def)
qed

text \<open>\<open>ap_RateLimit\<close> is a \<open>float64\<close> the code only passes on.\<close>

record AccessProfile =
  ap_Name :: string
  ap_Clients :: "string list"
  ap_Default :: bool
  ap_MaxConns :: "int option"
  ap_RateLimit :: "rat option"
  ap_RateBurst :: "int option"

record ('t, 'm) AccessRules =
  ar_entries :: 'm
  ar_defaultProfile :: string
  ar_banned :: 't
  ar_exceptions :: 't
  ar_profiles :: "(string \<times> AccessProfile) list"

fun add_clients :: "go_lib \<Rightarrow> 'm bart_map \<Rightarrow> string \<Rightarrow> string list \<Rightarrow> 'm \<Rightarrow> 'm result" where
  "add_clients lib bm name [] t = Inr t"
| "add_clients lib bm name (client # cs) t =
     (case parse_ip_entry lib client of
        None \<Rightarrow> Inl (BadIPPrefix name client)
      | Some p \<Rightarrow> add_clients lib bm name cs (bm_Insert bm t (prefix_masked p) name))"

fun add_profiles :: "go_lib \<Rightarrow> 'm bart_map \<Rightarrow> AccessProfile list \<Rightarrow> ('t, 'm) AccessRules \<Rightarrow> ('t, 'm) AccessRules result" where
  "add_profiles lib bm [] rules = Inr rules"
| "add_profiles lib bm (profile # ps) rules =
     (if ap_Name profile = [] then Inl (Failure ''access profile name cannot be empty'')
      else
        (let rules = rules\<lparr>ar_profiles := AList.update (ap_Name profile) profile (ar_profiles rules)\<rparr>
         in if ap_Default profile \<and> ar_defaultProfile rules \<noteq> [] then Inl (Failure ''multiple default access profiles'')
            else
              (let rules = (if ap_Default profile then rules\<lparr>ar_defaultProfile := ap_Name profile\<rparr> else rules)
               in rbind (add_clients lib bm (ap_Name profile) (ap_Clients profile) (ar_entries rules)) (\<lambda>t.
                    add_profiles lib bm ps (rules\<lparr>ar_entries := t\<rparr>)))))"

definition NewAccessRules :: "go_lib \<Rightarrow> 't bart \<Rightarrow> 'm bart_map \<Rightarrow> AccessProfile list \<Rightarrow> ('t, 'm) AccessRules result" where
  "NewAccessRules lib bt bm profiles =
     (let rules = \<lparr>ar_entries = bm_new bm, ar_defaultProfile = [], ar_banned = bart_new bt, ar_exceptions = bart_new bt, ar_profiles = []\<rparr>
      in if profiles = [] then Inr (rules\<lparr>ar_defaultProfile := ''default''\<rparr>) else add_profiles lib bm profiles rules)"

text \<open>The loop of \<open>SetBanned\<close> and \<open>SetExceptions\<close>; on an error the entries before it stay in the table.\<close>

fun client_table :: "go_lib \<Rightarrow> 't bart \<Rightarrow> string \<Rightarrow> string list \<Rightarrow> 't \<Rightarrow> 't \<times> gate_error option" where
  "client_table lib bt what [] t = (t, None)"
| "client_table lib bt what (entry # es) t =
     (case parse_ip_entry lib entry of
        None \<Rightarrow> (t, Some (BadIPPrefix what entry))
      | Some p \<Rightarrow> client_table lib bt what es (bart_Insert bt t (prefix_masked p)))"

definition SetBanned :: "go_lib \<Rightarrow> 't bart \<Rightarrow> string list \<Rightarrow> ('t, 'm) AccessRules option \<Rightarrow> ('t, 'm) AccessRules option \<times> gate_error option" where
  "SetBanned lib bt bans r =
     (case r of None \<Rightarrow> (None, None)
      | Some rules \<Rightarrow> (let (t, e) = client_table lib bt ''banned client'' bans (bart_new bt) in (Some (rules\<lparr>ar_banned := t\<rparr>), e)))"

definition SetExceptions :: "go_lib \<Rightarrow> 't bart \<Rightarrow> string list \<Rightarrow> ('t, 'm) AccessRules option \<Rightarrow> ('t, 'm) AccessRules option \<times> gate_error option" where
  "SetExceptions lib bt excepted r =
     (case r of None \<Rightarrow> (None, None)
      | Some rules \<Rightarrow> (let (t, e) = client_table lib bt ''exception client'' excepted (bart_new bt) in (Some (rules\<lparr>ar_exceptions := t\<rparr>), e)))"

definition ProfileForRemoteAddr :: "go_lib \<Rightarrow> 't bart \<Rightarrow> 'm bart_map \<Rightarrow> ('t, 'm) AccessRules option \<Rightarrow> string \<Rightarrow> string \<times> bool" where
  "ProfileForRemoteAddr lib bt bm r remoteAddr =
     (case r of
        None \<Rightarrow> ([], True)
      | Some rules \<Rightarrow>
          (let host = (case net_SplitHostPort remoteAddr of Some (h, _) \<Rightarrow> h | None \<Rightarrow> remoteAddr)
           in case netip_ParseAddr lib host of
                None \<Rightarrow> ([], False)
              | Some a \<Rightarrow>
                  if \<not> bart_Lookup bt (ar_exceptions rules) a \<and> bart_Lookup bt (ar_banned rules) a then ([], False)
                  else case bm_Lookup bm (ar_entries rules) a of
                         Some profile \<Rightarrow> (profile, True)
                       | None \<Rightarrow> if ar_defaultProfile rules \<noteq> [] then (ar_defaultProfile rules, True) else ([], False)))"

definition ProfileLimits :: "('t, 'm) AccessRules option \<Rightarrow> string \<Rightarrow> (int option \<times> rat option \<times> int option) option" where
  "ProfileLimits r profileName =
     (case r of
        None \<Rightarrow> None
      | Some rules \<Rightarrow> map_option (\<lambda>p. (ap_MaxConns p, ap_RateLimit p, ap_RateBurst p)) (map_of (ar_profiles rules) profileName))"

text \<open>
  The reading of the configuration: the client entries of the profiles in
  order, each with the name of its profile, and the one default profile.
\<close>

definition profile_entries :: "go_lib \<Rightarrow> AccessProfile list \<Rightarrow> (prefix_ip \<times> string) list" where
  "profile_entries lib profiles =
     concat (map (\<lambda>p. map (\<lambda>c. (prefix_masked (the (parse_ip_entry lib c)), ap_Name p)) (ap_Clients p)) profiles)"

definition default_profile :: "AccessProfile list \<Rightarrow> string" where
  "default_profile profiles = (if profiles = [] then ''default'' else case filter ap_Default profiles of [] \<Rightarrow> [] | p # _ \<Rightarrow> ap_Name p)"

definition client_listed :: "go_lib \<Rightarrow> string list \<Rightarrow> addr \<Rightarrow> bool" where
  "client_listed lib entries a = list_ex (\<lambda>e. case parse_ip_entry lib e of None \<Rightarrow> False | Some p \<Rightarrow> prefix_contains p a) entries"

lemma bm_insert_all_simps:
  "bm_insert_all bm t [] = t" "bm_insert_all bm t ((p, v) # es) = bm_insert_all bm (bm_Insert bm t p v) es"
  "bm_insert_all bm t (es @ fs) = bm_insert_all bm (bm_insert_all bm t es) fs"
  by (simp_all add: bm_insert_all_def)

lemma add_clients_spec:
  "add_clients lib bm name cs t = Inr t' \<Longrightarrow> t' = bm_insert_all bm t (map (\<lambda>c. (prefix_masked (the (parse_ip_entry lib c)), name)) cs)"
  by (induction cs arbitrary: t) (auto simp: bm_insert_all_simps split: option.splits)

lemma add_profiles_spec:
  "add_profiles lib bm ps rules = Inr out \<Longrightarrow>
     ar_entries out = bm_insert_all bm (ar_entries rules) (profile_entries lib ps) \<and>
     ar_defaultProfile out = (if ar_defaultProfile rules \<noteq> [] then ar_defaultProfile rules else case filter ap_Default ps of [] \<Rightarrow> [] | p # _ \<Rightarrow> ap_Name p) \<and>
     (ar_defaultProfile rules \<noteq> [] \<longrightarrow> filter ap_Default ps = []) \<and> length (filter ap_Default ps) \<le> 1 \<and>
     ar_banned out = ar_banned rules \<and> ar_exceptions out = ar_exceptions rules"
proof (induction ps arbitrary: rules)
  case (Cons p ps)
  let ?r = "rules\<lparr>ar_profiles := AList.update (ap_Name p) p (ar_profiles rules)\<rparr>"
  let ?r' = "if ap_Default p then ?r\<lparr>ar_defaultProfile := ap_Name p\<rparr> else ?r"
  from Cons.prems obtain t where t: "ap_Name p \<noteq> []" "\<not> (ap_Default p \<and> ar_defaultProfile rules \<noteq> [])"
    "add_clients lib bm (ap_Name p) (ap_Clients p) (ar_entries rules) = Inr t" "add_profiles lib bm ps (?r'\<lparr>ar_entries := t\<rparr>) = Inr out"
    by (auto simp: Let_def rbind_eq_Inr split: if_splits)
  note clients = add_clients_spec [OF t(3)]
  have entries: "profile_entries lib (p # ps) = map (\<lambda>c. (prefix_masked (the (parse_ip_entry lib c)), ap_Name p)) (ap_Clients p) @ profile_entries lib ps"
    by (simp add: profile_entries_def)
  show ?case using Cons.IH [OF t(4)] t(1,2) clients entries
    by (cases "ap_Default p") (auto simp: bm_insert_all_simps split: list.splits)
qed (auto simp: profile_entries_def bm_insert_all_simps)

lemma client_table_spec:
  assumes "bart_lawful bt"
  shows "client_table lib bt what es t = (t', None) \<Longrightarrow> bart_Lookup bt t' a \<longleftrightarrow> bart_Lookup bt t a \<or> client_listed lib es a"
  using assms by (induction es arbitrary: t) (auto simp: client_listed_def bart_lawful_def split: option.splits)

lemma NewAccessRules_spec:
  assumes "NewAccessRules lib bt bm profiles = Inr rules"
  shows "ar_entries rules = bm_insert_all bm (bm_new bm) (profile_entries lib profiles)" "ar_defaultProfile rules = default_profile profiles"
proof -
  let ?r = "\<lparr>ar_entries = bm_new bm, ar_defaultProfile = [], ar_banned = bart_new bt, ar_exceptions = bart_new bt, ar_profiles = []\<rparr>"
  have "(ar_entries rules = bm_insert_all bm (bm_new bm) (profile_entries lib profiles)) \<and> ar_defaultProfile rules = default_profile profiles"
  proof (cases "profiles = []")
    case True
    then show ?thesis using assms by (auto simp: NewAccessRules_def Let_def default_profile_def profile_entries_def bm_insert_all_simps)
  next
    case False
    then have "add_profiles lib bm profiles ?r = Inr rules" using assms by (simp add: NewAccessRules_def Let_def)
    from add_profiles_spec [OF this] False show ?thesis by (simp add: default_profile_def)
  qed
  then show "ar_entries rules = bm_insert_all bm (bm_new bm) (profile_entries lib profiles)" "ar_defaultProfile rules = default_profile profiles" by simp_all
qed

lemma ProfileForRemoteAddr_spec:
  assumes "bart_lawful bt" "bm_lawful bm" "NewAccessRules lib bt bm profiles = Inr r0"
    and "SetBanned lib bt bans (Some r0) = (Some r1, None)" "SetExceptions lib bt excepted (Some r1) = (Some r2, None)"
  shows "ProfileForRemoteAddr lib bt bm (Some r2) remote =
    (case netip_ParseAddr lib (case net_SplitHostPort remote of Some (h, _) \<Rightarrow> h | None \<Rightarrow> remote) of
       None \<Rightarrow> ([], False)
     | Some a \<Rightarrow>
         if client_listed lib bans a \<and> \<not> client_listed lib excepted a then ([], False)
         else case lpm (profile_entries lib profiles) a of
                Some profile \<Rightarrow> (profile, True)
              | None \<Rightarrow> (default_profile profiles, default_profile profiles \<noteq> []))"
proof -
  obtain tb where tb: "client_table lib bt ''banned client'' bans (bart_new bt) = (tb, None)" "r1 = r0\<lparr>ar_banned := tb\<rparr>"
    using assms(4) by (auto simp: SetBanned_def split: prod.splits)
  obtain te where te: "client_table lib bt ''exception client'' excepted (bart_new bt) = (te, None)" "r2 = r1\<lparr>ar_exceptions := te\<rparr>"
    using assms(5) by (auto simp: SetExceptions_def split: prod.splits)
  have "\<not> bart_Lookup bt (bart_new bt) a" for a using assms(1) by (simp add: bart_lawful_def)
  then have look: "bart_Lookup bt tb a = client_listed lib bans a" "bart_Lookup bt te a = client_listed lib excepted a" for a
    using client_table_spec [OF assms(1) tb(1)] client_table_spec [OF assms(1) te(1)] by auto
  have "bm_Lookup bm (ar_entries r0) a = lpm (profile_entries lib profiles) a" for a
    using assms(2) NewAccessRules_spec(1) [OF assms(3)] by (simp add: bm_lawful_def)
  then show ?thesis using tb(2) te(2) look NewAccessRules_spec(2) [OF assms(3)]
    by (auto simp: ProfileForRemoteAddr_def Let_def split: option.splits)
qed

text \<open>
  C34: The profile of a client.  With rules built without an error, an address
  that is listed as banned and not as an exception is refused; otherwise the
  client gets the profile of the longest prefix that contains its address, or
  the single default profile, or is refused.  An address that does not parse is refused.
\<close>

theorem client_profile:
  assumes "bart_lawful bt" "bm_lawful bm" "NewAccessRules lib bt bm profiles = Inr r0"
    and "SetBanned lib bt bans (Some r0) = (Some r1, None)" "SetExceptions lib bt excepted (Some r1) = (Some r2, None)"
  shows "ProfileForRemoteAddr lib bt bm (Some r2) remote =
    (case netip_ParseAddr lib (case net_SplitHostPort remote of Some (h, _) \<Rightarrow> h | None \<Rightarrow> remote) of
       None \<Rightarrow> ([], False)
     | Some a \<Rightarrow>
         if client_listed lib bans a \<and> \<not> client_listed lib excepted a then ([], False)
         else case lpm (profile_entries lib profiles) a of
                Some profile \<Rightarrow> (profile, True)
              | None \<Rightarrow> (default_profile profiles, default_profile profiles \<noteq> []))"
  by (rule ProfileForRemoteAddr_spec [OF assms])

text \<open>A library that knows a few texts, with addresses of four bits.\<close>

definition toy_lib :: go_lib where
  "toy_lib = null_lib\<lparr>netip_ParseAddr := (\<lambda>s. if s = ''10.0.0.7'' then Some (Addr 4 11) else None),
     netip_ParsePrefix := (\<lambda>s. if s = ''10.0.0.0/8'' then Some (Prefix (Addr 4 8) 1) else if s = ''10.0.0.0/24'' then Some (Prefix (Addr 4 10) 3) else None)\<rparr>"

definition toy_profile :: "string \<Rightarrow> string list \<Rightarrow> bool \<Rightarrow> AccessProfile" where
  "toy_profile name clients dflt = \<lparr>ap_Name = name, ap_Clients = clients, ap_Default = dflt, ap_MaxConns = None, ap_RateLimit = None, ap_RateBurst = None\<rparr>"

definition toy_rules :: "string list \<Rightarrow> string list \<Rightarrow> (prefix_ip list, (prefix_ip \<times> string) list) AccessRules option" where
  "toy_rules bans excepted =
     (case NewAccessRules toy_lib bart_list bm_list [toy_profile ''lab'' [''10.0.0.0/24''] False, toy_profile ''all'' [''10.0.0.0/8''] True] of
        Inl _ \<Rightarrow> None
      | Inr r \<Rightarrow> fst (SetExceptions toy_lib bart_list excepted (fst (SetBanned toy_lib bart_list bans (Some r)))))"

theorem client_profile_witness:
  "ProfileForRemoteAddr toy_lib bart_list bm_list (toy_rules [''10.0.0.7''] []) ''10.0.0.7:4711'' = ([], False) \<and>
   ProfileForRemoteAddr toy_lib bart_list bm_list (toy_rules [''10.0.0.7''] [''10.0.0.0/24'']) ''10.0.0.7:4711'' = (''lab'', True)"
proof -
  let ?ps = "[toy_profile ''lab'' [''10.0.0.0/24''] False, toy_profile ''all'' [''10.0.0.0/8''] True]"
  have "case NewAccessRules toy_lib bart_list bm_list ?ps of Inr _ \<Rightarrow> True | Inl _ \<Rightarrow> False" by code_simp
  then obtain r0 where r0: "NewAccessRules toy_lib bart_list bm_list ?ps = Inr r0" by (auto split: sum.splits)
  have b: "snd (client_table toy_lib bart_list ''banned client'' [''10.0.0.7''] (bart_new bart_list)) = None"
    "snd (client_table toy_lib bart_list ''exception client'' [] (bart_new bart_list)) = None"
    "snd (client_table toy_lib bart_list ''exception client'' [''10.0.0.0/24''] (bart_new bart_list)) = None" by code_simp+
  obtain r1 where r1: "SetBanned toy_lib bart_list [''10.0.0.7''] (Some r0) = (Some r1, None)" using b(1) by (auto simp: SetBanned_def split_beta simp del: client_table.simps)
  obtain r2 where r2: "SetExceptions toy_lib bart_list [] (Some r1) = (Some r2, None)" using b(2) by (auto simp: SetExceptions_def split_beta simp del: client_table.simps)
  obtain r3 where r3: "SetExceptions toy_lib bart_list [''10.0.0.0/24''] (Some r1) = (Some r3, None)" using b(3) by (auto simp: SetExceptions_def split_beta simp del: client_table.simps)
  note th = client_profile [OF bart_lawful_list bm_lawful_list r0 r1]
  have e: "netip_ParseAddr toy_lib (case net_SplitHostPort ''10.0.0.7:4711'' of Some (h, _) \<Rightarrow> h | None \<Rightarrow> ''10.0.0.7:4711'') = Some (Addr 4 11)"
    "client_listed toy_lib [''10.0.0.7''] (Addr 4 11)" "\<not> client_listed toy_lib [] (Addr 4 11)"
    "client_listed toy_lib [''10.0.0.0/24''] (Addr 4 11)" "lpm (profile_entries toy_lib ?ps) (Addr 4 11) = Some ''lab''"
    by code_simp+
  show ?thesis using th [OF r2, of "''10.0.0.7:4711''"] th [OF r3, of "''10.0.0.7:4711''"] r0 r1 r2 r3 e by (simp add: toy_rules_def)
qed

end
