(* ===== verification/Conn_Limiter.thy ===== *)
theory Conn_Limiter
  imports Access_Control "HOL-Library.Multiset"
begin

text \<open>
  The limits on concurrent connections of \<open>proxy/server.go\<close>: the global
  semaphore, one semaphore per access profile, and their replacement by
  \<open>SetMaxConnections\<close> and \<open>SetProfileMaxConnections\<close> while permits are out.
  A limiter shares semaphores with the limiter it replaces, so semaphores live
  in a store and limiters refer to them.  The semaphore itself
  (\<open>golang.org/x/sync/semaphore\<close>) is a parameter with its documented behaviour
  as a law.
\<close>

section \<open>Semaphores\<close>

text \<open>
  \<open>sem_TryAcquire\<close> is \<open>None\<close> where the attempt fails; a waiting \<open>Acquire\<close> that
  succeeds is a successful attempt at the moment it returns.  \<open>sem_Release\<close> is
  \<open>None\<close> where the library panics.
\<close>

record 'w sem_ops =
  sem_New :: "int \<Rightarrow> 'w"
  sem_TryAcquire :: "'w \<Rightarrow> 'w option"
  sem_Release :: "'w \<Rightarrow> 'w option"

text \<open>
  The documented law, over what a semaphore holds and its size: a new one holds
  nothing, an acquisition adds one and stays within the size, a release of
  what is held takes one away.
\<close>

definition sem_lawful :: "'w sem_ops \<Rightarrow> ('w \<Rightarrow> int) \<Rightarrow> ('w \<Rightarrow> int) \<Rightarrow> bool" where
  "sem_lawful ops held limit =
     ((\<forall>n. held (sem_New ops n) = 0 \<and> limit (sem_New ops n) = n) \<and>
      (\<forall>w w'. sem_TryAcquire ops w = Some w' \<longrightarrow> held w' = held w + 1 \<and> limit w' = limit w \<and> held w' \<le> limit w) \<and>
      (\<forall>w. 0 < held w \<longrightarrow> (\<exists>w'. sem_Release ops w = Some w' \<and> held w' = held w - 1 \<and> limit w' = limit w)))"

text \<open>An instance of the law: a counter.\<close>

definition counter_sem :: "(int \<times> int) sem_ops" where
  "counter_sem = \<lparr>sem_New = (\<lambda>n. (0, n)), sem_TryAcquire = (\<lambda>(c, n). if c < n then Some (c + 1, n) else None),
     sem_Release = (\<lambda>(c, n). if 0 < c then Some (c - 1, n) else None)\<rparr>"

lemma sem_lawful_counter: "sem_lawful counter_sem fst snd"
  by (auto simp: sem_lawful_def counter_sem_def split: if_splits)

section \<open>Limiters and permits\<close>

record connLimiter =
  cl_globalSem :: "nat option"
  cl_profileSems :: "(string \<times> nat) list"

record connLimiterPermit =
  pm_limiter :: connLimiter
  pm_profile :: string
  pm_hasProfile :: bool

record 'w limiter_state =
  ls_sems :: "'w list"
  ls_limiter :: connLimiter
  ls_pending :: "connLimiterPermit list"
  ls_permits :: "connLimiterPermit list"

definition new_sem :: "'w sem_ops \<Rightarrow> int \<Rightarrow> 'w limiter_state \<Rightarrow> nat \<times> 'w limiter_state" where
  "new_sem ops n s = (length (ls_sems s), s\<lparr>ls_sems := ls_sems s @ [sem_New ops n]\<rparr>)"

definition SetMaxConnections :: "'w sem_ops \<Rightarrow> int \<Rightarrow> 'w limiter_state \<Rightarrow> 'w limiter_state" where
  "SetMaxConnections ops m s =
     (let (g, s) = new_sem ops (if m \<le> 0 then 1 else m) s
      in s\<lparr>ls_limiter := \<lparr>cl_globalSem = Some g, cl_profileSems = cl_profileSems (ls_limiter s)\<rparr>\<rparr>)"

fun profile_sems :: "'w sem_ops \<Rightarrow> AccessProfile list \<Rightarrow> (string \<times> nat) list \<Rightarrow> 'w limiter_state \<Rightarrow> (string \<times> nat) list \<times> 'w limiter_state" where
  "profile_sems ops [] sems s = (sems, s)"
| "profile_sems ops (p # ps) sems s =
     (case ap_MaxConns p of
        Some n \<Rightarrow> (if n > 0 then let (g, s) = new_sem ops n s in profile_sems ops ps (AList.update (ap_Name p) g sems) s else profile_sems ops ps sems s)
      | None \<Rightarrow> profile_sems ops ps sems s)"

definition SetProfileMaxConnections :: "'w sem_ops \<Rightarrow> AccessProfile list \<Rightarrow> 'w limiter_state \<Rightarrow> 'w limiter_state" where
  "SetProfileMaxConnections ops profiles s =
     (let (g, s) = (case cl_globalSem (ls_limiter s) of Some g \<Rightarrow> (g, s) | None \<Rightarrow> new_sem ops 1024 s);
          (sems, s) = profile_sems ops profiles [] s
      in s\<lparr>ls_limiter := \<lparr>cl_globalSem = Some g, cl_profileSems = sems\<rparr>\<rparr>)"

definition try_sem :: "'w sem_ops \<Rightarrow> nat \<Rightarrow> 'w limiter_state \<Rightarrow> 'w limiter_state option" where
  "try_sem ops g s = map_option (\<lambda>w. s\<lparr>ls_sems := (ls_sems s)[g := w]\<rparr>) (sem_TryAcquire ops (ls_sems s ! g))"

definition release_sem :: "'w sem_ops \<Rightarrow> nat \<Rightarrow> 'w limiter_state \<Rightarrow> 'w limiter_state option" where
  "release_sem ops g s = map_option (\<lambda>w. s\<lparr>ls_sems := (ls_sems s)[g := w]\<rparr>) (sem_Release ops (ls_sems s ! g))"

definition profile_sem :: "connLimiter \<Rightarrow> string \<Rightarrow> nat option" where
  "profile_sem l profile = (if profile = [] then None else map_of (cl_profileSems l) profile)"

text \<open>
  \<open>acquireConnForProfile\<close> takes the profile semaphore and then the global one,
  and other goroutines run in between.  Its two halves work on a permit in the
  making; the error results carry the reason the caller reports.
\<close>

definition acquire_profile :: "'w sem_ops \<Rightarrow> string \<Rightarrow> 'w limiter_state \<Rightarrow> string + (connLimiterPermit \<times> 'w limiter_state)" where
  "acquire_profile ops profile s =
     (case profile_sem (ls_limiter s) profile of
        None \<Rightarrow> Inr (\<lparr>pm_limiter = ls_limiter s, pm_profile = profile, pm_hasProfile = False\<rparr>, s)
      | Some g \<Rightarrow>
          (case try_sem ops g s of
             None \<Rightarrow> Inl ''profile_max_connections''
           | Some s \<Rightarrow> Inr (\<lparr>pm_limiter = ls_limiter s, pm_profile = profile, pm_hasProfile = True\<rparr>, s)))"

definition give_back_profile :: "'w sem_ops \<Rightarrow> connLimiterPermit \<Rightarrow> 'w limiter_state \<Rightarrow> 'w limiter_state option" where
  "give_back_profile ops p s =
     (if pm_hasProfile p
      then case map_of (cl_profileSems (pm_limiter p)) (pm_profile p) of Some g \<Rightarrow> release_sem ops g s | None \<Rightarrow> Some s
      else Some s)"

text \<open>The second half; \<open>None\<close> is a panic of the release.\<close>

definition acquire_global :: "'w sem_ops \<Rightarrow> connLimiterPermit \<Rightarrow> 'w limiter_state \<Rightarrow> ((string + connLimiterPermit) \<times> 'w limiter_state) option" where
  "acquire_global ops p s =
     (case cl_globalSem (pm_limiter p) of
        None \<Rightarrow> Some (Inr p, s)
      | Some g \<Rightarrow>
          (case try_sem ops g s of
             Some s \<Rightarrow> Some (Inr p, s)
           | None \<Rightarrow> map_option (Pair (Inl ''max_connections'')) (give_back_profile ops p s)))"

definition acquireConnForProfile :: "'w sem_ops \<Rightarrow> string \<Rightarrow> 'w limiter_state \<Rightarrow> ((string + connLimiterPermit) \<times> 'w limiter_state) option" where
  "acquireConnForProfile ops profile s =
     (case acquire_profile ops profile s of
        Inl reason \<Rightarrow> Some (Inl reason, s)
      | Inr (p, s) \<Rightarrow> acquire_global ops p s)"

definition releaseConn :: "'w sem_ops \<Rightarrow> connLimiterPermit option \<Rightarrow> 'w limiter_state \<Rightarrow> 'w limiter_state option" where
  "releaseConn ops permit s =
     (case permit of
        None \<Rightarrow> Some s
      | Some p \<Rightarrow>
          (case (case cl_globalSem (pm_limiter p) of Some g \<Rightarrow> release_sem ops g s | None \<Rightarrow> Some s) of
             None \<Rightarrow> None
           | Some s \<Rightarrow> give_back_profile ops p s))"

section \<open>Interleavings\<close>

definition limiter_start :: "'w sem_ops \<Rightarrow> int \<Rightarrow> 'w limiter_state" where
  "limiter_start ops m = SetMaxConnections ops m \<lparr>ls_sems = [], ls_limiter = \<lparr>cl_globalSem = None, cl_profileSems = []\<rparr>, ls_pending = [], ls_permits = []\<rparr>"

inductive limiter_step :: "'w sem_ops \<Rightarrow> 'w limiter_state \<Rightarrow> 'w limiter_state \<Rightarrow> bool" for ops where
  profile_taken: "acquire_profile ops profile s = Inr (p, s') \<Longrightarrow> limiter_step ops s (s'\<lparr>ls_pending := p # ls_pending s'\<rparr>)"
| global_taken: "p \<in> set (ls_pending s) \<Longrightarrow> acquire_global ops p s = Some (Inr q, s') \<Longrightarrow>
    limiter_step ops s (s'\<lparr>ls_pending := remove1 p (ls_pending s'), ls_permits := q # ls_permits s'\<rparr>)"
| global_full: "p \<in> set (ls_pending s) \<Longrightarrow> acquire_global ops p s = Some (Inl reason, s') \<Longrightarrow>
    limiter_step ops s (s'\<lparr>ls_pending := remove1 p (ls_pending s')\<rparr>)"
| released: "p \<in> set (ls_permits s) \<Longrightarrow> releaseConn ops (Some p) s = Some s' \<Longrightarrow>
    limiter_step ops s (s'\<lparr>ls_permits := remove1 p (ls_permits s')\<rparr>)"
| max_set: "limiter_step ops s (SetMaxConnections ops m s)"
| profiles_set: "limiter_step ops s (SetProfileMaxConnections ops profiles s)"

inductive limiter_reachable :: "'w sem_ops \<Rightarrow> int \<Rightarrow> 'w limiter_state \<Rightarrow> bool" for ops m where
  start: "limiter_reachable ops m (limiter_start ops m)"
| step: "limiter_reachable ops m s \<Longrightarrow> limiter_step ops s s' \<Longrightarrow> limiter_reachable ops m s'"

section \<open>Accounting\<close>

definition profile_use :: "connLimiterPermit \<Rightarrow> nat multiset" where
  "profile_use p =
     (if pm_hasProfile p then case map_of (cl_profileSems (pm_limiter p)) (pm_profile p) of Some g \<Rightarrow> {#g#} | None \<Rightarrow> {#} else {#})"

definition global_use :: "connLimiterPermit \<Rightarrow> nat multiset" where
  "global_use p = (case cl_globalSem (pm_limiter p) of Some g \<Rightarrow> {#g#} | None \<Rightarrow> {#})"

definition in_use :: "'w limiter_state \<Rightarrow> nat multiset" where
  "in_use s = sum_list (map profile_use (ls_pending s)) + sum_list (map (\<lambda>p. global_use p + profile_use p) (ls_permits s))"

definition limiter_in :: "nat \<Rightarrow> connLimiter \<Rightarrow> bool" where
  "limiter_in n l = ((\<forall>g. cl_globalSem l = Some g \<longrightarrow> g < n) \<and> (\<forall>(k, g)\<in>set (cl_profileSems l). g < n))"

definition sems_ok :: "('w \<Rightarrow> int) \<Rightarrow> ('w \<Rightarrow> int) \<Rightarrow> 'w list \<Rightarrow> nat multiset \<Rightarrow> bool" where
  "sems_ok held limit ws u = ((\<forall>g<length ws. held (ws ! g) = int (count u g) \<and> held (ws ! g) \<le> limit (ws ! g)) \<and> (\<forall>g\<in>#u. g < length ws))"

definition limiter_inv :: "('w \<Rightarrow> int) \<Rightarrow> ('w \<Rightarrow> int) \<Rightarrow> 'w limiter_state \<Rightarrow> bool" where
  "limiter_inv held limit s =
     (sems_ok held limit (ls_sems s) (in_use s) \<and> limiter_in (length (ls_sems s)) (ls_limiter s) \<and>
      (\<forall>p\<in>set (ls_pending s) \<union> set (ls_permits s). limiter_in (length (ls_sems s)) (pm_limiter p)))"

lemma sems_ok_acquire:
  assumes "sem_lawful ops held limit" "sems_ok held limit ws u" "g < length ws" "sem_TryAcquire ops (ws ! g) = Some w"
  shows "sems_ok held limit (ws[g := w]) (add_mset g u)"
proof -
  have "held w = held (ws ! g) + 1" "limit w = limit (ws ! g)" "held w \<le> limit (ws ! g)" using assms(1,4) unfolding sem_lawful_def by blast+
  then show ?thesis using assms(2,3) by (auto simp: sems_ok_def nth_list_update)
qed

lemma sems_ok_release:
  assumes "sem_lawful ops held limit" "sems_ok held limit ws (add_mset g u)"
  shows "\<exists>w. sem_Release ops (ws ! g) = Some w \<and> sems_ok held limit (ws[g := w]) u"
proof -
  have g: "g < length ws" "held (ws ! g) = int (count u g) + 1" "held (ws ! g) \<le> limit (ws ! g)" using assms(2) by (auto simp: sems_ok_def)
  then have "0 < held (ws ! g)" by simp
  then obtain w where w: "sem_Release ops (ws ! g) = Some w" "held w = held (ws ! g) - 1" "limit w = limit (ws ! g)"
    using assms(1) by (auto simp: sem_lawful_def)
  then have "sems_ok held limit (ws[g := w]) u" using assms(2) g by (auto simp: sems_ok_def nth_list_update split: if_splits)
  then show ?thesis using w by blast
qed

lemma sems_ok_new:
  assumes "sem_lawful ops held limit" "sems_ok held limit ws u" "0 \<le> n"
  shows "sems_ok held limit (ws @ [sem_New ops n]) u"
proof -
  have "count u (length ws) = 0" using assms(2) by (auto simp: sems_ok_def not_in_iff [symmetric])
  then show ?thesis using assms by (auto simp: sems_ok_def sem_lawful_def nth_append less_Suc_eq)
qed

lemma limiter_in_mono: "limiter_in n l \<Longrightarrow> n \<le> m \<Longrightarrow> limiter_in m l"
  by (fastforce simp: limiter_in_def)

lemma sum_list_remove1: "p \<in> set ps \<Longrightarrow> sum_list (map f ps) = f p + sum_list (map f (remove1 p ps))" for f :: "'a \<Rightarrow> 'b multiset"
  by (rule sum_list_map_remove1)

text \<open>One lemma per operation: what it does to the store, and to the use of it.\<close>

lemma acquire_profile_sems:
  assumes l: "sem_lawful ops held limit" and ok: "sems_ok held limit (ls_sems s) u" "limiter_in (length (ls_sems s)) (ls_limiter s)"
    and a: "acquire_profile ops profile s = Inr (p, s')"
  shows "sems_ok held limit (ls_sems s') (profile_use p + u)" "pm_limiter p = ls_limiter s" "\<exists>ws. s' = s\<lparr>ls_sems := ws\<rparr> \<and> length ws = length (ls_sems s)"
proof -
  have "sems_ok held limit (ls_sems s') (profile_use p + u) \<and> pm_limiter p = ls_limiter s \<and> (\<exists>ws. s' = s\<lparr>ls_sems := ws\<rparr> \<and> length ws = length (ls_sems s))"
  proof (cases "profile_sem (ls_limiter s) profile")
    case None
    then show ?thesis using a ok by (auto simp: acquire_profile_def profile_use_def intro!: exI [of _ "ls_sems s"])
  next
    case (Some g)
    then have m: "map_of (cl_profileSems (ls_limiter s)) profile = Some g" by (auto simp: profile_sem_def split: if_splits)
    then have "g < length (ls_sems s)" using ok(2) by (auto simp: limiter_in_def dest: map_of_SomeD)
    moreover obtain w where "sem_TryAcquire ops (ls_sems s ! g) = Some w" "s' = s\<lparr>ls_sems := (ls_sems s)[g := w]\<rparr>"
      "p = \<lparr>pm_limiter = ls_limiter s, pm_profile = profile, pm_hasProfile = True\<rparr>"
      using a Some by (auto simp: acquire_profile_def try_sem_def split: option.splits)
    ultimately show ?thesis using sems_ok_acquire [OF l ok(1)] m by (auto simp: profile_use_def)
  qed
  then show "sems_ok held limit (ls_sems s') (profile_use p + u)" "pm_limiter p = ls_limiter s" "\<exists>ws. s' = s\<lparr>ls_sems := ws\<rparr> \<and> length ws = length (ls_sems s)"
    by blast+
qed

lemma give_back_profile_sems:
  assumes "sem_lawful ops held limit" "sems_ok held limit (ls_sems s) (profile_use p + u)"
  shows "\<exists>ws. give_back_profile ops p s = Some (s\<lparr>ls_sems := ws\<rparr>) \<and> length ws = length (ls_sems s) \<and> sems_ok held limit ws u"
proof (cases "pm_hasProfile p \<and> map_of (cl_profileSems (pm_limiter p)) (pm_profile p) \<noteq> None")
  case True
  then obtain g where g: "map_of (cl_profileSems (pm_limiter p)) (pm_profile p) = Some g" "pm_hasProfile p" by auto
  then have "sems_ok held limit (ls_sems s) (add_mset g u)" using assms(2) by (simp add: profile_use_def)
  from sems_ok_release [OF assms(1) this] obtain w where
    w: "sem_Release ops (ls_sems s ! g) = Some w" "sems_ok held limit ((ls_sems s)[g := w]) u" by blast
  show ?thesis by (rule exI [of _ "(ls_sems s)[g := w]"]) (use g w in \<open>simp add: give_back_profile_def release_sem_def\<close>)
next
  case False
  show ?thesis by (rule exI [of _ "ls_sems s"]) (use False assms(2) in \<open>auto simp: give_back_profile_def profile_use_def split: if_splits\<close>)
qed

lemma releaseConn_sems:
  assumes "sem_lawful ops held limit" "sems_ok held limit (ls_sems s) (global_use p + profile_use p + u)"
  shows "\<exists>ws. releaseConn ops (Some p) s = Some (s\<lparr>ls_sems := ws\<rparr>) \<and> length ws = length (ls_sems s) \<and> sems_ok held limit ws u"
proof (cases "cl_globalSem (pm_limiter p)")
  case None
  then show ?thesis using give_back_profile_sems [OF assms(1), of s p u] assms(2) by (simp add: global_use_def releaseConn_def)
next
  case (Some g)
  then have "sems_ok held limit (ls_sems s) (add_mset g (profile_use p + u))" using assms(2) by (simp add: global_use_def)
  from sems_ok_release [OF assms(1) this] obtain w where
    w: "sem_Release ops (ls_sems s ! g) = Some w" "sems_ok held limit ((ls_sems s)[g := w]) (profile_use p + u)" by blast
  then show ?thesis using Some give_back_profile_sems [OF assms(1), of "s\<lparr>ls_sems := (ls_sems s)[g := w]\<rparr>" p u]
    by (auto simp: releaseConn_def release_sem_def)
qed

lemma acquire_global_sems:
  assumes l: "sem_lawful ops held limit" and ok: "sems_ok held limit (ls_sems s) (profile_use p + u)" "limiter_in (length (ls_sems s)) (pm_limiter p)"
  shows "\<exists>r ws. acquire_global ops p s = Some (r, s\<lparr>ls_sems := ws\<rparr>) \<and> length ws = length (ls_sems s) \<and>
    (case r of Inr q \<Rightarrow> q = p \<and> sems_ok held limit ws (global_use p + profile_use p + u) | Inl _ \<Rightarrow> sems_ok held limit ws u)"
proof (cases "cl_globalSem (pm_limiter p)")
  case None
  show ?thesis by (rule exI [of _ "Inr p"], rule exI [of _ "ls_sems s"]) (use None ok(1) in \<open>simp add: acquire_global_def global_use_def\<close>)
next
  case (Some g)
  then have g: "g < length (ls_sems s)" using ok(2) by (simp add: limiter_in_def)
  show ?thesis
  proof (cases "sem_TryAcquire ops (ls_sems s ! g)")
    case None
    then show ?thesis using Some give_back_profile_sems [OF l ok(1)] by (fastforce simp: acquire_global_def try_sem_def)
  next
    case (Some w)
    then show ?thesis using \<open>cl_globalSem (pm_limiter p) = Some g\<close> sems_ok_acquire [OF l ok(1) g Some]
      by (intro exI [of _ "Inr p"] exI [of _ "(ls_sems s)[g := w]"]) (simp add: acquire_global_def try_sem_def global_use_def)
  qed
qed

lemma set_update_subset_pair: "set (AList.update k v al) \<subseteq> insert (k, v) (set al)"
  by (induction al) auto

lemma profile_sems_ok:
  assumes "sem_lawful ops held limit"
  shows "profile_sems ops ps sems s = (sems', s') \<Longrightarrow> sems_ok held limit (ls_sems s) u \<Longrightarrow> \<forall>(k, g)\<in>set sems. g < length (ls_sems s) \<Longrightarrow>
    \<exists>ws. s' = s\<lparr>ls_sems := ws\<rparr> \<and> length (ls_sems s) \<le> length ws \<and> sems_ok held limit ws u \<and> (\<forall>(k, g)\<in>set sems'. g < length ws)"
proof (induction ps arbitrary: sems s)
  case (Cons p ps)
  show ?case
  proof (cases "\<exists>n>0. ap_MaxConns p = Some n")
    case True
    then obtain n where n: "ap_MaxConns p = Some n" "n > 0" by blast
    let ?s = "s\<lparr>ls_sems := ls_sems s @ [sem_New ops n]\<rparr>" and ?m = "AList.update (ap_Name p) (length (ls_sems s)) sems"
    have "profile_sems ops ps ?m ?s = (sems', s')" using Cons.prems(1) n by (simp add: new_sem_def)
    moreover have "sems_ok held limit (ls_sems ?s) u" using sems_ok_new [OF assms Cons.prems(2)] n by simp
    moreover have "\<forall>(k, g)\<in>set ?m. g < length (ls_sems ?s)"
      using Cons.prems(3) set_update_subset_pair [of "ap_Name p" "length (ls_sems s)" sems] by fastforce
    ultimately show ?thesis using Cons.IH [of ?m ?s] by fastforce
  next
    case False
    then have "profile_sems ops ps sems s = (sems', s')" using Cons.prems(1) by (auto split: option.splits if_splits)
    then show ?thesis using Cons.IH Cons.prems by blast
  qed
next
  case Nil
  then show ?case by (intro exI [of _ "ls_sems s'"]) auto
qed

lemma limiter_inv_start: "sem_lawful ops held limit \<Longrightarrow> limiter_inv held limit (limiter_start ops m)"
  by (auto simp: limiter_start_def SetMaxConnections_def new_sem_def limiter_inv_def in_use_def sems_ok_def limiter_in_def sem_lawful_def)

lemma limiter_inv_grow:
  assumes "limiter_inv held limit s" "sems_ok held limit ws (in_use s)" "length (ls_sems s) \<le> length ws" "limiter_in (length ws) l"
  shows "limiter_inv held limit (s\<lparr>ls_sems := ws, ls_limiter := l\<rparr>)"
proof -
  have "in_use (s\<lparr>ls_sems := ws, ls_limiter := l\<rparr>) = in_use s" by (simp add: in_use_def)
  then show ?thesis using assms limiter_in_mono [OF _ assms(3)] by (auto simp: limiter_inv_def)
qed

lemma SetMaxConnections_inv:
  assumes l: "sem_lawful ops held limit" and inv: "limiter_inv held limit s"
  shows "limiter_inv held limit (SetMaxConnections ops m s)"
proof -
  let ?ws = "ls_sems s @ [sem_New ops (if m \<le> 0 then 1 else m)]"
  have "sems_ok held limit ?ws (in_use s)" using inv by (intro sems_ok_new [OF l]) (auto simp: limiter_inv_def)
  moreover have "limiter_in (length ?ws) \<lparr>cl_globalSem = Some (length (ls_sems s)), cl_profileSems = cl_profileSems (ls_limiter s)\<rparr>"
    using inv by (fastforce simp: limiter_inv_def limiter_in_def)
  ultimately show ?thesis using limiter_inv_grow [OF inv, of ?ws] by (simp add: SetMaxConnections_def new_sem_def)
qed

lemma SetProfileMaxConnections_inv:
  assumes l: "sem_lawful ops held limit" and inv: "limiter_inv held limit s"
  shows "limiter_inv held limit (SetProfileMaxConnections ops profiles s)"
proof -
  define gs where "gs = (case cl_globalSem (ls_limiter s) of Some g \<Rightarrow> (g, s) | None \<Rightarrow> new_sem ops 1024 s)"
  have ok: "sems_ok held limit (ls_sems s) (in_use s)" "limiter_in (length (ls_sems s)) (ls_limiter s)" using inv by (simp_all add: limiter_inv_def)
  have "\<exists>ws. snd gs = s\<lparr>ls_sems := ws\<rparr> \<and> length (ls_sems s) \<le> length ws \<and> sems_ok held limit ws (in_use s) \<and> fst gs < length ws"
  proof (cases "cl_globalSem (ls_limiter s)")
    case None
    then show ?thesis using sems_ok_new [OF l ok(1), of 1024] by (intro exI [of _ "ls_sems s @ [sem_New ops 1024]"]) (simp add: gs_def new_sem_def)
  next
    case (Some g)
    then show ?thesis using ok by (intro exI [of _ "ls_sems s"]) (auto simp: gs_def limiter_in_def)
  qed
  then obtain ws where ws: "snd gs = s\<lparr>ls_sems := ws\<rparr>" "length (ls_sems s) \<le> length ws" "sems_ok held limit ws (in_use s)" "fst gs < length ws" by blast
  obtain sems s' where p: "profile_sems ops profiles [] (snd gs) = (sems, s')" by fastforce
  obtain ws' where ws': "s' = (snd gs)\<lparr>ls_sems := ws'\<rparr>" "length ws \<le> length ws'" "sems_ok held limit ws' (in_use s)" "\<forall>(k, g)\<in>set sems. g < length ws'"
    using profile_sems_ok [OF l p, of "in_use s"] ws by auto
  have "limiter_in (length ws') \<lparr>cl_globalSem = Some (fst gs), cl_profileSems = sems\<rparr>" using ws(4) ws'(2,4) by (auto simp: limiter_in_def)
  then have "limiter_inv held limit (s\<lparr>ls_sems := ws', ls_limiter := \<lparr>cl_globalSem = Some (fst gs), cl_profileSems = sems\<rparr>\<rparr>)"
    using limiter_inv_grow [OF inv ws'(3)] ws(2) ws'(2) by simp
  then show ?thesis using p ws(1) ws'(1) by (simp add: SetProfileMaxConnections_def gs_def [symmetric] split_beta Let_def)
qed

lemma limiter_step_inv:
  assumes l: "sem_lawful ops held limit"
  shows "limiter_step ops s s' \<Longrightarrow> limiter_inv held limit s \<Longrightarrow> limiter_inv held limit s'"
proof (induction rule: limiter_step.induct)
  case (profile_taken profile s p s')
  then have ok: "sems_ok held limit (ls_sems s) (in_use s)" "limiter_in (length (ls_sems s)) (ls_limiter s)" by (simp_all add: limiter_inv_def)
  obtain ws where ws: "s' = s\<lparr>ls_sems := ws\<rparr>" "length ws = length (ls_sems s)" using acquire_profile_sems(3) [OF l ok profile_taken(1)] by blast
  have "sems_ok held limit ws (profile_use p + in_use s)" "pm_limiter p = ls_limiter s" using acquire_profile_sems(1,2) [OF l ok profile_taken(1)] ws by simp_all
  then show ?case using profile_taken(2) ws by (auto simp: limiter_inv_def in_use_def union_assoc)
next
  case (global_taken p s q s')
  let ?u = "sum_list (map profile_use (remove1 p (ls_pending s))) + sum_list (map (\<lambda>p. global_use p + profile_use p) (ls_permits s))"
  have "in_use s = profile_use p + ?u" using sum_list_remove1 [OF global_taken(1), of profile_use] by (simp add: in_use_def union_assoc)
  then have "sems_ok held limit (ls_sems s) (profile_use p + ?u)" "limiter_in (length (ls_sems s)) (pm_limiter p)"
    using global_taken by (auto simp: limiter_inv_def)
  from acquire_global_sems [OF l this] obtain ws where
    ws: "s' = s\<lparr>ls_sems := ws\<rparr>" "length ws = length (ls_sems s)" "q = p" "sems_ok held limit ws (global_use p + profile_use p + ?u)"
    using global_taken(2) by auto
  have "in_use (s'\<lparr>ls_pending := remove1 p (ls_pending s'), ls_permits := q # ls_permits s'\<rparr>) = global_use p + profile_use p + ?u"
    using ws by (simp add: in_use_def union_ac)
  then show ?case using global_taken ws set_remove1_subset [of p "ls_pending s"] by (auto simp: limiter_inv_def)
next
  case (global_full p s reason s')
  let ?u = "sum_list (map profile_use (remove1 p (ls_pending s))) + sum_list (map (\<lambda>p. global_use p + profile_use p) (ls_permits s))"
  have "in_use s = profile_use p + ?u" using sum_list_remove1 [OF global_full(1), of profile_use] by (simp add: in_use_def union_assoc)
  then have "sems_ok held limit (ls_sems s) (profile_use p + ?u)" "limiter_in (length (ls_sems s)) (pm_limiter p)"
    using global_full by (auto simp: limiter_inv_def)
  from acquire_global_sems [OF l this] obtain ws where
    ws: "s' = s\<lparr>ls_sems := ws\<rparr>" "length ws = length (ls_sems s)" "sems_ok held limit ws ?u"
    using global_full(2) by auto
  then show ?case using global_full set_remove1_subset [of p "ls_pending s"] by (auto simp: limiter_inv_def in_use_def)
next
  case (released p s s')
  let ?u = "sum_list (map profile_use (ls_pending s)) + sum_list (map (\<lambda>p. global_use p + profile_use p) (remove1 p (ls_permits s)))"
  have "in_use s = global_use p + profile_use p + ?u"
    using sum_list_remove1 [OF released(1), of "\<lambda>p. global_use p + profile_use p"] by (simp add: in_use_def union_ac)
  then have "sems_ok held limit (ls_sems s) (global_use p + profile_use p + ?u)" using released by (simp add: limiter_inv_def)
  from releaseConn_sems [OF l this] obtain ws where
    ws: "s' = s\<lparr>ls_sems := ws\<rparr>" "length ws = length (ls_sems s)" "sems_ok held limit ws ?u" using released(2) by auto
  then show ?case using released set_remove1_subset [of p "ls_permits s"] by (auto simp: limiter_inv_def in_use_def)
qed (auto intro: SetMaxConnections_inv [OF l] SetProfileMaxConnections_inv [OF l])

lemma limiter_reachable_inv: "sem_lawful ops held limit \<Longrightarrow> limiter_reachable ops m s \<Longrightarrow> limiter_inv held limit s"
  by (erule limiter_reachable.induct) (auto intro: limiter_inv_start limiter_step_inv)

lemma permits_counted:
  "length (filter (\<lambda>p. cl_globalSem (pm_limiter p) = Some g) ps) \<le> count (sum_list (map (\<lambda>p. global_use p + profile_use p) ps)) g"
  "length (filter (\<lambda>p. pm_hasProfile p \<and> map_of (cl_profileSems (pm_limiter p)) (pm_profile p) = Some g) ps)
     \<le> count (sum_list (map (\<lambda>p. global_use p + profile_use p) ps)) g"
  by (induction ps) (auto simp: global_use_def profile_use_def)

text \<open>
  C37: In every state the server can reach, over any interleaving of the two
  halves of acquisitions, refusals, releases and reconfigurations: the
  connections admitted under a global semaphore, and under a profile's
  semaphore, never exceed its limit; every permit can be given back, and every
  half-made permit completed or refused, without a panic; and once nothing is
  held, no semaphore has lost a unit.
\<close>

theorem permits_accounted:
  assumes l: "sem_lawful ops held limit" and r: "limiter_reachable ops m s"
  shows "list_all (\<lambda>g. int (length (filter (\<lambda>p. cl_globalSem (pm_limiter p) = Some g) (ls_permits s))) \<le> limit (ls_sems s ! g) \<and>
      int (length (filter (\<lambda>p. pm_hasProfile p \<and> map_of (cl_profileSems (pm_limiter p)) (pm_profile p) = Some g) (ls_permits s))) \<le> limit (ls_sems s ! g) \<and>
      (ls_permits s = [] \<and> ls_pending s = [] \<longrightarrow> held (ls_sems s ! g) = 0)) [0..<length (ls_sems s)] \<and>
    list_all (\<lambda>p. releaseConn ops (Some p) s \<noteq> None) (ls_permits s) \<and>
    list_all (\<lambda>p. acquire_global ops p s \<noteq> None) (ls_pending s)"
proof -
  have inv: "limiter_inv held limit s" by (rule limiter_reachable_inv [OF l r])
  then have ok: "sems_ok held limit (ls_sems s) (in_use s)" by (simp add: limiter_inv_def)
  have c: "int (length (filter (\<lambda>p. cl_globalSem (pm_limiter p) = Some g) (ls_permits s))) \<le> int (count (in_use s) g)"
    "int (length (filter (\<lambda>p. pm_hasProfile p \<and> map_of (cl_profileSems (pm_limiter p)) (pm_profile p) = Some g) (ls_permits s))) \<le> int (count (in_use s) g)" for g
    using permits_counted [of g "ls_permits s"] by (simp_all add: in_use_def)
  have "releaseConn ops (Some p) s \<noteq> None" if "p \<in> set (ls_permits s)" for p
  proof -
    have "in_use s = global_use p + profile_use p + (sum_list (map profile_use (ls_pending s)) + sum_list (map (\<lambda>p. global_use p + profile_use p) (remove1 p (ls_permits s))))"
      using sum_list_remove1 [OF that, of "\<lambda>p. global_use p + profile_use p"] by (simp add: in_use_def union_ac)
    then show ?thesis using releaseConn_sems [OF l, of s p] ok by fastforce
  qed
  moreover have "acquire_global ops p s \<noteq> None" if "p \<in> set (ls_pending s)" for p
  proof -
    have "in_use s = profile_use p + (sum_list (map profile_use (remove1 p (ls_pending s))) + sum_list (map (\<lambda>p. global_use p + profile_use p) (ls_permits s)))"
      using sum_list_remove1 [OF that, of profile_use] by (simp add: in_use_def union_ac)
    then show ?thesis using acquire_global_sems [OF l, of s p] ok inv that by (fastforce simp: limiter_inv_def)
  qed
  moreover have "int (length (filter (\<lambda>p. cl_globalSem (pm_limiter p) = Some g) (ls_permits s))) \<le> limit (ls_sems s ! g) \<and>
      int (length (filter (\<lambda>p. pm_hasProfile p \<and> map_of (cl_profileSems (pm_limiter p)) (pm_profile p) = Some g) (ls_permits s))) \<le> limit (ls_sems s ! g) \<and>
      (ls_permits s = [] \<and> ls_pending s = [] \<longrightarrow> held (ls_sems s ! g) = 0)" if "g < length (ls_sems s)" for g
  proof -
    have h: "held (ls_sems s ! g) = int (count (in_use s) g)" "held (ls_sems s ! g) \<le> limit (ls_sems s ! g)" using ok that unfolding sems_ok_def by blast+
    moreover have "in_use s = {#}" if "ls_permits s = [] \<and> ls_pending s = []" using that by (simp add: in_use_def)
    ultimately show ?thesis using c [of g] by auto
  qed
  ultimately show ?thesis by (simp add: list_all_iff)
qed

definition one_permit :: "(int \<times> int) limiter_state" where
  "one_permit =
     (case acquireConnForProfile counter_sem ''lab'' (limiter_start counter_sem 1) of
        Some (Inr p, s) \<Rightarrow> s\<lparr>ls_permits := [p]\<rparr> | _ \<Rightarrow> limiter_start counter_sem 1)"

lemma one_permit_reachable: "limiter_reachable counter_sem 1 one_permit"
proof -
  let ?s = "limiter_start counter_sem 1"
  define p where "p = \<lparr>pm_limiter = ls_limiter ?s, pm_profile = ''lab'', pm_hasProfile = False\<rparr>"
  have "acquire_profile counter_sem ''lab'' ?s = Inr (p, ?s)" unfolding p_def by code_simp
  from limiter_reachable.step [OF limiter_reachable.start limiter_step.profile_taken [OF this]]
  have r: "limiter_reachable counter_sem 1 (?s\<lparr>ls_pending := [p]\<rparr>)" by (simp add: limiter_start_def SetMaxConnections_def new_sem_def)
  have "acquire_global counter_sem p (?s\<lparr>ls_pending := [p]\<rparr>) = Some (Inr p, ?s\<lparr>ls_pending := [p], ls_sems := [(1, 1)]\<rparr>)"
    unfolding p_def by code_simp
  from limiter_reachable.step [OF r limiter_step.global_taken [OF _ this]]
  have "limiter_reachable counter_sem 1 (?s\<lparr>ls_pending := [], ls_sems := [(1, 1)], ls_permits := [p]\<rparr>)"
    by (simp add: limiter_start_def SetMaxConnections_def new_sem_def)
  moreover have "one_permit = ?s\<lparr>ls_pending := [], ls_sems := [(1, 1)], ls_permits := [p]\<rparr>" unfolding p_def by code_simp
  ultimately show ?thesis by simp
qed

theorem permits_accounted_witness:
  "length (ls_permits one_permit) = 1 \<and> releaseConn counter_sem (Some (hd (ls_permits one_permit))) one_permit \<noteq> None"
proof -
  have "length (ls_permits one_permit) = 1" by code_simp
  moreover from this obtain p where "ls_permits one_permit = [p]" by (auto simp: length_Suc_conv)
  ultimately show ?thesis using permits_accounted [OF sem_lawful_counter one_permit_reachable] by simp
qed

end
