(* ===== verification/Dialing.thy ===== *)
theory Dialing
  imports Policy Upstream_Pool "HOL-Library.Word"
begin

text \<open>
  From a destination to a connection: the DNS cache of \<open>proxy/dns.go\<close>, the
  check of the resolved address in \<open>resolveDialAddress\<close>, the circuit breakers
  of \<open>proxy/breaker.go\<close>, the dialling functions of \<open>proxy/server.go\<close>, the
  destination of a request, and the removal of HTTP/3 advertisements of
  \<open>proxy/altsvc.go\<close>.  The resolver, the dialler and the breaker
  (\<open>sony/gobreaker\<close>) are parameters.
\<close>

section \<open>The DNS cache\<close>

record dnsEntry =
  dn_ips :: "addr list"
  dn_expiresAt :: int

record DNSResolver =
  dr_cache :: "(string \<times> dnsEntry) list"
  dr_enabled :: bool
  dr_ttl :: int

definition NewDNSResolver :: "bool \<Rightarrow> int \<Rightarrow> DNSResolver" where
  "NewDNSResolver enabled ttl = \<lparr>dr_cache = [], dr_enabled = enabled, dr_ttl = ttl\<rparr>"

text \<open>
  \<open>lookup\<close> is \<open>LookupIP\<close> of the system resolver at the time \<open>now\<close>.  A
  \<open>net.IP\<close> is an address of 4 or 16 bytes that prints an IPv4 address in
  dotted form whichever way it is stored; an answer is kept as the address
  that is printed.
\<close>

definition dns_cached :: "DNSResolver \<Rightarrow> int \<Rightarrow> string \<Rightarrow> dnsEntry option" where
  "dns_cached r now host =
     (if dr_enabled r \<and> dr_ttl r > 0
      then case map_of (dr_cache r) host of Some e \<Rightarrow> if now < dn_expiresAt e then Some e else None | None \<Rightarrow> None
      else None)"

definition dns_resolve ::
  "go_lib \<Rightarrow> (string \<Rightarrow> addr list result) \<Rightarrow> int \<Rightarrow> string \<Rightarrow> bool \<Rightarrow> DNSResolver option \<Rightarrow> string result \<times> DNSResolver option" where
  "dns_resolve lib lookup now host force ro =
     (case ro of
        None \<Rightarrow> (Inr host, None)
      | Some r \<Rightarrow>
          if (\<not> dr_enabled r \<or> dr_ttl r \<le> 0) \<and> \<not> force then (Inr host, ro)
          else if net_ParseIP lib host \<noteq> None then (Inr host, ro)
          else case dns_cached r now host of
                 Some e \<Rightarrow> (case dn_ips e of [] \<Rightarrow> Inl Panic | ip # _ \<Rightarrow> Inr (addr_String lib ip), ro)
               | None \<Rightarrow>
                   (case lookup host of
                      Inl e \<Rightarrow> (Inl e, ro)
                    | Inr [] \<Rightarrow> (Inl (Failure ''no IP addresses found''), ro)
                    | Inr (ip # ips) \<Rightarrow>
                        (Inr (addr_String lib ip),
                         Some (if dr_enabled r \<and> dr_ttl r > 0
                               then r\<lparr>dr_cache := AList.update host \<lparr>dn_ips = ip # ips, dn_expiresAt = now + dr_ttl r\<rparr> (dr_cache r)\<rparr> else r))))"

definition ResolveAddrForPolicy ::
  "go_lib \<Rightarrow> (string \<Rightarrow> addr list result) \<Rightarrow> int \<Rightarrow> string \<Rightarrow> bool \<Rightarrow> DNSResolver option \<Rightarrow> (string \<times> string) result \<times> DNSResolver option" where
  "ResolveAddrForPolicy lib lookup now address force ro =
     (case net_SplitHostPort address of
        None \<Rightarrow> (let (h, ro) = dns_resolve lib lookup now address force ro in (rbind h (\<lambda>h. Inr (h, h)), ro))
      | Some (host, port) \<Rightarrow>
          (let (h, ro) = dns_resolve lib lookup now host force ro in (rbind h (\<lambda>h. Inr (net_JoinHostPort h port, h)), ro)))"

definition ResolveAddr ::
  "go_lib \<Rightarrow> (string \<Rightarrow> addr list result) \<Rightarrow> int \<Rightarrow> string \<Rightarrow> DNSResolver option \<Rightarrow> string result \<times> DNSResolver option" where
  "ResolveAddr lib lookup now address ro =
     (let (r, ro) = ResolveAddrForPolicy lib lookup now address False ro in (rbind r (\<lambda>(a, _). Inr a), ro))"

section \<open>Checked destinations\<close>

definition addressHost :: "string \<Rightarrow> string" where
  "addressHost address =
     (case net_SplitHostPort address of
        Some (host, _) \<Rightarrow> host
      | None \<Rightarrow> trim_prefix ''['' (trim_suffix '']'' address))"

text \<open>The error of a blocked address is \<open>Inl (Inr decision)\<close>, any other error \<open>Inl (Inl e)\<close>.\<close>

definition resolveDialAddress ::
  "go_lib \<Rightarrow> 't bart \<Rightarrow> (string \<Rightarrow> addr list result) \<Rightarrow> int \<Rightarrow> 't Policy option \<Rightarrow> string \<Rightarrow> DNSResolver option
     \<Rightarrow> ((gate_error + PolicyDecision) + string) \<times> DNSResolver option" where
  "resolveDialAddress lib bt lookup now policy address ro =
     (let forceResolve = RequiresResolvedSiteIP policy;
          check = (\<lambda>dialAddr resolvedHost.
             let decision = EvaluateResolvedDestinationIP lib bt policy resolvedHost
             in if Blocked decision then Inl (Inr decision) else Inr dialAddr)
      in case ro of
           None \<Rightarrow> (check address (addressHost address), None)
         | Some r \<Rightarrow>
             (case ResolveAddrForPolicy lib lookup now address forceResolve ro of
                (Inl e, ro) \<Rightarrow> (if forceResolve then Inl (Inl e) else check address (addressHost address), ro)
              | (Inr (resolved, host), ro) \<Rightarrow> (check resolved host, ro)))"

section \<open>Circuit breakers\<close>

text \<open>
  The operations of a \<open>gobreaker.CircuitBreaker\<close> with its settings; \<open>Execute\<close>
  gets the result the dial has if the breaker lets it run.
\<close>

record 'b breaker_ops =
  br_New :: "string \<Rightarrow> int \<Rightarrow> (32 word \<Rightarrow> bool) \<Rightarrow> 'b"
  br_Execute :: "'b \<Rightarrow> nat result \<Rightarrow> nat result \<times> 'b"

record 'b CircuitBreakers =
  cb_breakers :: "(string \<times> 'b) list"
  cb_enabled :: bool
  cb_failures :: int
  cb_timeout :: int

definition NewCircuitBreakers :: "bool \<Rightarrow> int \<Rightarrow> int \<Rightarrow> 'b CircuitBreakers" where
  "NewCircuitBreakers enabled failures timeout = \<lparr>cb_breakers = [], cb_enabled = enabled, cb_failures = failures, cb_timeout = timeout\<rparr>"

definition ReadyToTrip :: "int \<Rightarrow> 32 word \<Rightarrow> bool" where
  "ReadyToTrip failures consecutive = (word_of_int failures \<le> consecutive)"

definition CircuitBreakers_Execute :: "'b breaker_ops \<Rightarrow> string \<Rightarrow> nat result \<Rightarrow> 'b CircuitBreakers \<Rightarrow> nat result \<times> 'b CircuitBreakers" where
  "CircuitBreakers_Execute ops host dialled cb =
     (if \<not> cb_enabled cb then (dialled, cb)
      else
        (let breaker = (case map_of (cb_breakers cb) host of
                          Some b \<Rightarrow> b
                        | None \<Rightarrow> br_New ops (''upstream:'' @ host) (cb_timeout cb) (ReadyToTrip (cb_failures cb)));
             (res, breaker) = br_Execute ops breaker dialled
         in (res, cb\<lparr>cb_breakers := AList.update host breaker (cb_breakers cb)\<rparr>)))"

section \<open>Dialling\<close>

record 'b dial_state =
  ds_resolver :: "DNSResolver option"
  ds_breakers :: "'b CircuitBreakers option"

text \<open>\<open>dial\<close> is the network: the result of connecting to an address.\<close>

definition dialPlainHTTP ::
  "go_lib \<Rightarrow> 't bart \<Rightarrow> 'b breaker_ops \<Rightarrow> (string \<Rightarrow> addr list result) \<Rightarrow> (string \<Rightarrow> nat result) \<Rightarrow> int \<Rightarrow> 't Policy option \<Rightarrow> string
     \<Rightarrow> 'b dial_state \<Rightarrow> ((gate_error + PolicyDecision) + nat) \<times> 'b dial_state" where
  "dialPlainHTTP lib bt ops lookup dial now policy address s =
     (let host = (case net_SplitHostPort address of Some (h, _) \<Rightarrow> h | None \<Rightarrow> address);
          wrap = (\<lambda>r. case r of Inl e \<Rightarrow> Inl (Inl e) | Inr c \<Rightarrow> Inr c)
      in case resolveDialAddress lib bt lookup now policy address (ds_resolver s) of
           (Inl e, ro) \<Rightarrow> (Inl e, s\<lparr>ds_resolver := ro\<rparr>)
         | (Inr dialAddr, ro) \<Rightarrow>
             (case ds_breakers s of
                None \<Rightarrow> (wrap (dial dialAddr), s\<lparr>ds_resolver := ro\<rparr>)
              | Some cb \<Rightarrow>
                  (let (r, cb) = CircuitBreakers_Execute ops host (dial dialAddr) cb
                   in (wrap r, s\<lparr>ds_resolver := ro, ds_breakers := Some cb\<rparr>))))"

definition plain_key :: "string \<Rightarrow> string \<Rightarrow> upstreamPoolKey" where
  "plain_key address host = \<lparr>pk_scheme = ''http'', pk_address = address, pk_serverName = host, pk_alpn = ''http/1.1'', pk_specID = ''plain''\<rparr>"

definition https_key :: "string \<Rightarrow> string \<Rightarrow> upstreamPoolKey" where
  "https_key address host =
     \<lparr>pk_scheme = ''https'', pk_address = address, pk_serverName = host, pk_alpn = ''h2,http/1.1'', pk_specID = ''utls-firefox-120''\<rparr>"

section \<open>Destinations of requests\<close>

definition url_Hostname :: "url \<Rightarrow> string" where
  "url_Hostname u =
     (let h = u_host u;
          h = (case last_index_byte h colon of
                 Some i \<Rightarrow> if list_all is_digit (drop (Suc i) h) then take i h else h
               | None \<Rightarrow> h)
      in if h \<noteq> [] \<and> hd h = CHR ''['' \<and> last h = CHR '']'' then butlast (tl h) else h)"

definition connectHostname :: "request \<Rightarrow> string result" where
  "connectHostname r =
     (let uh = (case req_url r of Some u \<Rightarrow> url_Hostname u | None \<Rightarrow> [])
      in if uh \<noteq> [] then Inr uh
         else case net_SplitHostPort (req_host r) of
                Some (host, _) \<Rightarrow> Inr host
              | None \<Rightarrow> if req_host r \<noteq> [] then Inr (req_host r) else Inl (Failure ''empty connect host''))"

definition connectAddress :: "request \<Rightarrow> string" where
  "connectAddress r =
     (let address = (case req_url r of Some u \<Rightarrow> u_host u | None \<Rightarrow> []);
          address = (if address = [] then req_host r else address)
      in if address = [] then []
         else if net_SplitHostPort address \<noteq> None then address
         else if colon \<in> set address \<and> prefix ''['' address then address
         else net_JoinHostPort address ''443'')"

definition plainHTTPDestination :: "request option \<Rightarrow> (string \<times> string) result" where
  "plainHTTPDestination ro =
     (case ro of
        None \<Rightarrow> Inl (Failure ''nil request'')
      | Some r \<Rightarrow>
          (let abs = (case req_url r of Some u \<Rightarrow> u_scheme u \<noteq> [] | None \<Rightarrow> False);
               finish = (\<lambda>host address.
                 if host = [] \<or> address = [] then Inl (Failure ''empty http host'')
                 else if net_SplitHostPort address \<noteq> None then Inr (host, address)
                 else Inr (host, net_JoinHostPort host ''80''))
           in case req_url r of
                Some u \<Rightarrow>
                  if abs
                  then if \<not> equal_fold (u_scheme u) ''http'' then Inl (Failure ''unsupported scheme'')
                       else finish (url_Hostname u) (u_host u)
                  else finish (case net_SplitHostPort (req_host r) of Some (h, _) \<Rightarrow> h | None \<Rightarrow> req_host r) (req_host r)
              | None \<Rightarrow> finish (case net_SplitHostPort (req_host r) of Some (h, _) \<Rightarrow> h | None \<Rightarrow> req_host r) (req_host r)))"

section \<open>HTTP/3 advertisements\<close>

definition strip_one :: "string \<Rightarrow> header \<times> bool \<Rightarrow> header \<times> bool" where
  "strip_one name st =
     (let (h, removed) = st
      in if map_of h (CanonicalHeaderKey name) \<noteq> None then (header_Del h name, True) else (h, removed))"

definition stripHTTP3Advertising :: "header option \<Rightarrow> header option \<times> bool" where
  "stripHTTP3Advertising ho =
     (case ho of
        None \<Rightarrow> (None, False)
      | Some h \<Rightarrow> (let (h, removed) = strip_one ''Alternate-Protocol'' (strip_one ''Alt-Svc'' (h, False)) in (Some h, removed)))"

section \<open>Freshness of cached answers\<close>

record dns_query =
  dq_now :: int
  dq_lookup :: "string \<Rightarrow> addr list result"
  dq_host :: string
  dq_force :: bool

definition dns_ask :: "go_lib \<Rightarrow> dns_query \<Rightarrow> DNSResolver option \<Rightarrow> string result \<times> DNSResolver option" where
  "dns_ask lib q ro = dns_resolve lib (dq_lookup q) (dq_now q) (dq_host q) (dq_force q) ro"

definition dns_after :: "go_lib \<Rightarrow> dns_query list \<Rightarrow> DNSResolver option \<Rightarrow> DNSResolver option" where
  "dns_after lib qs ro = foldl (\<lambda>ro q. snd (dns_ask lib q ro)) ro qs"

definition entry_from :: "int \<Rightarrow> dns_query list \<Rightarrow> string \<Rightarrow> dnsEntry \<Rightarrow> bool" where
  "entry_from ttl qs h e = (\<exists>q\<in>set qs. dq_host q = h \<and> dq_lookup q h = Inr (dn_ips e) \<and> dn_ips e \<noteq> [] \<and> dn_expiresAt e = dq_now q + ttl)"

definition dns_inv :: "int \<Rightarrow> dns_query list \<Rightarrow> DNSResolver option \<Rightarrow> bool" where
  "dns_inv ttl qs ro = (case ro of None \<Rightarrow> False | Some r \<Rightarrow> dr_ttl r = ttl \<and> (\<forall>(h, e)\<in>set (dr_cache r). entry_from ttl qs h e))"

lemma AList_update_set: "x \<in> set (AList.update k v al) \<Longrightarrow> x = (k, v) \<or> x \<in> set al"
  by (induction al) (auto split: if_splits)

lemma dns_ask_inv:
  assumes "dns_inv ttl qs ro"
  shows "dns_inv ttl (qs @ [q]) (snd (dns_ask lib q ro))"
proof -
  obtain r where r: "ro = Some r" "dr_ttl r = ttl" "\<And>h e. (h, e) \<in> set (dr_cache r) \<Longrightarrow> entry_from ttl qs h e"
    using assms by (auto simp: dns_inv_def split: option.splits)
  then have keep: "dns_inv ttl (qs @ [q]) ro" by (fastforce simp: dns_inv_def entry_from_def)
  have "snd (dns_ask lib q ro) = ro \<or> (\<exists>ip ips. dq_lookup q (dq_host q) = Inr (ip # ips) \<and>
      snd (dns_ask lib q ro) = Some (r\<lparr>dr_cache := AList.update (dq_host q) \<lparr>dn_ips = ip # ips, dn_expiresAt = dq_now q + ttl\<rparr> (dr_cache r)\<rparr>))"
    using r(1,2) by (simp add: dns_ask_def dns_resolve_def split: option.split sum.split list.split)
  then consider "snd (dns_ask lib q ro) = ro"
    | ip ips where "dq_lookup q (dq_host q) = Inr (ip # ips)"
        "snd (dns_ask lib q ro) = Some (r\<lparr>dr_cache := AList.update (dq_host q) \<lparr>dn_ips = ip # ips, dn_expiresAt = dq_now q + ttl\<rparr> (dr_cache r)\<rparr>)" by blast
  then show ?thesis
  proof cases
    case 1
    then show ?thesis using keep by simp
  next
    case (2 ip ips)
    have "entry_from ttl (qs @ [q]) h e" if "(h, e) \<in> set (AList.update (dq_host q) \<lparr>dn_ips = ip # ips, dn_expiresAt = dq_now q + ttl\<rparr> (dr_cache r))" for h e
      using AList_update_set [OF that] r(3) 2(1) by (auto simp: entry_from_def)
    then show ?thesis using 2(2) r(2) by (auto simp: dns_inv_def)
  qed
qed

lemma dns_after_inv: "dns_inv ttl (ps @ qs) (dns_after lib qs ro)" if "dns_inv ttl ps ro"
  using that
proof (induction qs arbitrary: ps ro)
  case (Cons q qs)
  then show ?case using Cons.IH [of "ps @ [q]" "snd (dns_ask lib q ro)"] dns_ask_inv [of ttl ps ro q lib] by (simp add: dns_after_def)
qed (simp add: dns_after_def)

section \<open>The address that is dialled\<close>

text \<open>
  What the code relies on of address texts.  The text of an IP address
  without a zone consists of hexadecimal digits, colons and dots; it has no
  colon (IPv4) or at least two (IPv6), and no dot at either end.  The texts
  \<open>net.ParseIP\<close> accepts and the texts of addresses are of this shape, and
  \<open>netip.ParseAddr\<close> reads them, whatever the case of their letters.
\<close>

definition ip_char :: "char \<Rightarrow> bool" where
  "ip_char c = (c \<in> set ''0123456789abcdefABCDEF.:'')"

definition ip_text :: "string \<Rightarrow> bool" where
  "ip_text h = (h \<noteq> [] \<and> list_all ip_char h \<and> count_list h colon \<noteq> 1 \<and> hd h \<noteq> dot \<and> last h \<noteq> dot)"

definition valid_addr :: "addr \<Rightarrow> bool" where
  "valid_addr a = (addr_bitlen a \<in> {32, 128} \<and> addr_value a < 2 ^ addr_bitlen a)"

definition ip_text_lawful :: "go_lib \<Rightarrow> bool" where
  "ip_text_lawful lib =
     ((\<forall>h. net_ParseIP lib h \<noteq> None \<longrightarrow> ip_text h \<and> netip_ParseAddr lib h \<noteq> None) \<and>
      (\<forall>a. valid_addr a \<longrightarrow> ip_text (addr_String lib a) \<and> netip_ParseAddr lib (addr_String lib a) \<noteq> None) \<and>
      (\<forall>h. ip_text h \<longrightarrow> netip_ParseAddr lib (to_lower h) = netip_ParseAddr lib h))"

text \<open>The normalisation of host names leaves the text of an address alone, up to the case of its letters.\<close>

lemma ip_char_facts:
  assumes "ip_char c"
  shows "\<not> is_space c" "\<not> is_space (lower_char c)" "c \<noteq> CHR ''[''" "c \<noteq> CHR '']''" "lower_char c \<noteq> slash" "lower_char c = dot \<longleftrightarrow> c = dot"
proof -
  have "\<forall>c\<in>set ''0123456789abcdefABCDEF.:''. \<not> is_space c \<and> \<not> is_space (lower_char c) \<and> c \<noteq> CHR ''['' \<and> c \<noteq> CHR '']'' \<and>
      lower_char c \<noteq> slash \<and> (lower_char c = dot \<longleftrightarrow> c = dot)" by code_simp
  then show "\<not> is_space c" "\<not> is_space (lower_char c)" "c \<noteq> CHR ''[''" "c \<noteq> CHR '']''" "lower_char c \<noteq> slash" "lower_char c = dot \<longleftrightarrow> c = dot"
    using assms unfolding ip_char_def by blast+
qed

lemma dropWhile_none: "\<forall>x\<in>set xs. \<not> P x \<Longrightarrow> dropWhile P xs = xs"
  by (cases xs) auto

lemma trim_space_none: "\<forall>c\<in>set s. \<not> is_space c \<Longrightarrow> trim_space s = s"
  by (simp add: trim_space_def trim_right_if_def dropWhile_none)

lemma trim_ends:
  "s \<noteq> [] \<Longrightarrow> hd s \<noteq> c \<Longrightarrow> trim_prefix [c] s = s" "s \<noteq> [] \<Longrightarrow> last s \<noteq> c \<Longrightarrow> trim_suffix [c] s = s"
  by (cases s; simp add: trim_prefix_def) (auto simp: trim_suffix_def suffix_def)

lemma ip_text_no_port:
  assumes "ip_text h"
  shows "net_SplitHostPort h = None"
proof (cases "last_index_byte h colon")
  case (Some i)
  from last_index_byte_Some [OF this] have h: "h = take i h @ colon # drop (Suc i) h" and i: "colon \<notin> set (drop (Suc i) h)" by blast+
  have "count_list h colon = count_list (take i h) colon + Suc (count_list (drop (Suc i) h) colon)"
    by (subst h) simp
  then have "count_list (take i h) colon \<noteq> 0" using assms i by (simp add: ip_text_def count_list_0_iff)
  then have "colon \<in> set (take i h)" by (simp add: count_list_0_iff)
  moreover have "h ! 0 \<noteq> CHR ''[''" using assms ip_char_facts(3) by (cases h) (auto simp: ip_text_def)
  ultimately show ?thesis using Some by (simp add: net_SplitHostPort_def)
qed (simp add: net_SplitHostPort_def)

lemma normalizedPolicyHost_ip:
  assumes "ip_text h"
  shows "normalizedPolicyHost h = to_lower h"
proof -
  have h: "h \<noteq> []" "\<And>c. c \<in> set h \<Longrightarrow> ip_char c" "hd h \<noteq> dot" "last h \<noteq> dot" using assms by (auto simp: ip_text_def list_all_iff)
  have ends: "ip_char (hd h)" "ip_char (last h)" using h(1,2) by simp_all
  have l: "to_lower h \<noteq> []" "hd (to_lower h) \<noteq> dot" "last (to_lower h) \<noteq> dot" "\<forall>c\<in>set (to_lower h). \<not> is_space c \<and> c \<noteq> slash"
    using h ends ip_char_facts by (auto simp: to_lower_def hd_map last_map)
  then have "slash \<notin> set (to_lower h)" by blast
  then have "normalizedDomain h = to_lower h" using l trim_ends [of "to_lower h" dot] by (simp add: normalizedDomain_def trim_space_none)
  moreover have "trim_space h = h" using h(2) ip_char_facts(1) by (intro trim_space_none) blast
  moreover have "trim_prefix ''['' h = h" "trim_suffix '']'' h = h" using trim_ends [OF h(1)] ends ip_char_facts(3,4) by blast+
  ultimately show ?thesis using ip_text_no_port [OF assms] h(1) by (simp add: normalizedPolicyHost_def)
qed

definition answers_valid :: "(string \<Rightarrow> addr list result) \<Rightarrow> bool" where
  "answers_valid lookup = (\<forall>host ips. lookup host = Inr ips \<longrightarrow> list_all valid_addr ips)"

lemma dns_resolve_forced:
  assumes law: "ip_text_lawful lib" and look: "answers_valid lookup" and cache: "\<forall>e\<in>snd ` set (dr_cache r). list_all valid_addr (dn_ips e)"
    and res: "dns_resolve lib lookup now host True (Some r) = (Inr h, ro)"
  shows "ip_text h \<and> (\<exists>a. netip_ParseAddr lib h = Some a)"
proof -
  consider "net_ParseIP lib host \<noteq> None" "h = host"
    | e ip ips where "dns_cached r now host = Some e" "dn_ips e = ip # ips" "h = addr_String lib ip"
    | ip ips where "lookup host = Inr (ip # ips)" "h = addr_String lib ip"
    using res by (auto simp: dns_resolve_def split: option.splits sum.splits list.splits if_splits)
  then show ?thesis
  proof cases
    case 1
    then show ?thesis using law by (auto simp: ip_text_lawful_def)
  next
    case (2 e ip ips)
    then have "(host, e) \<in> set (dr_cache r)" by (auto simp: dns_cached_def split: if_splits option.splits dest: map_of_SomeD)
    then have "list_all valid_addr (dn_ips e)" using cache by force
    then have "valid_addr ip" using 2(2) by simp
    then show ?thesis using law 2(3) by (auto simp: ip_text_lawful_def)
  next
    case (3 ip ips)
    then have "valid_addr ip" using look by (fastforce simp: answers_valid_def)
    then show ?thesis using law 3(2) by (auto simp: ip_text_lawful_def)
  qed
qed

lemma ResolveAddrForPolicy_forced:
  assumes "ip_text_lawful lib" "answers_valid lookup" "\<forall>e\<in>snd ` set (dr_cache r). list_all valid_addr (dn_ips e)"
    and res: "ResolveAddrForPolicy lib lookup now address True (Some r) = (Inr (d, h), ro)"
  shows "ip_text h \<and> (\<exists>a. netip_ParseAddr lib h = Some a) \<and> (d = h \<or> (\<exists>port. d = net_JoinHostPort h port))"
proof (cases "net_SplitHostPort address")
  case None
  then show ?thesis using res dns_resolve_forced [OF assms(1-3), where now = now and host = address and h = h]
    by (auto simp: ResolveAddrForPolicy_def split_beta rbind_eq_Inr Let_def prod_eq_iff)
next
  case (Some hp)
  obtain host port where hp: "hp = (host, port)" by fastforce
  show ?thesis using res Some hp dns_resolve_forced [OF assms(1-3), where now = now and host = host and h = h]
    by (auto simp: ResolveAddrForPolicy_def split_beta rbind_eq_Inr Let_def prod_eq_iff)
qed

lemma SiteIP_blocked_listed:
  assumes "bart_lawful bt" "NewSiteIPRules lib bt cfg = Inr r"
    and "normalizedPolicyHost h \<noteq> []" "netip_ParseAddr lib (normalizedPolicyHost h) = Some a"
  shows "Blocked (SiteIPRules_Decision lib bt (Some r) h) \<longleftrightarrow>
    ip_listed lib (sc_Blocked cfg) a \<and> \<not> ip_listed lib (sc_Exceptions cfg) a \<and> \<not> ip_listed lib (sc_Grey cfg) a"
  using assms insertIPPrefixes_listed [OF assms(1)]
  by (auto simp: NewSiteIPRules_def rbind_eq_Inr SiteIPRules_Decision_def Let_def split: option.splits)

lemma dns_after_valid:
  assumes "dns_after lib history (Some (NewDNSResolver enabled ttl)) = Some r" "\<forall>q\<in>set history. answers_valid (dq_lookup q)"
    and "(h, e) \<in> set (dr_cache r)"
  shows "list_all valid_addr (dn_ips e)"
proof -
  have "dns_inv ttl [] (Some (NewDNSResolver enabled ttl))" by (simp add: dns_inv_def NewDNSResolver_def)
  from dns_after_inv [OF this, of history lib] have "entry_from ttl history h e" using assms(1,3) by (auto simp: dns_inv_def)
  then show ?thesis using assms(2) by (auto simp: entry_from_def answers_valid_def)
qed

text \<open>
  C36: An address handed to the dialler has been checked.  Under a policy with
  site IP lists, with a resolver that has answered any earlier questions, the
  dialler gets a literal IP address, with a port if the destination had one,
  and that very address is not covered by the banned prefixes unless an
  exception or grey prefix covers it.  The name cannot be resolved to
  something else between the check and the dial, and the normalisation of
  host names does not keep the check from reading the address.
\<close>

theorem dial_address_checked:
  assumes "bart_lawful bt" "ip_text_lawful lib" "NewSiteIPRules lib bt cfg = Inr ips" "p_siteIPs policy = Some ips"
    and "sc_Blocked cfg @ sc_Exceptions cfg @ sc_Grey cfg \<noteq> []"
    and "dns_after lib history (Some (NewDNSResolver enabled ttl)) = Some r"
    and "\<forall>q\<in>set history. answers_valid (dq_lookup q)" "answers_valid lookup"
    and "resolveDialAddress lib bt lookup now (Some policy) address (Some r) = (Inr d, ro)"
  shows "\<exists>h a. (d = h \<or> (\<exists>port. d = net_JoinHostPort h port)) \<and> ip_text h \<and> netip_ParseAddr lib h = Some a \<and>
    \<not> (ip_listed lib (sc_Blocked cfg) a \<and> \<not> ip_listed lib (sc_Exceptions cfg) a \<and> \<not> ip_listed lib (sc_Grey cfg) a)"
proof -
  have force: "RequiresResolvedSiteIP (Some policy)"
    using assms(3-5) by (auto simp: RequiresResolvedSiteIP_def NewSiteIPRules_def rbind_eq_Inr)
  obtain h ro' where res: "ResolveAddrForPolicy lib lookup now address True (Some r) = (Inr (d, h), ro')"
    "\<not> Blocked (EvaluateResolvedDestinationIP lib bt (Some policy) h)"
    using assms(9) force by (auto simp: resolveDialAddress_def Let_def split: prod.splits sum.splits if_splits)
  have cache: "\<forall>e\<in>snd ` set (dr_cache r). list_all valid_addr (dn_ips e)" using dns_after_valid [OF assms(6,7)] by force
  obtain a where a: "ip_text h" "netip_ParseAddr lib h = Some a" "d = h \<or> (\<exists>port. d = net_JoinHostPort h port)"
    using ResolveAddrForPolicy_forced [OF assms(2,8) cache res(1)] by blast
  have "normalizedPolicyHost h \<noteq> []" "netip_ParseAddr lib (normalizedPolicyHost h) = Some a"
    using assms(2) a(1,2) normalizedPolicyHost_ip [OF a(1)] by (auto simp: ip_text_lawful_def ip_text_def to_lower_def)
  then show ?thesis using SiteIP_blocked_listed [OF assms(1,3)] res(2) a assms(4) by (auto simp: EvaluateResolvedDestinationIP_def)
qed

text \<open>
  A library that prints and reads IPv4 addresses in dotted decimal and IPv6
  addresses as eight groups of hexadecimal digits, which satisfies the law.
\<close>

definition digit_char :: "nat \<Rightarrow> char" where
  "digit_char n = ''0123456789abcdef'' ! n"

definition octet_text :: "nat \<Rightarrow> string" where
  "octet_text n = (if n < 10 then [digit_char n] else if n < 100 then [digit_char (n div 10), digit_char (n mod 10)]
     else [digit_char (n div 100), digit_char (n div 10 mod 10), digit_char (n mod 10)])"

definition group_text :: "nat \<Rightarrow> string" where
  "group_text n = [digit_char (n div 4096 mod 16), digit_char (n div 256 mod 16), digit_char (n div 16 mod 16), digit_char (n mod 16)]"

fun join_on :: "char \<Rightarrow> string list \<Rightarrow> string" where
  "join_on c [] = []"
| "join_on c [w] = w"
| "join_on c (w # ws) = w @ c # join_on c ws"

definition quad_String :: "addr \<Rightarrow> string" where
  "quad_String a =
     (if addr_bitlen a = 32 then join_on dot (map (\<lambda>i. octet_text (addr_value a div 256 ^ i mod 256)) [3, 2, 1, 0])
      else join_on colon (map (\<lambda>i. group_text (addr_value a div 65536 ^ i mod 65536)) [7, 6, 5, 4, 3, 2, 1, 0]))"

definition hex_val :: "char \<Rightarrow> nat" where
  "hex_val c = (case index_byte ''0123456789abcdef'' c of Some i \<Rightarrow> i | None \<Rightarrow> 16)"

definition part_val :: "nat \<Rightarrow> nat \<Rightarrow> string \<Rightarrow> nat option" where
  "part_val base len w =
     (if w \<noteq> [] \<and> length w \<le> len \<and> list_all (\<lambda>c. hex_val c < base) w then Some (foldl (\<lambda>v c. v * base + hex_val c) 0 w) else None)"

definition quad_Parse :: "string \<Rightarrow> addr option" where
  "quad_Parse s =
     (let v4 = map (part_val 10 3) (split_on dot (to_lower s)); v6 = map (part_val 16 4) (split_on colon (to_lower s))
      in if length v4 = 4 \<and> list_all (\<lambda>v. case v of Some n \<Rightarrow> n < 256 | None \<Rightarrow> False) v4 then Some (Addr 32 (foldl (\<lambda>x v. x * 256 + the v) 0 v4))
         else if length v6 = 8 \<and> list_all (\<lambda>v. v \<noteq> None) v6 then Some (Addr 128 (foldl (\<lambda>x v. x * 65536 + the v) 0 v6))
         else None)"

definition quad_lib :: go_lib where
  "quad_lib = null_lib\<lparr>addr_String := quad_String, netip_ParseAddr := quad_Parse,
     net_ParseIP := (\<lambda>s. if ip_text s then quad_Parse s else None),
     netip_ParsePrefix := (\<lambda>s. if s = ''10.0.0.0/8'' then Some (Prefix (Addr 32 167772160) 8) else None)\<rparr>"

lemma digit_char_facts:
  assumes "n < 16"
  shows "hex_val (digit_char n) = n" "ip_char (digit_char n)" "digit_char n \<noteq> dot" "digit_char n \<noteq> colon" "lower_char (digit_char n) = digit_char n"
proof -
  have "\<forall>n\<in>set [0..<16]. hex_val (digit_char n) = n \<and> ip_char (digit_char n) \<and> digit_char n \<noteq> dot \<and> digit_char n \<noteq> colon \<and>
      lower_char (digit_char n) = digit_char n" by code_simp
  then show "hex_val (digit_char n) = n" "ip_char (digit_char n)" "digit_char n \<noteq> dot" "digit_char n \<noteq> colon" "lower_char (digit_char n) = digit_char n"
    using assms by auto
qed

lemma decimal_part:
  assumes "n < 10"
  shows "part_val 10 3 [digit_char n] = Some n" "m < 10 \<Longrightarrow> part_val 10 3 [digit_char n, digit_char m] = Some (n * 10 + m)"
    "m < 10 \<Longrightarrow> k < 10 \<Longrightarrow> part_val 10 3 [digit_char n, digit_char m, digit_char k] = Some ((n * 10 + m) * 10 + k)"
  using assms by (simp_all add: part_val_def digit_char_facts(1))

lemma octet_text_facts:
  assumes "n < 256"
  shows "octet_text n \<noteq> []" "c \<in> set (octet_text n) \<Longrightarrow> \<exists>k<16. c = digit_char k" "part_val 10 3 (octet_text n) = Some n"
proof -
  show "octet_text n \<noteq> []" by (simp add: octet_text_def)
  have k: "n div 100 < 16" "n div 10 mod 10 < 16" "n mod 10 < 16" "n < 100 \<Longrightarrow> n div 10 < 16" using assms by simp_all
  show "\<exists>k<16. c = digit_char k" if c: "c \<in> set (octet_text n)"
  proof (cases "n < 10")
    case True
    then show ?thesis using c by (intro exI [of _ n]) (simp add: octet_text_def)
  next
    case False
    then show ?thesis using c k unfolding octet_text_def by (auto split: if_splits)
  qed
  have d: "n div 10 mod 10 < 10" "n mod 10 < 10" "n < 100 \<Longrightarrow> n div 10 < 10" "n div 100 < 10" using assms by simp_all
  have e: "n div 10 * 10 + n mod 10 = n" by (rule div_mult_mod_eq)
  have "n div 100 * 10 + n div 10 mod 10 = n div 10" using div_mult_mod_eq [of "n div 10" 10] by (simp add: div_mult2_eq [symmetric])
  then show "part_val 10 3 (octet_text n) = Some n"
    using decimal_part d e unfolding octet_text_def by (simp only: split: if_split) simp
qed

lemma group_text_facts:
  "group_text n \<noteq> []" "c \<in> set (group_text n) \<Longrightarrow> \<exists>k<16. c = digit_char k" "part_val 16 4 (group_text n) \<noteq> None"
proof -
  have "\<exists>k<16. digit_char (m mod 16) = digit_char k" for m by (rule exI [of _ "m mod 16"]) simp
  then show "c \<in> set (group_text n) \<Longrightarrow> \<exists>k<16. c = digit_char k" unfolding group_text_def by auto
qed (simp_all add: group_text_def part_val_def digit_char_facts)

lemma join_on_facts:
  assumes "ws \<noteq> []" "\<forall>w\<in>set ws. w \<noteq> [] \<and> (\<forall>c\<in>set w. \<exists>k<16. c = digit_char k)" "s \<in> {dot, colon}"
  shows "split_on s (to_lower (join_on s ws)) = ws" "list_all ip_char (join_on s ws)" "join_on s ws \<noteq> []"
    "hd (join_on s ws) \<noteq> dot" "last (join_on s ws) \<noteq> dot" "count_list (join_on s ws) colon = (if s = colon then length ws - 1 else 0)"
proof -
  have w: "to_lower w = w \<and> s \<notin> set w \<and> list_all ip_char w \<and> w \<noteq> [] \<and> hd w \<noteq> dot \<and> last w \<noteq> dot \<and> colon \<notin> set w" if "w \<in> set ws" for w
  proof -
    have "w \<noteq> []" using assms(2) that by blast
    moreover have "c \<noteq> dot \<and> c \<noteq> colon \<and> ip_char c \<and> lower_char c = c" if "c \<in> set w" for c
      using assms(2) \<open>w \<in> set ws\<close> that digit_char_facts by fastforce
    moreover have "hd w \<in> set w" "last w \<in> set w" using \<open>w \<noteq> []\<close> by simp_all
    ultimately show ?thesis using assms(3) by (auto simp: to_lower_def list_all_iff intro!: map_idI)
  qed
  have s: "lower_char s = s" "ip_char s" using assms(3) by (auto simp: lower_char_def less_eq_char_def ip_char_def)
  have "split_on s (to_lower (join_on s ws)) = ws \<and> list_all ip_char (join_on s ws) \<and> join_on s ws \<noteq> [] \<and> hd (join_on s ws) \<noteq> dot \<and>
      last (join_on s ws) \<noteq> dot \<and> count_list (join_on s ws) colon = (if s = colon then length ws - 1 else 0)"
    using assms(1) w s
  proof (induction s ws rule: join_on.induct)
    case (2 c w)
    then show ?case by (simp add: split_on_no_sep)
  next
    case (3 c w v va)
    then show ?case by (cases "c = colon") (simp_all add: to_lower_def split_on_append_sep split_on_no_sep)
  qed simp
  then show "split_on s (to_lower (join_on s ws)) = ws" "list_all ip_char (join_on s ws)" "join_on s ws \<noteq> []"
    "hd (join_on s ws) \<noteq> dot" "last (join_on s ws) \<noteq> dot" "count_list (join_on s ws) colon = (if s = colon then length ws - 1 else 0)" by blast+
qed

lemma quad_String_text:
  assumes "valid_addr a"
  shows "ip_text (quad_String a) \<and> quad_Parse (quad_String a) \<noteq> None"
proof (cases "addr_bitlen a = 32")
  case True
  let ?ws = "map (\<lambda>i. octet_text (addr_value a div 256 ^ i mod 256)) [3, 2, 1, 0]"
  have o: "\<exists>m<256. w = octet_text m" if "w \<in> set ?ws" for w
    using that unfolding set_map by (elim imageE) (rule exI, rule conjI, rule mod_less_divisor, simp_all)
  have "?ws \<noteq> []" "\<forall>w\<in>set ?ws. w \<noteq> [] \<and> (\<forall>c\<in>set w. \<exists>k<16. c = digit_char k)"
    using o octet_text_facts(1,2) by (simp, metis)
  note j = join_on_facts [OF this, of dot]
  have "map (part_val 10 3) ?ws = map (\<lambda>i. Some (addr_value a div 256 ^ i mod 256)) [3, 2, 1, 0]"
    using octet_text_facts(3) by simp
  then have "quad_Parse (quad_String a) \<noteq> None" using True j(1) by (simp add: quad_Parse_def quad_String_def Let_def)
  then show ?thesis using True j by (simp add: ip_text_def quad_String_def)
next
  case False
  let ?ws = "map (\<lambda>i. group_text (addr_value a div 65536 ^ i mod 65536)) [7, 6, 5, 4, 3, 2, 1, 0]"
  have g: "\<exists>m. w = group_text m" if "w \<in> set ?ws" for w using that unfolding set_map by blast
  have "?ws \<noteq> []" "\<forall>w\<in>set ?ws. w \<noteq> [] \<and> (\<forall>c\<in>set w. \<exists>k<16. c = digit_char k)"
    using g group_text_facts(1,2) by (simp, metis)
  note j = join_on_facts [OF this, of colon]
  have "quad_Parse (quad_String a) \<noteq> None" using False j(1) group_text_facts(3) by (simp add: quad_Parse_def quad_String_def Let_def)
  then show ?thesis using False j by (simp add: ip_text_def quad_String_def)
qed

lemma lower_lower: "to_lower (to_lower s) = to_lower s"
  by (simp add: to_lower_def)

lemma ip_text_lawful_quad: "ip_text_lawful quad_lib"
  using quad_String_text by (simp add: ip_text_lawful_def quad_lib_def quad_Parse_def lower_lower)

definition ten_banned :: SiteIPRulesConfig where
  "ten_banned = \<lparr>sc_Blocked = [''10.0.0.0/8''], sc_Exceptions = [], sc_Grey = []\<rparr>"

definition ten_policy :: "prefix_ip list Policy" where
  "ten_policy = \<lparr>p_domains = None, p_siteIPs = (case NewSiteIPRules quad_lib bart_list ten_banned of Inr r \<Rightarrow> Some r | Inl _ \<Rightarrow> None), p_urls = None,
     p_files = None, p_headers = None, p_cookies = None, p_log = None, p_referer = None\<rparr>"

text \<open>The resolver has an answer for \<open>b.org\<close> in its cache; the one for \<open>a.org\<close> is looked up.\<close>

definition ask_b :: dns_query where
  "ask_b = \<lparr>dq_now = 0, dq_lookup = (\<lambda>_. Inr [Addr 32 167772162]), dq_host = ''b.org'', dq_force = True\<rparr>"

definition after_b :: DNSResolver where
  "after_b = \<lparr>dr_cache = [(''b.org'', \<lparr>dn_ips = [Addr 32 167772162], dn_expiresAt = 10\<rparr>)], dr_enabled = True, dr_ttl = 10\<rparr>"

definition dial_ten :: "string \<Rightarrow> ((gate_error + PolicyDecision) + string) \<times> DNSResolver option" where
  "dial_ten address = resolveDialAddress quad_lib bart_list (\<lambda>_. Inr [Addr 32 3232235777]) 5 (Some ten_policy) address (Some after_b)"

lemma quad_lib_fields:
  "addr_String quad_lib = quad_String" "netip_ParseAddr quad_lib = quad_Parse" "net_ParseIP quad_lib s = (if ip_text s then quad_Parse s else None)"
  "netip_ParsePrefix quad_lib s = (if s = ''10.0.0.0/8'' then Some (Prefix (Addr 32 167772160) 8) else None)"
  by (simp_all add: quad_lib_def)

lemma quad_texts:
  "quad_String (Addr 32 167772162) = ''10.0.0.2''" "quad_String (Addr 32 3232235777) = ''192.168.1.1''"
  by (simp_all add: quad_String_def octet_text_def digit_char_def)

lemma quad_v4:
  assumes "map (part_val 10 3) (split_on dot (to_lower s)) = [Some a, Some b, Some c, Some d]" "a < 256" "b < 256" "c < 256" "d < 256"
  shows "quad_Parse s = Some (Addr 32 (((a * 256 + b) * 256 + c) * 256 + d))"
  using assms by (simp add: quad_Parse_def Let_def)

lemma quad_values:
  "quad_Parse ''10.0.0.2'' = Some (Addr 32 167772162)" "quad_Parse ''192.168.1.1'' = Some (Addr 32 3232235777)"
proof -
  have "map (part_val 10 3) (split_on dot (to_lower ''10.0.0.2'')) = [Some 10, Some 0, Some 0, Some 2]"
    "map (part_val 10 3) (split_on dot (to_lower ''192.168.1.1'')) = [Some 192, Some 168, Some 1, Some 1]" by code_simp+
  then show "quad_Parse ''10.0.0.2'' = Some (Addr 32 167772162)" "quad_Parse ''192.168.1.1'' = Some (Addr 32 3232235777)"
    using quad_v4 by simp_all
qed

lemma quad_mapped: "quad_Parse ''0:0:0:0:0:ffff:a00:2'' = Some (Addr 128 281470849515522)"
proof -
  have l: "to_lower ''0:0:0:0:0:ffff:a00:2'' = ''0:0:0:0:0:ffff:a00:2''"
    "split_on dot ''0:0:0:0:0:ffff:a00:2'' = [''0:0:0:0:0:ffff:a00:2'']"
    "split_on colon ''0:0:0:0:0:ffff:a00:2'' = [''0'', ''0'', ''0'', ''0'', ''0'', ''ffff'', ''a00'', ''2'']" by code_simp+
  have "hex_val (CHR ''0'') = 0" "hex_val (CHR ''2'') = 2" "hex_val (CHR ''a'') = 10" "hex_val (CHR ''f'') = 15" by code_simp+
  then have "part_val 16 4 ''0'' = Some 0" "part_val 16 4 ''2'' = Some 2" "part_val 16 4 ''a00'' = Some 2560" "part_val 16 4 ''ffff'' = Some 65535"
    by (simp_all add: part_val_def)
  then show ?thesis unfolding quad_Parse_def l by (simp add: Let_def)
qed

lemma ten_rules: "NewSiteIPRules quad_lib bart_list ten_banned = Inr \<lparr>s_blocked = [Prefix (Addr 32 167772160) 8], s_exceptions = [], s_grey = [], hasEntries = True\<rparr>"
proof -
  have "trim_space ''10.0.0.0/8'' = ''10.0.0.0/8''" by code_simp
  then show ?thesis
    by (simp add: NewSiteIPRules_def ten_banned_def named_ips_def parse_ip_entry_def quad_lib_fields bart_list_def prefix_masked_def)
qed

lemma dial_ten_value:
  assumes "net_SplitHostPort address = Some (host, ''80'')" "ip_text h" "to_lower h = h" "quad_Parse h = Some a"
    and "dns_resolve quad_lib (\<lambda>_. Inr [Addr 32 3232235777]) 5 host True (Some after_b) = (Inr h, ro)"
  shows "fst (dial_ten address) = (if prefix_contains (Prefix (Addr 32 167772160) 8) a then Inl (Inr (block_decision ''site_ip'' (quad_String a)))
     else Inr (net_JoinHostPort h ''80''))"
proof -
  have "normalizedPolicyHost h = h" "h \<noteq> []" using normalizedPolicyHost_ip [OF assms(2)] assms(2,3) by (simp_all add: ip_text_def)
  moreover have "RequiresResolvedSiteIP (Some ten_policy)" by (simp add: RequiresResolvedSiteIP_def ten_policy_def ten_rules)
  moreover have "bart_Lookup bart_list t x = list_ex (\<lambda>p. prefix_contains p x) t" for t x by (simp add: bart_list_def)
  ultimately show ?thesis using assms(1,4,5)
    by (simp add: dial_ten_def resolveDialAddress_def ResolveAddrForPolicy_def EvaluateResolvedDestinationIP_def ten_policy_def ten_rules
        SiteIPRules_Decision_def quad_lib_fields Let_def)
qed

lemma dial_ten_values:
  "fst (dial_ten ''a.org:80'') = Inr ''192.168.1.1:80''"
  "fst (dial_ten ''b.org:80'') = Inl (Inr (block_decision ''site_ip'' ''10.0.0.2''))"
  "fst (dial_ten ''10.0.0.2:80'') = Inl (Inr (block_decision ''site_ip'' ''10.0.0.2''))"
  "fst (dial_ten ''[0:0:0:0:0:ffff:a00:2]:80'') = Inr ''[0:0:0:0:0:ffff:a00:2]:80''"
proof -
  note r = dns_resolve_def dns_cached_def after_b_def quad_lib_fields quad_texts quad_values quad_mapped
  have ip: "ip_text ''192.168.1.1''" "ip_text ''10.0.0.2''" "ip_text ''0:0:0:0:0:ffff:a00:2''" "\<not> ip_text ''a.org''" "\<not> ip_text ''b.org''" by code_simp+
  have low: "to_lower ''192.168.1.1'' = ''192.168.1.1''" "to_lower ''10.0.0.2'' = ''10.0.0.2''" "to_lower ''0:0:0:0:0:ffff:a00:2'' = ''0:0:0:0:0:ffff:a00:2''" by code_simp+
  have sp: "net_SplitHostPort ''a.org:80'' = Some (''a.org'', ''80'')" "net_SplitHostPort ''b.org:80'' = Some (''b.org'', ''80'')"
    "net_SplitHostPort ''10.0.0.2:80'' = Some (''10.0.0.2'', ''80'')"
    "net_SplitHostPort ''[0:0:0:0:0:ffff:a00:2]:80'' = Some (''0:0:0:0:0:ffff:a00:2'', ''80'')" by code_simp+
  show "fst (dial_ten ''a.org:80'') = Inr ''192.168.1.1:80''"
    using dial_ten_value [OF sp(1) ip(1) low(1) quad_values(2)] ip(4) by (simp add: r prefix_contains_def net_JoinHostPort_def)
  show "fst (dial_ten ''b.org:80'') = Inl (Inr (block_decision ''site_ip'' ''10.0.0.2''))"
    using dial_ten_value [OF sp(2) ip(2) low(2) quad_values(1)] ip(5) by (simp add: r prefix_contains_def)
  show "fst (dial_ten ''10.0.0.2:80'') = Inl (Inr (block_decision ''site_ip'' ''10.0.0.2''))"
    using dial_ten_value [OF sp(3) ip(2) low(2) quad_values(1)] ip(2) by (simp add: r prefix_contains_def)
  show "fst (dial_ten ''[0:0:0:0:0:ffff:a00:2]:80'') = Inr ''[0:0:0:0:0:ffff:a00:2]:80''"
    using dial_ten_value [OF sp(4) ip(3) low(3) quad_mapped] ip(3) by (simp add: r prefix_contains_def net_JoinHostPort_def)
qed

lemma after_b_reached: "dns_after quad_lib [ask_b] (Some (NewDNSResolver True 10)) = Some after_b"
proof -
  have "\<not> ip_text ''b.org''" by code_simp
  then show ?thesis by (simp add: dns_after_def dns_ask_def ask_b_def NewDNSResolver_def dns_resolve_def dns_cached_def quad_lib_fields after_b_def)
qed

theorem dial_address_checked_witness:
  "fst (dial_ten ''a.org:80'') = Inr ''192.168.1.1:80'' \<and> fst (dial_ten ''b.org:80'') = Inl (Inr (block_decision ''site_ip'' ''10.0.0.2'')) \<and>
   (\<exists>h a. (''192.168.1.1:80'' = h \<or> (\<exists>port. ''192.168.1.1:80'' = net_JoinHostPort h port)) \<and> ip_text h \<and> netip_ParseAddr quad_lib h = Some a \<and>
     \<not> ip_listed quad_lib [''10.0.0.0/8''] a)"
proof -
  obtain ro where ro: "resolveDialAddress quad_lib bart_list (\<lambda>_. Inr [Addr 32 3232235777]) 5 (Some ten_policy) ''a.org:80'' (Some after_b) = (Inr ''192.168.1.1:80'', ro)"
    using dial_ten_values(1) by (metis dial_ten_def prod.collapse)
  have "p_siteIPs ten_policy = Some \<lparr>s_blocked = [Prefix (Addr 32 167772160) 8], s_exceptions = [], s_grey = [], hasEntries = True\<rparr>"
    by (simp add: ten_policy_def ten_rules)
  moreover have "\<forall>q\<in>set [ask_b]. answers_valid (dq_lookup q)" "answers_valid (\<lambda>_. Inr [Addr 32 3232235777])"
    by (simp_all add: ask_b_def answers_valid_def valid_addr_def)
  ultimately show ?thesis using dial_address_checked [OF bart_lawful_list ip_text_lawful_quad ten_rules _ _ after_b_reached _ _ ro] dial_ten_values(1,2)
    by (auto simp: ten_banned_def ip_listed_def)
qed

text \<open>
  The check compares an IPv4 address written as an IPv6 address
  (\<open>::ffff:10.0.0.2\<close>) with the IPv6 prefixes only, so the literal of a banned
  IPv4 address passes in that form.
\<close>

theorem mapped_address_unchecked:
  "(case fst (dial_ten ''10.0.0.2:80'') of Inl (Inr d) \<Rightarrow> Blocked d | _ \<Rightarrow> False) \<and>
   fst (dial_ten ''[0:0:0:0:0:ffff:a00:2]:80'') = Inr ''[0:0:0:0:0:ffff:a00:2]:80''"
  by (simp add: dial_ten_values)

text \<open>
  C40: A name is answered with itself, with the first address the resolver just
  returned for it, or with the first address of an earlier answer for the same
  name that is younger than the configured lifetime.  Taking the first cached
  address never panics.
\<close>

theorem dns_answer_fresh:
  assumes "dns_ask lib q (dns_after lib history (Some (NewDNSResolver enabled ttl))) = (answer, r)"
  shows "(\<forall>s. answer = Inr s \<longrightarrow> s = dq_host q \<or>
      (\<exists>(p :: dns_query) ip ips. dq_host p = dq_host q \<and> dq_lookup p (dq_host q) = Inr (ip # ips) \<and> s = addr_String lib ip \<and>
         (p = q \<or> p \<in> set history \<and> dq_now q < dq_now p + ttl))) \<and>
    (answer = Inl Panic \<longrightarrow> dq_lookup q (dq_host q) = Inl Panic)"
proof -
  have "dns_inv ttl [] (Some (NewDNSResolver enabled ttl))" by (simp add: dns_inv_def NewDNSResolver_def)
  from dns_after_inv [OF this, of history lib] obtain r0 where r0: "dns_after lib history (Some (NewDNSResolver enabled ttl)) = Some r0"
    "dr_ttl r0 = ttl" "\<And>h e. (h, e) \<in> set (dr_cache r0) \<Longrightarrow> entry_from ttl history h e"
    by (auto simp: dns_inv_def split: option.splits)
  have ask: "dns_resolve lib (dq_lookup q) (dq_now q) (dq_host q) (dq_force q) (Some r0) = (answer, r)" using assms r0(1) by (simp add: dns_ask_def)
  consider "answer = Inr (dq_host q)"
    | (cached) e where "dns_cached r0 (dq_now q) (dq_host q) = Some e" "answer = (case dn_ips e of [] \<Rightarrow> Inl Panic | ip # _ \<Rightarrow> Inr (addr_String lib ip))"
    | "\<exists>e. dq_lookup q (dq_host q) = Inl e \<and> answer = Inl e" | "answer = Inl (Failure ''no IP addresses found'')"
    | "\<exists>ip ips. dq_lookup q (dq_host q) = Inr (ip # ips) \<and> answer = Inr (addr_String lib ip)"
    using ask by (auto simp: dns_resolve_def split: option.splits sum.splits list.splits if_splits)
  then show ?thesis
  proof cases
    case (cached e)
    then have "(dq_host q, e) \<in> set (dr_cache r0)" "dq_now q < dn_expiresAt e"
      by (auto simp: dns_cached_def split: if_splits option.splits dest: map_of_SomeD)
    then obtain p where p: "p \<in> set history" "dq_host p = dq_host q" "dq_lookup p (dq_host q) = Inr (dn_ips e)" "dn_ips e \<noteq> []" "dn_expiresAt e = dq_now p + ttl"
      using r0(3) by (auto simp: entry_from_def)
    then obtain ip ips where "dn_ips e = ip # ips" by (cases "dn_ips e") auto
    then show ?thesis using cached(2) p \<open>dq_now q < dn_expiresAt e\<close> by auto
  qed auto
qed

definition ask_a :: "int \<Rightarrow> nat \<Rightarrow> dns_query" where
  "ask_a now n = \<lparr>dq_now = now, dq_lookup = (\<lambda>_. Inr [Addr 32 (167772160 + n)]), dq_host = ''a.org'', dq_force = False\<rparr>"

theorem dns_answer_fresh_witness:
  "fst (dns_ask quad_lib (ask_a 9 3) (dns_after quad_lib [ask_a 0 2] (Some (NewDNSResolver True 10)))) = Inr ''10.0.0.2'' \<and>
   (\<exists>(p :: dns_query) ip ips. dq_host p = ''a.org'' \<and> dq_lookup p ''a.org'' = Inr (ip # ips) \<and> ''10.0.0.2'' = addr_String quad_lib ip)"
proof -
  have no_ip: "\<not> ip_text ''a.org''" by code_simp
  have a: "fst (dns_ask quad_lib (ask_a 9 3) (dns_after quad_lib [ask_a 0 2] (Some (NewDNSResolver True 10)))) = Inr ''10.0.0.2''"
    using no_ip quad_texts(1) by (simp add: ask_a_def dns_after_def dns_ask_def NewDNSResolver_def dns_resolve_def dns_cached_def quad_lib_fields)
  then obtain r where "dns_ask quad_lib (ask_a 9 3) (dns_after quad_lib [ask_a 0 2] (Some (NewDNSResolver True 10))) = (Inr ''10.0.0.2'', r)"
    by (metis prod.collapse)
  from dns_answer_fresh [OF this] have "''10.0.0.2'' = dq_host (ask_a 9 3) \<or>
      (\<exists>(p :: dns_query) ip ips. dq_host p = dq_host (ask_a 9 3) \<and> dq_lookup p (dq_host (ask_a 9 3)) = Inr (ip # ips) \<and> ''10.0.0.2'' = addr_String quad_lib ip)" by blast
  moreover have "dq_host (ask_a 9 3) = ''a.org''" by (simp add: ask_a_def)
  ultimately show ?thesis using a by simp
qed

end
