(* ===== verification/Server.thy ===== *)
theory Server
  imports Audit_Scope Conn_Limiter Rate_Limiter Dialing Message_Writer
begin

text \<open>
  The entry of the proxy: \<open>ServeHTTP\<close> of \<open>proxy/server.go\<close> with the front of
  \<open>handlePlainHTTP\<close>, from the client's address to the handler that relays the
  request or the page that refuses it.  It composes the access rules, the
  schedules, the table of rate limiters, the policy, the audit scope, the
  bypass lists and the connection limits.  Metrics, tracing and the body of the
  block pages are not modelled.
\<close>

section \<open>State and environment\<close>

record ('t, 'm, 'w, 'l) Server =
  sv_access :: "('t, 'm) AccessRules option"
  sv_schedules :: "ScheduleRules option"
  sv_rateLimiter :: "'l ipRateLimiter"
  sv_limiter :: "'w limiter_state"
  sv_policy :: "'t Policy option"
  sv_audit :: "AuditScope option"
  sv_greySSLSites :: "DomainMatcher option"
  sv_greySSLIps :: "'t option"
  sv_mitmBypass :: "domainTrie option"

text \<open>
  The libraries the server calls, the time, and the two operations of
  \<open>golang.org/x/time/rate\<close>: making a limiter, and the answer of its method
  \<open>Allow\<close> at this moment.
\<close>

record ('t, 'm, 'w, 'l) serve_env =
  en_lib :: go_lib
  en_bart :: "'t bart"
  en_bart_map :: "'m bart_map"
  en_sem :: "'w sem_ops"
  en_NewLimiter :: "rat \<Rightarrow> int \<Rightarrow> 'l"
  en_Allow :: "'l \<Rightarrow> bool"
  en_wall :: wall_clock
  en_now :: int

record serve_request =
  sr_request :: request
  sr_Proto :: string
  sr_RemoteAddr :: string

datatype serve_outcome =
    BlockPage nat string
  | HttpError nat string
  | ServeStream string string connLimiterPermit
  | ServePlain string string bool AuditScopeDecision connLimiterPermit
  | ServeBypass string connLimiterPermit
  | ServeMITM string connLimiterPermit

section \<open>The checks\<close>

definition SetMITMBypass :: "string list \<Rightarrow> ('t, 'm, 'w, 'l) Server \<Rightarrow> ('t, 'm, 'w, 'l) Server" where
  "SetMITMBypass hosts s = s\<lparr>sv_mitmBypass := Some (foldl (\<lambda>t h. Add t (trim_prefix ''*.'' h)) empty_domainTrie hosts)\<rparr>"

definition shouldBypassMITM :: "('t, 'm, 'w, 'l) serve_env \<Rightarrow> ('t, 'm, 'w, 'l) Server \<Rightarrow> string \<Rightarrow> bool option" where
  "shouldBypassMITM env s host = do {
     grey \<leftarrow> DomainMatcher_Match (sv_greySSLSites s) host;
     if grey then Some False
     else if (case netip_ParseAddr (en_lib env) (case net_SplitHostPort host of Some (h, _) \<Rightarrow> h | None \<Rightarrow> host) of
                Some a \<Rightarrow> IPMatcher_Match (en_bart env) (sv_greySSLIps s) a | None \<Rightarrow> False) then Some False
     else (case sv_mitmBypass s of None \<Rightarrow> Some False | Some t \<Rightarrow> map_option snd (Match t host)) }"

definition profileRateLimit :: "('t, 'm, 'w, 'l) Server \<Rightarrow> string \<Rightarrow> (rat \<times> int) option" where
  "profileRateLimit s profile =
     (case ProfileLimits (sv_access s) profile of
        Some (_, Some limit, Some burst) \<Rightarrow> Some (limit, burst)
      | _ \<Rightarrow> None)"

definition policyBlocked :: "('t, 'm, 'w, 'l) serve_env \<Rightarrow> ('t, 'm, 'w, 'l) Server \<Rightarrow> string \<Rightarrow> request option \<Rightarrow> string \<Rightarrow> PolicyDecision option" where
  "policyBlocked env s host req scheme = EvaluateRequest (en_lib env) (en_bart env) (sv_policy s) host req scheme"

text \<open>The rate check; \<open>None\<close> where the profile has no limit or the limiter allows the request.\<close>

definition rate_check :: "('t, 'm, 'w, 'l) serve_env \<Rightarrow> string \<Rightarrow> string \<Rightarrow> ('t, 'm, 'w, 'l) Server \<Rightarrow> serve_outcome option \<times> ('t, 'm, 'w, 'l) Server" where
  "rate_check env profile remote s =
     (case profileRateLimit s profile of
        None \<Rightarrow> (None, s)
      | Some (limit, burst) \<Rightarrow>
          (let hostIP = (case net_SplitHostPort remote of Some (h, _) \<Rightarrow> h | None \<Rightarrow> []);
               hostIP = (if hostIP = [] then remote else hostIP);
               (limiter, table) = getOrCreate hostIP (en_NewLimiter env limit burst) (sv_rateLimiter s);
               s = s\<lparr>sv_rateLimiter := table\<rparr>
           in if \<not> en_Allow env limiter then (Some (BlockPage 429 ''Too many requests''), s) else (None, s)))"

text \<open>Taking a permit; the continuation says what is served with it.\<close>

definition with_permit ::
  "('t, 'm, 'w, 'l) serve_env \<Rightarrow> string \<Rightarrow> (connLimiterPermit \<Rightarrow> serve_outcome) \<Rightarrow> ('t, 'm, 'w, 'l) Server \<Rightarrow> (serve_outcome \<times> ('t, 'm, 'w, 'l) Server) option" where
  "with_permit env profile serve s =
     (case acquireConnForProfile (en_sem env) profile (sv_limiter s) of
        None \<Rightarrow> None
      | Some (Inl reason, l) \<Rightarrow> Some (BlockPage 503 ''Connection limit exceeded'', s\<lparr>sv_limiter := l\<rparr>)
      | Some (Inr p, l) \<Rightarrow> Some (serve p, s\<lparr>sv_limiter := l\<lparr>ls_permits := p # ls_permits l\<rparr>\<rparr>))"

section \<open>The handlers\<close>

definition http3_host :: "request \<Rightarrow> string" where
  "http3_host r =
     (let host = (if req_host r = [] then (case req_url r of Some u \<Rightarrow> u_host u | None \<Rightarrow> []) else req_host r)
      in case net_SplitHostPort host of Some (h, _) \<Rightarrow> h | None \<Rightarrow> host)"

definition serve_http3 :: "('t, 'm, 'w, 'l) serve_env \<Rightarrow> string \<Rightarrow> serve_request \<Rightarrow> ('t, 'm, 'w, 'l) Server \<Rightarrow> (serve_outcome \<times> ('t, 'm, 'w, 'l) Server) option" where
  "serve_http3 env profile q s =
     (let host = http3_host (sr_request q)
      in if host = [] then Some (HttpError 400 ''missing host in http3 request'', s)
         else do {
           dec \<leftarrow> policyBlocked env s host (Some (sr_request q)) ''https'';
           if Blocked dec then Some (BlockPage 403 ''Access denied'', s)
           else with_permit env profile (ServeStream host (net_JoinHostPort host ''443'')) s })"

definition plain_http_front :: "('t, 'm, 'w, 'l) serve_env \<Rightarrow> string \<Rightarrow> serve_request \<Rightarrow> ('t, 'm, 'w, 'l) Server \<Rightarrow> (serve_outcome \<times> ('t, 'm, 'w, 'l) Server) option" where
  "plain_http_front env profile q s =
     (case plainHTTPDestination (Some (sr_request q)) of
        Inl _ \<Rightarrow> Some (HttpError 400 ''bad proxy request'', s)
      | Inr (host, address) \<Rightarrow> do {
          dec \<leftarrow> policyBlocked env s host (Some (sr_request q)) ''http'';
          if Blocked dec then Some (BlockPage 403 ''Access denied'', s)
          else (case sv_audit s of
                  None \<Rightarrow> with_permit env profile (ServePlain host address (BypassFilters dec) (root_decision [] [])) s
                | Some scope \<Rightarrow> do {
                    (sd, scope) \<leftarrow> AuditScope_Decide (en_lib env) (Some (sr_request q)) host (en_now env) scope;
                    with_permit env profile (ServePlain host address (BypassFilters dec) sd) (s\<lparr>sv_audit := Some scope\<rparr>) }) })"

definition serve_connect :: "('t, 'm, 'w, 'l) serve_env \<Rightarrow> string \<Rightarrow> serve_request \<Rightarrow> ('t, 'm, 'w, 'l) Server \<Rightarrow> (serve_outcome \<times> ('t, 'm, 'w, 'l) Server) option" where
  "serve_connect env profile q s =
     (case connectHostname (sr_request q) of
        Inl _ \<Rightarrow> Some (HttpError 400 ''bad connect host'', s)
      | Inr host \<Rightarrow> do {
          dec \<leftarrow> policyBlocked env s host None ''https'';
          if Blocked dec then Some (BlockPage 403 ''Access denied'', s)
          else do {
            (tunnel, s) \<leftarrow> (case sv_audit s of
               None \<Rightarrow> Some (False, s)
             | Some scope \<Rightarrow> do {
                 (sd, scope) \<leftarrow> AuditScope_Decide (en_lib env) (Some (sr_request q)) host (en_now env) scope;
                 Some (ad_Class sd = AuditClassNone \<and> AuditScope_NoneMode (Some scope) = ''tunnel'', s\<lparr>sv_audit := Some scope\<rparr>) });
            if tunnel then with_permit env profile (ServeBypass host) s
            else do {
              bypass \<leftarrow> shouldBypassMITM env s host;
              with_permit env profile (if bypass then ServeBypass host else ServeMITM host) s } } })"

definition ServeHTTP :: "('t, 'm, 'w, 'l) serve_env \<Rightarrow> serve_request \<Rightarrow> ('t, 'm, 'w, 'l) Server \<Rightarrow> (serve_outcome \<times> ('t, 'm, 'w, 'l) Server) option" where
  "ServeHTTP env q s =
     (let (profile, allowed) = ProfileForRemoteAddr (en_lib env) (en_bart env) (en_bart_map env) (sv_access s) (sr_RemoteAddr q)
      in if \<not> allowed then Some (BlockPage 403 ''Client access denied'', s)
         else if \<not> ScheduleRules_Allowed (sv_schedules s) profile (en_wall env) then Some (BlockPage 403 ''Access outside allowed schedule'', s)
         else case rate_check env profile (sr_RemoteAddr q) s of
                (Some refused, s) \<Rightarrow> Some (refused, s)
              | (None, s) \<Rightarrow>
                  if prefix ''HTTP/3'' (sr_Proto q) then serve_http3 env profile q s
                  else if req_method (sr_request q) \<noteq> ''CONNECT'' then plain_http_front env profile q s
                  else serve_connect env profile q s)"

section \<open>Admission\<close>

text \<open>The permit and the destination of an outcome that serves the request.\<close>

definition served_permit :: "serve_outcome \<Rightarrow> connLimiterPermit option" where
  "served_permit out =
     (case out of ServeStream _ _ p \<Rightarrow> Some p | ServePlain _ _ _ _ p \<Rightarrow> Some p | ServeBypass _ p \<Rightarrow> Some p | ServeMITM _ p \<Rightarrow> Some p
      | BlockPage _ _ \<Rightarrow> None | HttpError _ _ \<Rightarrow> None)"

definition served_check :: "serve_outcome \<Rightarrow> request \<Rightarrow> (string \<times> request option \<times> string) option" where
  "served_check out r =
     (case out of ServeStream h _ _ \<Rightarrow> Some (h, Some r, ''https'') | ServePlain h _ _ _ _ \<Rightarrow> Some (h, Some r, ''http'')
      | ServeBypass h _ \<Rightarrow> Some (h, None, ''https'') | ServeMITM h _ \<Rightarrow> Some (h, None, ''https'')
      | BlockPage _ _ \<Rightarrow> None | HttpError _ _ \<Rightarrow> None)"

lemma acquireConnForProfile_inv:
  assumes l: "sem_lawful ops held limit" and inv: "limiter_inv held limit s"
  shows "\<exists>r s'. acquireConnForProfile ops profile s = Some (r, s') \<and> ls_permits s' = ls_permits s \<and>
    (case r of Inr p \<Rightarrow> limiter_inv held limit (s'\<lparr>ls_permits := p # ls_permits s'\<rparr>) | Inl _ \<Rightarrow> limiter_inv held limit s')"
proof (cases "acquire_profile ops profile s")
  case (Inl reason)
  then show ?thesis using inv by (intro exI [of _ "Inl reason"] exI [of _ s]) (simp add: acquireConnForProfile_def)
next
  case (Inr ps)
  obtain p s1 where ps: "acquire_profile ops profile s = Inr (p, s1)" using Inr by (cases ps) auto
  have ok: "sems_ok held limit (ls_sems s) (in_use s)" "limiter_in (length (ls_sems s)) (ls_limiter s)" using inv by (simp_all add: limiter_inv_def)
  obtain ws where ws: "s1 = s\<lparr>ls_sems := ws\<rparr>" "length ws = length (ls_sems s)" using acquire_profile_sems(3) [OF l ok ps] by blast
  have p: "sems_ok held limit (ls_sems s1) (profile_use p + in_use s)" "pm_limiter p = ls_limiter s" using acquire_profile_sems(1,2) [OF l ok ps] by simp_all
  have "limiter_in (length (ls_sems s1)) (pm_limiter p)" using p(2) ok(2) ws by simp
  from acquire_global_sems [OF l p(1) this] obtain r ws' where
    g: "acquire_global ops p s1 = Some (r, s1\<lparr>ls_sems := ws'\<rparr>)" "length ws' = length (ls_sems s1)"
    "case r of Inr q \<Rightarrow> q = p \<and> sems_ok held limit ws' (global_use p + profile_use p + in_use s) | Inl _ \<Rightarrow> sems_ok held limit ws' (in_use s)" by blast
  have "case r of Inr q \<Rightarrow> limiter_inv held limit (s\<lparr>ls_sems := ws', ls_permits := q # ls_permits s\<rparr>) | Inl _ \<Rightarrow> limiter_inv held limit (s\<lparr>ls_sems := ws'\<rparr>)"
    using g(2,3) ws inv p(2) by (auto simp: limiter_inv_def in_use_def union_ac split: sum.splits)
  then show ?thesis using ps g(1) ws by (intro exI [of _ r] exI [of _ "s\<lparr>ls_sems := ws'\<rparr>"]) (cases r; simp add: acquireConnForProfile_def)
qed

lemma with_permit_spec:
  assumes l: "sem_lawful (en_sem env) held limit" and inv: "limiter_inv held limit (sv_limiter s)" and w: "with_permit env profile serve s = Some (out, s')"
    and served: "\<And>p. served_permit (serve p) = Some p"
  shows "limiter_inv held limit (sv_limiter s') \<and>
    (\<forall>p. served_permit out = Some p \<longrightarrow> out = serve p \<and> ls_permits (sv_limiter s') = p # ls_permits (sv_limiter s)) \<and>
    (served_permit out = None \<longrightarrow> ls_permits (sv_limiter s') = ls_permits (sv_limiter s))"
proof -
  obtain r l' where a: "acquireConnForProfile (en_sem env) profile (sv_limiter s) = Some (r, l')" "ls_permits l' = ls_permits (sv_limiter s)"
    "case r of Inr p \<Rightarrow> limiter_inv held limit (l'\<lparr>ls_permits := p # ls_permits l'\<rparr>) | Inl _ \<Rightarrow> limiter_inv held limit l'"
    using acquireConnForProfile_inv [OF l inv] by blast
  then show ?thesis using w served by (cases r) (auto simp: with_permit_def served_permit_def)
qed

text \<open>What every handler guarantees from the state in which it is entered.\<close>

definition admits :: "('t, 'm, 'w, 'l) serve_env \<Rightarrow> request \<Rightarrow> ('w \<Rightarrow> int) \<Rightarrow> ('w \<Rightarrow> int) \<Rightarrow> ('t, 'm, 'w, 'l) Server \<Rightarrow> serve_outcome \<Rightarrow> ('t, 'm, 'w, 'l) Server \<Rightarrow> bool" where
  "admits env r held limit s out s' \<longleftrightarrow>
     limiter_inv held limit (sv_limiter s') \<and>
     (case served_permit out of
        None \<Rightarrow> ls_permits (sv_limiter s') = ls_permits (sv_limiter s)
      | Some p \<Rightarrow> ls_permits (sv_limiter s') = p # ls_permits (sv_limiter s) \<and>
          (\<exists>host ro scheme d. served_check out r = Some (host, ro, scheme) \<and>
             EvaluateRequest (en_lib env) (en_bart env) (sv_policy s) host ro scheme = Some d \<and> \<not> Blocked d))"

lemma admits_refused: "served_permit out = None \<Longrightarrow> limiter_inv held limit (sv_limiter s) \<Longrightarrow> admits env r held limit s out s"
  by (simp add: admits_def)

lemma admits_served:
  assumes l: "sem_lawful (en_sem env) held limit" and inv: "limiter_inv held limit (sv_limiter s)"
    and w: "with_permit env profile serve s0 = Some (out, s')" and s0: "sv_limiter s0 = sv_limiter s"
    and served: "\<And>p. served_permit (serve p) = Some p" "\<And>p. served_check (serve p) r = Some (host, ro, scheme)"
    and d: "policyBlocked env s host ro scheme = Some d" "\<not> Blocked d"
  shows "admits env r held limit s out s'"
proof -
  have inv0: "limiter_inv held limit (sv_limiter s0)" using inv s0 by simp
  note sp = with_permit_spec [OF l inv0 w served(1)]
  show ?thesis
  proof (cases "served_permit out")
    case None
    then show ?thesis using sp s0 by (simp add: admits_def)
  next
    case (Some p)
    then have "out = serve p" using sp by blast
    then show ?thesis using sp s0 Some served(2) d by (auto simp: admits_def policyBlocked_def)
  qed
qed

lemma serve_http3_admits:
  assumes l: "sem_lawful (en_sem env) held limit" "limiter_inv held limit (sv_limiter s)" and h: "serve_http3 env profile q s = Some (out, s')"
  shows "admits env (sr_request q) held limit s out s'"
proof -
  define host where "host = http3_host (sr_request q)"
  note h' = h [unfolded serve_http3_def Let_def, folded host_def]
  show ?thesis
  proof (cases "host = []")
    case True
    then show ?thesis using h' l(2) by (auto intro!: admits_refused simp: served_permit_def)
  next
    case False
    then obtain dec where d: "policyBlocked env s host (Some (sr_request q)) ''https'' = Some dec" using h' by (auto simp: bind_eq_Some_conv)
    show ?thesis
    proof (cases "Blocked dec")
      case True
      then show ?thesis using h' False d l(2) by (auto intro!: admits_refused simp: served_permit_def)
    next
      case ok: False
      then have "with_permit env profile (ServeStream host (net_JoinHostPort host ''443'')) s = Some (out, s')" using h' False d by simp
      from admits_served [OF l this _ _ _ d ok] show ?thesis by (simp add: served_permit_def served_check_def)
    qed
  qed
qed

lemma plain_http_front_admits:
  assumes l: "sem_lawful (en_sem env) held limit" "limiter_inv held limit (sv_limiter s)" and h: "plain_http_front env profile q s = Some (out, s')"
  shows "admits env (sr_request q) held limit s out s'"
proof (cases "plainHTTPDestination (Some (sr_request q))")
  case (Inl e)
  then show ?thesis using h l(2) by (auto intro!: admits_refused simp: plain_http_front_def served_permit_def)
next
  case (Inr ha)
  obtain host address where ha: "plainHTTPDestination (Some (sr_request q)) = Inr (host, address)" using Inr by (cases ha) auto
  then obtain dec where d: "policyBlocked env s host (Some (sr_request q)) ''http'' = Some dec" using h by (auto simp: plain_http_front_def bind_eq_Some_conv)
  show ?thesis
  proof (cases "Blocked dec")
    case True
    then show ?thesis using h ha d l(2) by (auto intro!: admits_refused simp: plain_http_front_def served_permit_def)
  next
    case ok: False
    obtain sd s0 where "with_permit env profile (ServePlain host address (BypassFilters dec) sd) s0 = Some (out, s')" "sv_limiter s0 = sv_limiter s"
    proof (cases "sv_audit s")
      case None
      show ?thesis by (rule that [of "root_decision [] []" s]) (use h ha d ok None in \<open>simp_all add: plain_http_front_def\<close>)
    next
      case (Some scope)
      then obtain sd sc where "AuditScope_Decide (en_lib env) (Some (sr_request q)) host (en_now env) scope = Some (sd, sc)"
        using h ha d ok by (auto simp: plain_http_front_def bind_eq_Some_conv)
      then show ?thesis using h ha d ok Some by (intro that [of sd "s\<lparr>sv_audit := Some sc\<rparr>"]) (simp_all add: plain_http_front_def)
    qed
    from admits_served [OF l this _ _ d ok] show ?thesis by (simp add: served_permit_def served_check_def)
  qed
qed

lemma serve_connect_admits:
  assumes l: "sem_lawful (en_sem env) held limit" "limiter_inv held limit (sv_limiter s)" and h: "serve_connect env profile q s = Some (out, s')"
  shows "admits env (sr_request q) held limit s out s'"
proof (cases "connectHostname (sr_request q)")
  case (Inl e)
  then show ?thesis using h l(2) by (auto intro!: admits_refused simp: serve_connect_def served_permit_def)
next
  case (Inr host)
  then obtain dec where d: "policyBlocked env s host None ''https'' = Some dec" using h by (auto simp: serve_connect_def bind_eq_Some_conv)
  show ?thesis
  proof (cases "Blocked dec")
    case True
    then show ?thesis using h Inr d l(2) by (auto intro!: admits_refused simp: serve_connect_def served_permit_def)
  next
    case ok: False
    obtain tunnel s0 where t: "sv_limiter s0 = sv_limiter s"
      "(if tunnel then with_permit env profile (ServeBypass host) s0
        else shouldBypassMITM env s0 host \<bind> (\<lambda>bypass. with_permit env profile (if bypass then ServeBypass host else ServeMITM host) s0)) = Some (out, s')"
    proof (cases "sv_audit s")
      case None
      show ?thesis by (rule that [of s False]) (use h Inr d ok None in \<open>simp_all add: serve_connect_def\<close>)
    next
      case (Some scope)
      then obtain sd sc where "AuditScope_Decide (en_lib env) (Some (sr_request q)) host (en_now env) scope = Some (sd, sc)"
        using h Inr d ok by (auto simp: serve_connect_def bind_eq_Some_conv)
      then show ?thesis using h Inr d ok Some
        by (intro that [of "s\<lparr>sv_audit := Some sc\<rparr>" "ad_Class sd = AuditClassNone \<and> AuditScope_NoneMode (Some sc) = ''tunnel''"]) (simp_all add: serve_connect_def)
    qed
    then obtain f where f: "f \<in> {ServeBypass, ServeMITM}" "with_permit env profile (f host) s0 = Some (out, s')"
      by (auto simp: bind_eq_Some_conv split: if_splits)
    from admits_served [OF l f(2) t(1) _ _ d ok] f(1) show ?thesis by (auto simp: served_permit_def served_check_def)
  qed
qed

lemma rate_check_spec:
  assumes "rate_check env profile remote s = (refused, s')"
  shows "sv_limiter s' = sv_limiter s" "sv_policy s' = sv_policy s" "refused = Some out \<Longrightarrow> served_permit out = None"
  using assms by (auto simp: rate_check_def Let_def served_permit_def split: option.splits prod.splits if_splits)

text \<open>
  C3: Admission.  Whatever the request, the server keeps its account of the
  permits, and an answer that refuses the request holds none.  A request that
  reaches a handler holds exactly one new permit; its client's address parses
  and is not banned, or is an exception; its profile has no schedule window or
  one that covers the time; and the policy has not blocked the destination the handler is given.
\<close>

theorem serve_admission:
  assumes "sem_lawful (en_sem env) held limit" "limiter_inv held limit (sv_limiter s)"
    and "bart_lawful (en_bart env)" "bm_lawful (en_bart_map env)" "NewAccessRules (en_lib env) (en_bart env) (en_bart_map env) profiles = Inr r0"
    and "SetBanned (en_lib env) (en_bart env) bans (Some r0) = (Some r1, None)" "SetExceptions (en_lib env) (en_bart env) excepted (Some r1) = (Some r2, None)"
    and "NewScheduleRules windows = Inr rules" "ck_Weekday (en_wall env) < 7"
    and "sv_access s = Some r2" "sv_schedules s = Some rules" "ServeHTTP env q s = Some (out, s')"
  shows "limiter_inv held limit (sv_limiter s') \<and>
    (case served_permit out of
       None \<Rightarrow> ls_permits (sv_limiter s') = ls_permits (sv_limiter s)
     | Some p \<Rightarrow> ls_permits (sv_limiter s') = p # ls_permits (sv_limiter s) \<and>
         (\<exists>a profile. netip_ParseAddr (en_lib env) (case net_SplitHostPort (sr_RemoteAddr q) of Some (h, _) \<Rightarrow> h | None \<Rightarrow> sr_RemoteAddr q) = Some a \<and>
            \<not> (client_listed (en_lib env) bans a \<and> \<not> client_listed (en_lib env) excepted a) \<and>
            profile = (case lpm (profile_entries (en_lib env) profiles) a of Some n \<Rightarrow> n | None \<Rightarrow> default_profile profiles) \<and>
            (list_all (\<lambda>w. sw_Profile w \<noteq> profile) windows \<or> list_ex (\<lambda>w. sw_Profile w = profile \<and> window_covers w (en_wall env)) windows)) \<and>
         (\<exists>host ro scheme d. served_check out (sr_request q) = Some (host, ro, scheme) \<and>
            EvaluateRequest (en_lib env) (en_bart env) (sv_policy s) host ro scheme = Some d \<and> \<not> Blocked d))"
proof -
  note prof = ProfileForRemoteAddr_spec [OF assms(3-7), of "sr_RemoteAddr q"]
  obtain profile allowed where pa: "ProfileForRemoteAddr (en_lib env) (en_bart env) (en_bart_map env) (sv_access s) (sr_RemoteAddr q) = (profile, allowed)" by fastforce
  note S = assms(12) [unfolded ServeHTTP_def Let_def pa prod.case]
  show ?thesis
  proof (cases "allowed \<and> ScheduleRules_Allowed (sv_schedules s) profile (en_wall env)")
    case False
    then have "served_permit out = None" "s' = s" using S by (auto simp: served_permit_def split: if_splits)
    then show ?thesis using assms(2) by simp
  next
    case True
    have sched: "list_all (\<lambda>w. sw_Profile w \<noteq> profile) windows \<or> list_ex (\<lambda>w. sw_Profile w = profile \<and> window_covers w (en_wall env)) windows"
      using True assms(11) ScheduleRules_Allowed_iff [OF assms(8,9)] by simp
    obtain a where a: "netip_ParseAddr (en_lib env) (case net_SplitHostPort (sr_RemoteAddr q) of Some (h, _) \<Rightarrow> h | None \<Rightarrow> sr_RemoteAddr q) = Some a"
      "\<not> (client_listed (en_lib env) bans a \<and> \<not> client_listed (en_lib env) excepted a)"
      "profile = (case lpm (profile_entries (en_lib env) profiles) a of Some n \<Rightarrow> n | None \<Rightarrow> default_profile profiles)"
      using True pa prof assms(10) by (auto split: option.splits if_splits)
    obtain refused s1 where rc: "rate_check env profile (sr_RemoteAddr q) s = (refused, s1)" by fastforce
    note rc' = rate_check_spec [OF rc]
    have inv1: "limiter_inv held limit (sv_limiter s1)" using assms(2) rc'(1) by simp
    have "admits env (sr_request q) held limit s1 out s'"
    proof (cases refused)
      case (Some o')
      then show ?thesis using S True rc rc'(3) inv1 by (auto intro!: admits_refused)
    next
      case None
      then consider "serve_http3 env profile q s1 = Some (out, s')" | "plain_http_front env profile q s1 = Some (out, s')" | "serve_connect env profile q s1 = Some (out, s')"
        using S True rc by (auto split: if_splits)
      then show ?thesis using serve_http3_admits [OF assms(1) inv1] plain_http_front_admits [OF assms(1) inv1] serve_connect_admits [OF assms(1) inv1] by cases blast+
    qed
    then show ?thesis unfolding admits_def rc'(1,2) using a sched by (auto split: option.splits)
  qed
qed

text \<open>A server with one permit, the rules of two profiles, and a client in the laboratory's network.\<close>

definition toy_env :: "(prefix_ip list, (prefix_ip \<times> string) list, int \<times> int, unit) serve_env" where
  "toy_env = \<lparr>en_lib = toy_lib, en_bart = bart_list, en_bart_map = bm_list, en_sem = counter_sem, en_NewLimiter = (\<lambda>_ _. ()), en_Allow = (\<lambda>_. True),
     en_wall = \<lparr>ck_Weekday = 1, ck_Hour = 9, ck_Minute = 0\<rparr>, en_now = 0\<rparr>"

definition toy_server :: "string list \<Rightarrow> (prefix_ip list, (prefix_ip \<times> string) list, int \<times> int, unit) Server" where
  "toy_server excepted =
     \<lparr>sv_access = toy_rules [''10.0.0.7''] excepted, sv_schedules = Some [],
      sv_rateLimiter = newIPRateLimiter \<lparr>rn_prev = None, rn_next = None, rn_key = [], rn_limiter = ()\<rparr> 1,
      sv_limiter = limiter_start counter_sem 1, sv_policy = None, sv_audit = None, sv_greySSLSites = None, sv_greySSLIps = None, sv_mitmBypass = None\<rparr>"

definition toy_connect :: serve_request where
  "toy_connect =
     \<lparr>sr_request = \<lparr>req_method = ''CONNECT'', req_url = Some \<lparr>u_scheme = [], u_host = ''example.org:443'', u_escaped_path = [], u_raw_query = []\<rparr>,
        req_host = ''example.org:443'', req_header = []\<rparr>, sr_Proto = ''HTTP/1.1'', sr_RemoteAddr = ''10.0.0.7:4711''\<rparr>"

theorem serve_admission_witness:
  "\<exists>p s'. ServeHTTP toy_env toy_connect (toy_server [''10.0.0.0/24'']) = Some (ServeMITM ''example.org'' p, s') \<and>
     ls_permits (sv_limiter s') = [p] \<and> limiter_inv fst snd (sv_limiter s')"
proof -
  let ?ps = "[toy_profile ''lab'' [''10.0.0.0/24''] False, toy_profile ''all'' [''10.0.0.0/8''] True]"
  have "case NewAccessRules toy_lib bart_list bm_list ?ps of Inr _ \<Rightarrow> True | Inl _ \<Rightarrow> False" by code_simp
  then obtain r0 where r0: "NewAccessRules toy_lib bart_list bm_list ?ps = Inr r0" by (auto split: sum.splits)
  have b: "snd (client_table toy_lib bart_list ''banned client'' [''10.0.0.7''] (bart_new bart_list)) = None"
    "snd (client_table toy_lib bart_list ''exception client'' [''10.0.0.0/24''] (bart_new bart_list)) = None" by code_simp+
  obtain r1 where r1: "SetBanned toy_lib bart_list [''10.0.0.7''] (Some r0) = (Some r1, None)" using b(1) by (auto simp: SetBanned_def split_beta simp del: client_table.simps)
  obtain r2 where r2: "SetExceptions toy_lib bart_list [''10.0.0.0/24''] (Some r1) = (Some r2, None)" using b(2) by (auto simp: SetExceptions_def split_beta simp del: client_table.simps)
  have acc: "sv_access (toy_server [''10.0.0.0/24'']) = Some r2" using r0 r1 r2 by (simp add: toy_server_def toy_rules_def)
  have env: "en_lib toy_env = toy_lib" "en_bart toy_env = bart_list" "en_bart_map toy_env = bm_list" "en_sem toy_env = counter_sem" by (simp_all add: toy_env_def)
  have "case ServeHTTP toy_env toy_connect (toy_server [''10.0.0.0/24'']) of Some (ServeMITM h p, s') \<Rightarrow> h = ''example.org'' | _ \<Rightarrow> False" by code_simp
  then obtain p s' where S: "ServeHTTP toy_env toy_connect (toy_server [''10.0.0.0/24'']) = Some (ServeMITM ''example.org'' p, s')"
    by (auto split: option.splits prod.splits serve_outcome.splits)
  have "ls_permits (sv_limiter s') = p # ls_permits (sv_limiter (toy_server [''10.0.0.0/24''])) \<and> limiter_inv fst snd (sv_limiter s')"
    using serve_admission [of toy_env fst snd "toy_server [''10.0.0.0/24'']" ?ps r0 "[''10.0.0.7'']" r1 "[''10.0.0.0/24'']" r2 "[]" "[]" toy_connect "ServeMITM ''example.org'' p" s']
      r0 r1 r2 acc S limiter_inv_start [OF sem_lawful_counter, of 1] sem_lawful_counter bart_lawful_list bm_lawful_list
    unfolding env by (simp add: toy_server_def toy_env_def NewScheduleRules_def served_permit_def)
  moreover have "ls_permits (sv_limiter (toy_server [''10.0.0.0/24''])) = []" by code_simp
  ultimately show ?thesis using S by auto
qed

end
