(* ===== verification/Relay.thy ===== *)
theory Relay
  imports Audit_Scope Dialing
begin

text \<open>
  The exchange loop of \<open>proxy/relay.go\<close> inside an intercepted tunnel:
  \<open>relayHTTPConnLease\<close> as \<open>relayHTTPLease\<close> calls it, with the preparation of the
  request, the policy checks, the audit scope, the WebSocket, HTTP/2 and
  HTTP/1.1 branches, and the lease of the upstream connection.  What the peers,
  the pool and the deadlines do, and what the two streaming writers report, is
  the input of an iteration; what the relay does is a trace of events.
\<close>

section \<open>Requests\<close>

definition headerContainsToken :: "string list \<Rightarrow> string \<Rightarrow> bool" where
  "headerContainsToken values token = list_ex (\<lambda>v. list_ex (\<lambda>part. equal_fold (trim_space part) token) (split_on comma v)) values"

definition isWebSocketUpgrade :: "request option \<Rightarrow> bool" where
  "isWebSocketUpgrade ro =
     (case ro of
        None \<Rightarrow> False
      | Some req \<Rightarrow>
          equal_fold (req_method req) ''GET'' \<and> headerContainsToken (header_Values (req_header req) ''Connection'') ''upgrade'' \<and>
          equal_fold (trim_space (header_Get (req_header req) ''Upgrade'')) ''websocket'')"

definition sanitizeWebSocketRequest :: "request \<Rightarrow> request" where
  "sanitizeWebSocketRequest req = req\<lparr>req_header := foldl header_Del (req_header req) [''Proxy-Connection'', ''X-Forwarded-For'', ''Via'', ''X-Real-IP'']\<rparr>"

definition SanitizeHeaders :: "request \<Rightarrow> request" where
  "SanitizeHeaders req =
     req\<lparr>req_header := foldl header_Del (req_header req) [''Connection'', ''Keep-Alive'', ''Proxy-Connection'', ''X-Forwarded-For'', ''Via'', ''X-Real-IP'']\<rparr>"

definition normalizeRequestURL :: "request \<Rightarrow> request" where
  "normalizeRequestURL req =
     (case req_url req of
        None \<Rightarrow> req
      | Some u \<Rightarrow> if u_scheme u \<noteq> [] then req\<lparr>req_url := Some (u\<lparr>u_scheme := [], u_host := []\<rparr>)\<rparr> else req)"

definition rewrite_request_url :: "go_lib \<Rightarrow> 't Policy option \<Rightarrow> request \<Rightarrow> request" where
  "rewrite_request_url lib po req =
     (case po of
        None \<Rightarrow> req
      | Some p \<Rightarrow>
          if p_urls p = None then req
          else let (rewrittenURL, modified) = RewriteURL lib (p_urls p) (canonicalPolicyURL (Some req) ''https'')
               in if modified
                  then (case url_Parse lib rewrittenURL of Some u \<Rightarrow> req\<lparr>req_url := Some u, req_host := u_host u\<rparr> | None \<Rightarrow> req)
                  else req)"

definition prepare_request :: "go_lib \<Rightarrow> 't Policy option \<Rightarrow> request \<Rightarrow> request" where
  "prepare_request lib po req =
     (let req = (if isWebSocketUpgrade (Some req) then req else SanitizeHeaders req);
          req = (case po of
                   None \<Rightarrow> req
                 | Some p \<Rightarrow>
                     (let h = RewriteRequestHeaders po (req_header req); req = req\<lparr>req_header := h\<rparr>
                      in req\<lparr>req_header := AddRequestHeaders po h (canonicalPolicyURL (Some req) ''https'')\<rparr>))
      in rewrite_request_url lib po (normalizeRequestURL req))"

definition redirect_of :: "'t Policy option \<Rightarrow> request \<Rightarrow> PolicyDecision option" where
  "redirect_of po req =
     (case po of
        None \<Rightarrow> None
      | Some p \<Rightarrow>
          if p_urls p = None then None
          else let (dec, redirected) = RedirectDecision (p_urls p) (canonicalPolicyURL (Some req) ''https'') in if redirected then Some dec else None)"

definition exchange_host :: "request \<Rightarrow> string" where
  "exchange_host req =
     (case req_url req of Some u \<Rightarrow> if url_Hostname u \<noteq> [] then url_Hostname u else req_host req | None \<Rightarrow> req_host req)"

section \<open>Policy hits\<close>

text \<open>The match of the log phrases that a streaming writer left in the request's context.\<close>

record LogPhraseMatch =
  pm_Matched :: bool
  pm_Suppressed :: bool
  pm_MatchType :: string
  pm_Value :: string

definition phrase_verdict :: "LogPhraseMatch option \<Rightarrow> bool option" where
  "phrase_verdict m =
     (case m of None \<Rightarrow> None | Some pm \<Rightarrow> if pm_Suppressed pm then Some False else if pm_Matched pm then Some True else None)"

definition hit_host :: "request \<Rightarrow> string" where
  "hit_host req =
     (let host = (if req_host req = [] then (case req_url req of Some u \<Rightarrow> u_host u | None \<Rightarrow> []) else req_host req)
      in case req_url req of Some u \<Rightarrow> if url_Hostname u \<noteq> [] then url_Hostname u else host | None \<Rightarrow> host)"

text \<open>\<open>tls\<close>: whether the request has TLS state; \<open>respPhrases\<close>: the context of the response's request, where there is one.\<close>

definition isPolicyHit ::
  "go_lib \<Rightarrow> 't bart \<Rightarrow> bool \<Rightarrow> request option \<Rightarrow> LogPhraseMatch option \<Rightarrow> LogPhraseMatch option \<Rightarrow> PolicyDecision \<Rightarrow> PolicyDecision \<Rightarrow> 't Policy option \<Rightarrow> bool option" where
  "isPolicyHit lib bt tls ro reqPhrases respPhrases reqDec respDec po =
     (if Blocked reqDec \<or> Blocked respDec then Some True
      else case ro of
             None \<Rightarrow> Some False
           | Some req \<Rightarrow> do {
               v \<leftarrow> (case po of None \<Rightarrow> Some no_log | Some p \<Rightarrow> EvaluateLogging lib bt po (hit_host req) ro (if tls then ''https'' else ''http''));
               Some (if suppressed v then False
                     else if shouldLog v then True
                     else case phrase_verdict reqPhrases of
                            Some b \<Rightarrow> b
                          | None \<Rightarrow> (case phrase_verdict respPhrases of Some b \<Rightarrow> b | None \<Rightarrow> False)) })"

definition determineAction ::
  "go_lib \<Rightarrow> 't bart \<Rightarrow> bool \<Rightarrow> request option \<Rightarrow> LogPhraseMatch option \<Rightarrow> LogPhraseMatch option \<Rightarrow> PolicyDecision \<Rightarrow> PolicyDecision \<Rightarrow> 't Policy option \<Rightarrow> string option" where
  "determineAction lib bt tls ro reqPhrases respPhrases reqDec respDec po =
     (if Blocked reqDec \<or> Blocked respDec then Some ''blocked''
      else map_option (\<lambda>hit. if hit then ''audited'' else ''allowed'') (isPolicyHit lib bt tls ro reqPhrases respPhrases reqDec respDec po))"

definition isHostH2 :: "(string \<times> bool) list option \<Rightarrow> string \<Rightarrow> bool" where
  "isHostH2 h2Hosts host =
     (case h2Hosts of None \<Rightarrow> False | Some m \<Rightarrow> (case map_of m host of None \<Rightarrow> False | Some b \<Rightarrow> b))"

section \<open>One exchange\<close>

datatype acquire_result = Acq_lease nat | Acq_policy PolicyDecision | Acq_h2 | Acq_fail gate_error

datatype deadline_point = DL_local_read | DL_local_write | DL_upstream_write | DL_upstream_read

text \<open>The input of one iteration of the loop.\<close>

record exchange_io =
  io_read :: "(request \<times> bool) result"
  io_timeout :: bool
  io_deadline :: "deadline_point \<Rightarrow> gate_error option"
  io_now :: int
  io_acquire :: acquire_result
  io_h2Hosts :: "(string \<times> bool) list option"
  io_sampled_out :: bool
  io_write_request :: "PolicyDecision \<times> gate_error option"
  io_response :: "(response \<times> bool) result"
  io_write_response :: "PolicyDecision \<times> gate_error option"
  io_reqPhrases :: "LogPhraseMatch option"
  io_respPhrases :: "LogPhraseMatch option"
  io_buffered :: nat
  io_websocket :: "gate_error option"
  io_h2_response :: "response result"

record ('t, 'av) relay_opts =
  ro_lib :: go_lib
  ro_bart :: "'t bart"
  ro_Policy :: "'t Policy option"
  ro_scope :: "'av scope_options"
  ro_RoundTripH2 :: bool
  ro_HTTP3 :: "string option"
  ro_sampling :: bool
  ro_DumpOnPolicyHit :: bool

datatype 'av relay_event =
    E_acquire nat
  | E_release nat bool
  | E_request nat request
  | E_h2_request request
  | E_websocket nat request
  | E_response response "'av relay_filter" bool
  | E_block_page
  | E_redirect string
  | E_log
  | E_log_blocked PolicyDecision
  | E_dump string string

record relay_state =
  rl_lease :: "nat option"
  rl_exchanges :: nat
  rl_audit :: "AuditScope option"

text \<open>The result of an iteration: its events, the next state, and the value returned, where the loop ends.\<close>

type_synonym 'av exchange_result = "'av relay_event list \<times> relay_state \<times> gate_error option option"

definition releaseCurrent :: "bool \<Rightarrow> relay_state \<Rightarrow> 'av relay_event list \<times> relay_state" where
  "releaseCurrent reusable s =
     (case rl_lease s of None \<Rightarrow> ([], s) | Some n \<Rightarrow> ([E_release n reusable], s\<lparr>rl_lease := None\<rparr>))"

definition relay_return :: "'av relay_event list \<Rightarrow> gate_error option \<Rightarrow> relay_state \<Rightarrow> 'av exchange_result" where
  "relay_return evs err s = (let (rel, s) = releaseCurrent False s in (evs @ rel, s, Some err))"

text \<open>\<open>setWriteDeadline\<close> of the client before a page is written: its error ends the loop, and so does the page.\<close>

definition local_page :: "exchange_io \<Rightarrow> 'av relay_event list \<Rightarrow> 'av relay_event \<Rightarrow> relay_state \<Rightarrow> 'av exchange_result" where
  "local_page io evs page s =
     (case io_deadline io DL_local_write of Some e \<Rightarrow> relay_return evs (Some e) s | None \<Rightarrow> relay_return (evs @ [page]) None s)"

definition strip_and_advertise :: "string option \<Rightarrow> header \<Rightarrow> header" where
  "strip_and_advertise port h =
     (let h = (case fst (stripHTTP3Advertising (Some h)) of Some h \<Rightarrow> h | None \<Rightarrow> [])
      in case port of None \<Rightarrow> h | Some p \<Rightarrow> header_Set h ''Alt-Svc'' (''h3=\":'' @ p @ ''\"; ma=86400''))"

definition h2_request :: "string \<Rightarrow> request \<Rightarrow> request" where
  "h2_request host req = req\<lparr>req_url := map_option (\<lambda>u. u\<lparr>u_scheme := ''https'', u_host := host\<rparr>) (req_url req)\<rparr>"

definition doH2RoundTrip ::
  "('t, 'av) relay_opts \<Rightarrow> 'av scope_options \<Rightarrow> exchange_io \<Rightarrow> bool \<Rightarrow> bool \<Rightarrow> request \<Rightarrow> string \<Rightarrow> relay_state \<Rightarrow> 'av exchange_result option" where
  "doH2RoundTrip opts exOpts io localClose bypass req host s =
     (let req = h2_request host req;
          next = (\<lambda>evs s. if localClose then relay_return evs None s else (evs, s, None))
      in case req_url req of
           None \<Rightarrow> None
         | Some _ \<Rightarrow>
             (case io_h2_response io of
                Inl e \<Rightarrow> Some (relay_return [E_h2_request req] (Some e) s)
              | Inr resp \<Rightarrow>
                  (let resp = resp\<lparr>resp_header := strip_and_advertise (ro_HTTP3 opts) (resp_header resp)\<rparr>
                   in do {
                     dec \<leftarrow> (case ro_Policy opts of None \<Rightarrow> Some no_decision | Some p \<Rightarrow> EvaluateResponse (ro_lib opts) (Some p) (Some resp) ''https'');
                     if Blocked dec
                     then (case io_deadline io DL_local_write of
                             Some e \<Rightarrow> Some (relay_return [E_h2_request req, E_log_blocked dec] (Some e) s)
                           | None \<Rightarrow> Some (next [E_h2_request req, E_log_blocked dec, E_block_page] s))
                     else (case io_deadline io DL_local_write of
                             Some e \<Rightarrow> Some (relay_return [E_h2_request req] (Some e) s)
                           | None \<Rightarrow>
                               (let (decision, err) = io_write_response io;
                                    evs = [E_h2_request req, E_response resp (so_Filter exOpts) bypass]
                                in case err of
                                     Some e \<Rightarrow> Some (relay_return (evs @ (if Blocked decision then [E_log_blocked decision] else [])) (Some e) s)
                                   | None \<Rightarrow> Some (next evs (s\<lparr>rl_exchanges := rl_exchanges s + 1\<rparr>)))) })))"

text \<open>The upstream connection: the one at hand, or a new lease.\<close>

definition with_upstream ::
  "exchange_io \<Rightarrow> 'av exchange_result option \<Rightarrow> ('av relay_event list \<Rightarrow> nat \<Rightarrow> relay_state \<Rightarrow> 'av exchange_result option) \<Rightarrow> relay_state \<Rightarrow> 'av exchange_result option" where
  "with_upstream io on_h2 k s =
     (case rl_lease s of
        Some n \<Rightarrow> k [] n s
      | None \<Rightarrow>
          (case io_acquire io of
             Acq_lease n \<Rightarrow> k [E_acquire n] n (s\<lparr>rl_lease := Some n\<rparr>)
           | Acq_policy d \<Rightarrow> Some (local_page io [E_log_blocked d] E_block_page s)
           | Acq_h2 \<Rightarrow> on_h2
           | Acq_fail e \<Rightarrow> Some (relay_return [] (Some e) s)))"

definition websocket_exchange :: "exchange_io \<Rightarrow> request \<Rightarrow> relay_state \<Rightarrow> 'av exchange_result option" where
  "websocket_exchange io req s =
     with_upstream io (Some (relay_return [] (Some (Failure ''websocket over h2 not supported by upstream'')) s))
       (\<lambda>evs n s. let (rel, s) = releaseCurrent False s
          in Some (evs @ [E_websocket n (normalizeRequestURL (sanitizeWebSocketRequest req))] @ rel, s, Some (io_websocket io))) s"

text \<open>The end of an exchange that got a response: logging, dumps, and the fate of the connections.\<close>

definition finish_exchange ::
  "('t, 'av) relay_opts \<Rightarrow> 'av scope_options \<Rightarrow> exchange_io \<Rightarrow> bool \<Rightarrow> bool \<Rightarrow> request \<Rightarrow> PolicyDecision \<Rightarrow> 'av relay_event list \<Rightarrow> relay_state \<Rightarrow> 'av exchange_result option" where
  "finish_exchange opts exOpts io localClose respClose req reqDec evs s =
     (let (respDec, err) = io_write_response io;
          lib = ro_lib opts; bt = ro_bart opts;
          dumps = (\<lambda>action. if so_DumpDir exOpts \<noteq> [] then [E_dump ''req'' action, E_dump ''resp'' action] else [])
      in do {
        policyHit \<leftarrow> isPolicyHit lib bt False (Some req) (io_reqPhrases io) (io_respPhrases io) reqDec respDec (ro_Policy opts);
        dumped \<leftarrow> (if \<not> ro_DumpOnPolicyHit opts \<or> policyHit
          then map_option dumps (determineAction lib bt False (Some req) (io_reqPhrases io) (io_respPhrases io) reqDec respDec (ro_Policy opts))
          else Some []);
        case err of
          Some e \<Rightarrow> Some (relay_return (evs @ (if Blocked respDec then [E_log_blocked respDec] else []) @ dumped) (Some e) s)
        | None \<Rightarrow>
            (let evs = evs @ [if Blocked respDec then E_log_blocked respDec else E_log] @ dumped;
                 s = s\<lparr>rl_exchanges := rl_exchanges s + 1\<rparr>;
                 upstreamReusable = (\<not> respClose \<and> io_buffered io = 0)
             in if localClose \<or> respClose
                then let (rel, s) = releaseCurrent upstreamReusable s in Some (evs @ rel, s, Some None)
                else Some (evs, s, None)) })"

definition http1_exchange ::
  "('t, 'av) relay_opts \<Rightarrow> 'av scope_options \<Rightarrow> exchange_io \<Rightarrow> bool \<Rightarrow> bool \<Rightarrow> request \<Rightarrow> 'av relay_event list \<Rightarrow> nat \<Rightarrow> relay_state \<Rightarrow> 'av exchange_result option" where
  "http1_exchange opts exOpts io localClose bypass req evs n s =
     (let exOpts = (if so_LogBodies (ro_scope opts) \<and> ro_sampling opts \<and> io_sampled_out io then exOpts\<lparr>so_LogBodies := False, so_DumpDir := []\<rparr> else exOpts);
          reqDump = (\<lambda>action. if so_DumpDir exOpts \<noteq> [] then [E_dump ''req'' action] else []);
          unlessHit = (\<lambda>evs. if ro_DumpOnPolicyHit opts then [] else evs);
          (reqDec, werr) = io_write_request io; sent = evs @ [E_request n req]
      in case io_deadline io DL_upstream_write of
           Some e \<Rightarrow> Some (relay_return evs (Some e) s)
         | None \<Rightarrow>
           (case werr of
              Some e \<Rightarrow> do {
                dumped \<leftarrow> (if \<not> ro_DumpOnPolicyHit opts \<or> Blocked reqDec
                  then map_option reqDump (determineAction (ro_lib opts) (ro_bart opts) False (Some req) (io_reqPhrases io) None reqDec no_decision (ro_Policy opts))
                  else Some []);
                Some (relay_return (sent @ dumped) (Some e) s) }
            | None \<Rightarrow>
              if Blocked reqDec then Some (local_page io (sent @ [E_log_blocked reqDec] @ reqDump ''blocked'') E_block_page s)
              else case io_deadline io DL_upstream_read of
                Some e \<Rightarrow> Some (relay_return (sent @ unlessHit (reqDump ''allowed'')) (Some e) s)
              | None \<Rightarrow>
                (case io_response io of
                   Inl e \<Rightarrow> Some (relay_return (sent @ unlessHit (reqDump ''allowed'')) (Some e) s)
                 | Inr (resp, respClose) \<Rightarrow>
                   (let h = (case ro_Policy opts of None \<Rightarrow> resp_header resp | Some p \<Rightarrow> RewriteResponseHeaders (Some p) (resp_header resp));
                        resp = resp\<lparr>resp_request := Some req, resp_header := strip_and_advertise (ro_HTTP3 opts) h\<rparr>
                    in do {
                      dec \<leftarrow> (case ro_Policy opts of None \<Rightarrow> Some no_decision | Some p \<Rightarrow> EvaluateResponse (ro_lib opts) (Some p) (Some resp) ''https'');
                      if Blocked dec then Some (local_page io (sent @ [E_log_blocked dec] @ reqDump ''blocked'') E_block_page s)
                      else case io_deadline io DL_local_write of
                        Some e \<Rightarrow> Some (relay_return (sent @ unlessHit (reqDump ''allowed'')) (Some e) s)
                      | None \<Rightarrow> finish_exchange opts exOpts io localClose respClose req reqDec (sent @ [E_response resp (so_Filter exOpts) bypass]) s }))))"

definition relay_exchange :: "('t, 'av) relay_opts \<Rightarrow> exchange_io \<Rightarrow> relay_state \<Rightarrow> 'av exchange_result option" where
  "relay_exchange opts io s =
     (case io_deadline io DL_local_read of
        Some e \<Rightarrow> Some (relay_return [] (Some e) s)
      | None \<Rightarrow>
        (case io_read io of
           Inl e \<Rightarrow>
             if e = io_EOF \<or> rl_exchanges s > 0 \<and> io_timeout io
             then let (rel, s) = releaseCurrent (io_buffered io = 0) s in Some (rel, s, Some None)
             else Some (relay_return [] (Some e) s)
         | Inr (req0, localClose) \<Rightarrow>
           (let req = prepare_request (ro_lib opts) (ro_Policy opts) req0; host = exchange_host req
            in case redirect_of (ro_Policy opts) req of
                 Some dec \<Rightarrow> Some (local_page io [E_log_blocked dec] (E_redirect (RedirectURL dec)) s)
               | None \<Rightarrow> do {
                   dec \<leftarrow> EvaluateRequest (ro_lib opts) (ro_bart opts) (ro_Policy opts) host (Some req) ''https'';
                   if Blocked dec then Some (local_page io [E_log_blocked dec] E_block_page s)
                   else do {
                     (sd, audit) \<leftarrow> (case rl_audit s of
                        None \<Rightarrow> Some (root_decision [] [], None)
                      | Some scope \<Rightarrow> map_option (map_prod id Some) (AuditScope_Decide (ro_lib opts) (Some req) host (io_now io) scope));
                     let s = s\<lparr>rl_audit := audit\<rparr>; exOpts = ForAuditScope sd (ro_scope opts); bypass = BypassFilters dec in
                     if isWebSocketUpgrade (Some req0) then websocket_exchange io req s
                     else if ro_RoundTripH2 opts \<and> isHostH2 (io_h2Hosts io) host then doH2RoundTrip opts exOpts io localClose bypass req host s
                     else with_upstream io
                       (if ro_RoundTripH2 opts then doH2RoundTrip opts exOpts io localClose bypass req host s
                        else Some (relay_return [] (Some (Failure ''dial upstream'')) s))
                       (http1_exchange opts exOpts io localClose bypass req) s } })))"

fun relayHTTPLease :: "('t, 'av) relay_opts \<Rightarrow> exchange_io list \<Rightarrow> relay_state \<Rightarrow> 'av exchange_result option" where
  "relayHTTPLease opts [] s = Some ([], s, None)"
| "relayHTTPLease opts (io # ios) s =
     (case relay_exchange opts io s of
        None \<Rightarrow> None
      | Some (evs, s, Some err) \<Rightarrow> Some (evs, s, Some err)
      | Some (evs, s, None) \<Rightarrow> map_option (\<lambda>(evs', r). (evs @ evs', r)) (relayHTTPLease opts ios s))"


section \<open>What every trace satisfies\<close>

definition approved :: "('t, 'av) relay_opts \<Rightarrow> request \<Rightarrow> bool" where
  "approved opts r \<longleftrightarrow>
     (\<exists>d. EvaluateRequest (ro_lib opts) (ro_bart opts) (ro_Policy opts) (exchange_host r) (Some r) ''https'' = Some d \<and> \<not> Blocked d)"

definition event_ok :: "('t, 'av) relay_opts \<Rightarrow> 'av relay_event \<Rightarrow> bool" where
  "event_ok opts ev \<longleftrightarrow>
     (case ev of
        E_request n r \<Rightarrow> approved opts r
      | E_h2_request r \<Rightarrow> \<exists>r'. approved opts r' \<and> r = h2_request (exchange_host r') r'
      | E_websocket n r \<Rightarrow> \<exists>r'. approved opts r' \<and> r = normalizeRequestURL (sanitizeWebSocketRequest r')
      | E_response resp f bypass \<Rightarrow>
          (\<exists>d. EvaluateResponse (ro_lib opts) (ro_Policy opts) (Some resp) ''https'' = Some d \<and> \<not> Blocked d) \<and>
          (\<exists>sd. f = so_Filter (ForAuditScope sd (ro_scope opts))) \<and>
          (bypass \<longrightarrow> (\<exists>r d. EvaluateRequest (ro_lib opts) (ro_bart opts) (ro_Policy opts) (exchange_host r) (Some r) ''https'' = Some d \<and> BypassFilters d))
      | _ \<Rightarrow> True)"

text \<open>
  The life of a lease: one at a time, requests on it only, and a release.  The
  flag says that a request on it is unanswered, in which case it is not given
  back for reuse.
\<close>

definition lease_step :: "(nat \<times> bool) option \<Rightarrow> 'av relay_event \<Rightarrow> (nat \<times> bool) option option" where
  "lease_step h ev =
     (case ev of
        E_acquire n \<Rightarrow> if h = None then Some (Some (n, False)) else None
      | E_release n reusable \<Rightarrow> (case h of Some (m, pending) \<Rightarrow> if m = n \<and> \<not> (reusable \<and> pending) then Some None else None | None \<Rightarrow> None)
      | E_request n r \<Rightarrow> (case h of Some (m, pending) \<Rightarrow> if m = n then Some (Some (m, True)) else None | None \<Rightarrow> None)
      | E_websocket n r \<Rightarrow> (case h of Some (m, pending) \<Rightarrow> if m = n then Some (Some (m, True)) else None | None \<Rightarrow> None)
      | E_response r f b \<Rightarrow> Some (map_option (\<lambda>(m, _). (m, False)) h)
      | _ \<Rightarrow> Some h)"

fun lease_run :: "(nat \<times> bool) option \<Rightarrow> 'av relay_event list \<Rightarrow> (nat \<times> bool) option option" where
  "lease_run h [] = Some h"
| "lease_run h (ev # evs) = (case lease_step h ev of None \<Rightarrow> None | Some h' \<Rightarrow> lease_run h' evs)"

lemma lease_run_append: "lease_run h (a @ b) = Option.bind (lease_run h a) (\<lambda>h'. lease_run h' b)"
  by (induction a arbitrary: h) (auto split: option.splits)

definition neutral :: "'av relay_event \<Rightarrow> bool" where
  "neutral ev \<longleftrightarrow> (case ev of E_log \<Rightarrow> True | E_log_blocked _ \<Rightarrow> True | E_dump _ _ \<Rightarrow> True | E_block_page \<Rightarrow> True | E_redirect _ \<Rightarrow> True | _ \<Rightarrow> False)"

lemma neutral_step: "neutral ev \<Longrightarrow> lease_step h ev = Some h \<and> event_ok opts ev"
  by (cases ev) (simp_all add: neutral_def lease_step_def event_ok_def)

lemma neutral_run: "list_all neutral evs \<Longrightarrow> lease_run h evs = Some h \<and> list_all (event_ok opts) evs"
  by (induction evs) (auto simp: neutral_step)

text \<open>A trace that is correct so far, from the lease \<open>h0\<close>, in a state with the lease \<open>h\<close>.\<close>

definition trace_ok :: "('t, 'av) relay_opts \<Rightarrow> (nat \<times> bool) option \<Rightarrow> 'av relay_event list \<Rightarrow> (nat \<times> bool) option \<Rightarrow> bool" where
  "trace_ok opts h0 evs h \<longleftrightarrow> list_all (event_ok opts) evs \<and> lease_run h0 evs = Some h"

definition idle_lease :: "relay_state \<Rightarrow> (nat \<times> bool) option" where
  "idle_lease s = map_option (\<lambda>n. (n, False)) (rl_lease s)"

definition exchange_ok :: "('t, 'av) relay_opts \<Rightarrow> (nat \<times> bool) option \<Rightarrow> 'av exchange_result \<Rightarrow> bool" where
  "exchange_ok opts h0 res \<longleftrightarrow> (case res of (evs, s, r) \<Rightarrow> trace_ok opts h0 evs (idle_lease s) \<and> (r \<noteq> None \<longrightarrow> rl_lease s = None))"

lemma trace_ok_Nil: "trace_ok opts h [] h"
  by (simp add: trace_ok_def)

lemma trace_ok_neutral: "trace_ok opts h0 evs h \<Longrightarrow> list_all neutral evs' \<Longrightarrow> trace_ok opts h0 (evs @ evs') h"
  using neutral_run [of evs' h opts] by (auto simp: trace_ok_def lease_run_append)

lemma trace_ok_step: "trace_ok opts h0 evs h \<Longrightarrow> event_ok opts ev \<Longrightarrow> lease_step h ev = Some h' \<Longrightarrow> trace_ok opts h0 (evs @ [ev]) h'"
  by (auto simp: trace_ok_def lease_run_append)

lemma releaseCurrent_ok:
  assumes "trace_ok opts h0 evs h" "map_option fst h = rl_lease s" "reusable \<longrightarrow> h = idle_lease s" "releaseCurrent reusable s = (rel, s')"
  shows "trace_ok opts h0 (evs @ rel) None \<and> rl_lease s' = None"
proof (cases "rl_lease s")
  case None
  then show ?thesis using assms by (auto simp: releaseCurrent_def)
next
  case (Some n)
  then obtain p where h: "h = Some (n, p)" using assms(2) by auto
  have "rel = [E_release n reusable]" "s' = s\<lparr>rl_lease := None\<rparr>" using Some assms(4) by (auto simp: releaseCurrent_def)
  moreover have "lease_step h (E_release n reusable) = Some None" using h assms(3) Some by (auto simp: lease_step_def idle_lease_def)
  ultimately show ?thesis using trace_ok_step [OF assms(1), of "E_release n reusable" None] by (simp add: event_ok_def)
qed

lemma relay_return_ok:
  assumes "trace_ok opts h0 evs h" "map_option fst h = rl_lease s"
  shows "exchange_ok opts h0 (relay_return evs err s)"
proof -
  obtain rel s' where r: "(releaseCurrent False s :: 'b relay_event list \<times> relay_state) = (rel, s')" by fastforce
  then show ?thesis using releaseCurrent_ok [OF assms, of False rel s'] by (simp add: relay_return_def exchange_ok_def idle_lease_def)
qed

lemma local_page_ok:
  assumes "trace_ok opts h0 evs h" "map_option fst h = rl_lease s" "neutral page"
  shows "exchange_ok opts h0 (local_page io evs page s)"
  using relay_return_ok [OF assms(1,2)] relay_return_ok [OF trace_ok_neutral [OF assms(1), of "[page]"] assms(2)] assms(3)
  by (simp add: local_page_def split: option.split)

lemma idle_lease_fst: "map_option fst (idle_lease s) = rl_lease s"
  by (cases "rl_lease s") (simp_all add: idle_lease_def)

text \<open>What the branches may rely on once the request has passed the policy.\<close>

definition checked :: "('t, 'av) relay_opts \<Rightarrow> 'av scope_options \<Rightarrow> bool \<Rightarrow> request \<Rightarrow> bool" where
  "checked opts exOpts bypass r \<longleftrightarrow>
     approved opts r \<and> (\<exists>sd. so_Filter exOpts = so_Filter (ForAuditScope sd (ro_scope opts))) \<and>
     (bypass \<longrightarrow> (\<exists>r d. EvaluateRequest (ro_lib opts) (ro_bart opts) (ro_Policy opts) (exchange_host r) (Some r) ''https'' = Some d \<and> BypassFilters d))"

lemma response_checked:
  "(case ro_Policy opts of None \<Rightarrow> Some no_decision | Some p \<Rightarrow> EvaluateResponse (ro_lib opts) (Some p) (Some resp) ''https'') =
   EvaluateResponse (ro_lib opts) (ro_Policy opts) (Some resp) ''https''"
  by (cases "ro_Policy opts") (simp_all add: EvaluateResponse_def)

lemma response_event_ok:
  assumes "checked opts exOpts bypass r" "EvaluateResponse (ro_lib opts) (ro_Policy opts) (Some resp) ''https'' = Some d" "\<not> Blocked d"
  shows "event_ok opts (E_response resp (so_Filter exOpts) bypass)"
  using assms by (auto simp: event_ok_def checked_def)

lemma doH2RoundTrip_ok:
  assumes c: "checked opts exOpts bypass r" and x: "doH2RoundTrip opts exOpts io localClose bypass r (exchange_host r) s = Some res"
  shows "exchange_ok opts (idle_lease s) res"
proof -
  let ?r = "h2_request (exchange_host r) r"
  have ev: "event_ok opts (E_h2_request ?r)" using c by (auto simp: event_ok_def checked_def)
  have t: "trace_ok opts (idle_lease s) [E_h2_request ?r] (idle_lease s)" using trace_ok_step [OF trace_ok_Nil ev] by (simp add: lease_step_def)
  note ret = relay_return_ok [OF t idle_lease_fst] relay_return_ok [OF trace_ok_neutral [OF t] idle_lease_fst]
  note x' = x [unfolded doH2RoundTrip_def Let_def response_checked]
  show ?thesis
  proof (cases "io_h2_response io")
    case (Inl e)
    then show ?thesis using x' ret(1) by (auto split: option.splits)
  next
    case (Inr resp0)
    define resp where "resp = resp0\<lparr>resp_header := strip_and_advertise (ro_HTTP3 opts) (resp_header resp0)\<rparr>"
    from x' Inr obtain d where d: "EvaluateResponse (ro_lib opts) (ro_Policy opts) (Some resp) ''https'' = Some d"
      by (auto simp: resp_def bind_eq_Some_conv split: option.splits)
    show ?thesis
    proof (cases "Blocked d")
      case True
      then have "(\<exists>e. res = relay_return ([E_h2_request ?r] @ [E_log_blocked d]) (Some e) s) \<or> res = relay_return ([E_h2_request ?r] @ [E_log_blocked d, E_block_page]) None s \<or>
        res = ([E_h2_request ?r] @ [E_log_blocked d, E_block_page], s, None)"
        using x' Inr d by (auto simp: resp_def split: option.splits if_splits)
      moreover have "exchange_ok opts (idle_lease s) ([E_h2_request ?r] @ [E_log_blocked d, E_block_page], s, None)"
        using trace_ok_neutral [OF t, of "[E_log_blocked d, E_block_page]"] by (simp add: exchange_ok_def neutral_def)
      ultimately show ?thesis using ret(2) by (auto simp: neutral_def)
    next
      case False
      let ?e = "E_response resp (so_Filter exOpts) bypass"
      have t2: "trace_ok opts (idle_lease s) ([E_h2_request ?r] @ [?e]) (idle_lease s)"
        by (rule trace_ok_step [OF t response_event_ok [OF c d False]]) (simp add: lease_step_def idle_lease_def option.map_comp comp_def)
      obtain decision err where w: "io_write_response io = (decision, err)" by fastforce
      have "(\<exists>e. res = relay_return [E_h2_request ?r] (Some e) s) \<or>
        (\<exists>e. res = relay_return (([E_h2_request ?r] @ [?e]) @ (if Blocked decision then [E_log_blocked decision] else [])) (Some e) s) \<or>
        res = relay_return ([E_h2_request ?r] @ [?e]) None (s\<lparr>rl_exchanges := rl_exchanges s + 1\<rparr>) \<or>
        res = ([E_h2_request ?r] @ [?e], s\<lparr>rl_exchanges := rl_exchanges s + 1\<rparr>, None)"
        using x' Inr d False w by (auto simp: resp_def split: option.splits if_splits)
      moreover have "exchange_ok opts (idle_lease s) (relay_return (([E_h2_request ?r] @ [?e]) @ (if Blocked decision then [E_log_blocked decision] else [])) (Some e) s)" for e
        by (rule relay_return_ok [OF trace_ok_neutral [OF t2] idle_lease_fst]) (simp add: neutral_def)
      moreover have "exchange_ok opts (idle_lease s) (relay_return ([E_h2_request ?r] @ [?e]) None (s\<lparr>rl_exchanges := rl_exchanges s + 1\<rparr>))"
        by (rule relay_return_ok [OF t2]) (simp add: idle_lease_fst)
      moreover have "exchange_ok opts (idle_lease s) ([E_h2_request ?r] @ [?e], s\<lparr>rl_exchanges := rl_exchanges s + 1\<rparr>, None)"
        using t2 by (simp add: exchange_ok_def idle_lease_def)
      ultimately show ?thesis using ret(1) by blast
    qed
  qed
qed

lemma with_upstream_ok:
  assumes x: "with_upstream io on_h2 k s = Some res"
    and h2: "\<And>res. on_h2 = Some res \<Longrightarrow> exchange_ok opts (idle_lease s) res"
    and k: "\<And>evs n s' res. k evs n s' = Some res \<Longrightarrow> rl_lease s' = Some n \<Longrightarrow> trace_ok opts (idle_lease s) evs (idle_lease s') \<Longrightarrow> exchange_ok opts (idle_lease s) res"
  shows "exchange_ok opts (idle_lease s) res"
proof (cases "rl_lease s")
  case (Some n)
  then show ?thesis using x k [of "[]" n s res] trace_ok_Nil [of opts "idle_lease s"] by (simp add: with_upstream_def)
next
  case None
  note t = trace_ok_Nil [of opts "idle_lease s"]
  show ?thesis
  proof (cases "io_acquire io")
    case (Acq_lease n)
    have "trace_ok opts (idle_lease s) ([] @ [E_acquire n]) (idle_lease (s\<lparr>rl_lease := Some n\<rparr>))"
      by (rule trace_ok_step [OF t]) (use None in \<open>simp_all add: event_ok_def lease_step_def idle_lease_def\<close>)
    then show ?thesis using x None Acq_lease k [of "[E_acquire n]" n "s\<lparr>rl_lease := Some n\<rparr>" res] by (simp add: with_upstream_def)
  next
    case (Acq_policy d)
    then show ?thesis using x None local_page_ok [OF trace_ok_neutral [OF t, of "[E_log_blocked d]"] idle_lease_fst, of E_block_page]
      by (auto simp: with_upstream_def neutral_def)
  next
    case Acq_h2
    then show ?thesis using x None h2 by (simp add: with_upstream_def)
  next
    case (Acq_fail e)
    then show ?thesis using x None relay_return_ok [OF t idle_lease_fst] by (auto simp: with_upstream_def)
  qed
qed

lemma websocket_exchange_ok:
  assumes "approved opts r" "websocket_exchange io r s = Some res"
  shows "exchange_ok opts (idle_lease s) res"
  using assms(2) unfolding websocket_exchange_def
proof (rule with_upstream_ok)
  fix res' :: "'b exchange_result"
  assume "Some (relay_return [] (Some (Failure ''websocket over h2 not supported by upstream'')) s) = Some res'"
  then show "exchange_ok opts (idle_lease s) res'" using relay_return_ok [OF trace_ok_Nil idle_lease_fst] by auto
next
  fix evs n s' and res' :: "'b exchange_result"
  assume x: "(let (rel, s) = releaseCurrent False s' in Some (evs @ [E_websocket n (normalizeRequestURL (sanitizeWebSocketRequest r))] @ rel, s, Some (io_websocket io))) = Some res'"
    and n: "rl_lease s' = Some n" and t: "trace_ok opts (idle_lease s) evs (idle_lease s')"
  let ?ev = "E_websocket n (normalizeRequestURL (sanitizeWebSocketRequest r))"
  have "trace_ok opts (idle_lease s) (evs @ [?ev]) (Some (n, True))"
    by (rule trace_ok_step [OF t]) (use assms(1) n in \<open>auto simp: event_ok_def lease_step_def idle_lease_def\<close>)
  moreover obtain rel s1 where rel: "(releaseCurrent False s' :: 'b relay_event list \<times> relay_state) = (rel, s1)" by fastforce
  ultimately have "trace_ok opts (idle_lease s) ((evs @ [?ev]) @ rel) None \<and> rl_lease s1 = None" using n by (intro releaseCurrent_ok) auto
  then show "exchange_ok opts (idle_lease s) res'" using x rel by (auto simp: exchange_ok_def idle_lease_def)
qed

lemma finish_exchange_ok:
  assumes t: "trace_ok opts h0 evs (idle_lease s)" and x: "finish_exchange opts exOpts io localClose respClose r reqDec evs s = Some res"
  shows "exchange_ok opts h0 res"
proof -
  obtain respDec err where w: "io_write_response io = (respDec, err)" by fastforce
  let ?dumps = "\<lambda>action. if so_DumpDir exOpts \<noteq> [] then [E_dump ''req'' action, E_dump ''resp'' action] else []"
  obtain hit dumped where
    d: "(if \<not> ro_DumpOnPolicyHit opts \<or> hit
          then map_option ?dumps (determineAction (ro_lib opts) (ro_bart opts) False (Some r) (io_reqPhrases io) (io_respPhrases io) reqDec respDec (ro_Policy opts))
          else Some []) = Some dumped" and
    x': "(case err of
          Some e \<Rightarrow> Some (relay_return (evs @ (if Blocked respDec then [E_log_blocked respDec] else []) @ dumped) (Some e) s)
        | None \<Rightarrow>
            if localClose \<or> respClose
            then case releaseCurrent (\<not> respClose \<and> io_buffered io = 0) (s\<lparr>rl_exchanges := rl_exchanges s + 1\<rparr>) of
                   (rel, s) \<Rightarrow> Some ((evs @ [if Blocked respDec then E_log_blocked respDec else E_log] @ dumped) @ rel, s, Some None)
            else Some (evs @ [if Blocked respDec then E_log_blocked respDec else E_log] @ dumped, s\<lparr>rl_exchanges := rl_exchanges s + 1\<rparr>, None)) = Some res"
    using x [unfolded finish_exchange_def w Let_def prod.case bind_eq_Some_conv] by blast
  have dn: "list_all neutral dumped" using d by (auto simp: neutral_def split: if_splits)
  have n: "list_all neutral ((if Blocked respDec then [E_log_blocked respDec] else []) @ dumped)"
    "list_all neutral ([if Blocked respDec then E_log_blocked respDec else E_log] @ dumped)" using dn by (simp_all add: neutral_def)
  show ?thesis
  proof (cases err)
    case (Some e)
    then show ?thesis using x' relay_return_ok [OF trace_ok_neutral [OF t n(1)] idle_lease_fst] by auto
  next
    case None
    let ?evs = "evs @ [if Blocked respDec then E_log_blocked respDec else E_log] @ dumped" and ?s = "s\<lparr>rl_exchanges := rl_exchanges s + 1\<rparr>"
    have t': "trace_ok opts h0 ?evs (idle_lease ?s)" using trace_ok_neutral [OF t n(2)] by (simp add: idle_lease_def)
    obtain rel s' where rel: "(releaseCurrent (\<not> respClose \<and> io_buffered io = 0) ?s :: 'b relay_event list \<times> relay_state) = (rel, s')" by fastforce
    have "trace_ok opts h0 (?evs @ rel) None \<and> rl_lease s' = None" by (rule releaseCurrent_ok [OF t' idle_lease_fst _ rel]) simp
    then have a: "exchange_ok opts h0 (?evs @ rel, s', Some None)" by (simp add: exchange_ok_def idle_lease_def)
    have b: "exchange_ok opts h0 (?evs, ?s, None)" using t' by (simp add: exchange_ok_def)
    have "res = (?evs @ rel, s', Some None) \<or> res = (?evs, ?s, None)" using x' None rel by (simp split: if_splits)
    then show ?thesis using a b by blast
  qed
qed

lemma http1_exchange_ok:
  assumes c: "checked opts exOpts bypass r" and t: "trace_ok opts h0 evs (idle_lease s)" and n: "rl_lease s = Some n"
    and x: "http1_exchange opts exOpts io localClose bypass r evs n s = Some res"
  shows "exchange_ok opts h0 res"
proof -
  define ex where "ex = (if so_LogBodies (ro_scope opts) \<and> ro_sampling opts \<and> io_sampled_out io then exOpts\<lparr>so_LogBodies := False, so_DumpDir := []\<rparr> else exOpts)"
  define dump where "dump = (\<lambda>action. if so_DumpDir ex \<noteq> [] then [E_dump ''req'' action :: 'b relay_event] else [])"
  define unless_hit where "unless_hit = (\<lambda>evs :: 'b relay_event list. if ro_DumpOnPolicyHit opts then [] else evs)"
  obtain reqDec werr where w: "io_write_request io = (reqDec, werr)" by fastforce
  note x' = x [unfolded http1_exchange_def Let_def response_checked, folded ex_def, folded dump_def, folded unless_hit_def, unfolded w prod.case]
  have cx: "checked opts ex bypass r" using c by (simp add: checked_def ex_def)
  have nd: "list_all neutral (dump a)" "list_all neutral (unless_hit (dump a))" for a by (simp_all add: dump_def unless_hit_def neutral_def)
  let ?sent = "evs @ [E_request n r]"
  have sent: "trace_ok opts h0 ?sent (Some (n, True))"
    by (rule trace_ok_step [OF t]) (use c n in \<open>auto simp: checked_def event_ok_def lease_step_def idle_lease_def\<close>)
  have fst_n: "map_option fst (Some (n, True)) = rl_lease s" using n by simp
  have ret: "exchange_ok opts h0 (relay_return (?sent @ es) err s)" if "list_all neutral es" for es err
    by (rule relay_return_ok [OF trace_ok_neutral [OF sent that] fst_n])
  have page: "exchange_ok opts h0 (local_page io (?sent @ es) E_block_page s)" if "list_all neutral es" for es
    by (rule local_page_ok [OF trace_ok_neutral [OF sent that] fst_n]) (simp add: neutral_def)
  show ?thesis
  proof (cases "io_deadline io DL_upstream_write")
    case (Some e)
    then show ?thesis using x' relay_return_ok [OF t idle_lease_fst] by auto
  next
    case ok1: None
    show ?thesis
    proof (cases werr)
      case (Some e)
      then obtain dumped where d: "(if \<not> ro_DumpOnPolicyHit opts \<or> Blocked reqDec
          then map_option dump (determineAction (ro_lib opts) (ro_bart opts) False (Some r) (io_reqPhrases io) None reqDec no_decision (ro_Policy opts))
          else Some []) = Some dumped" "res = relay_return (?sent @ dumped) (Some e) s"
        using x' unfolding ok1 Some option.case bind_eq_Some_conv by (elim exE conjE) (rule that, assumption, simp)
      have "list_all neutral dumped" using d(1) nd(1) by (auto split: if_splits)
      then show ?thesis using ret d(2) by blast
    next
      case ok2: None
      show ?thesis
      proof (cases "Blocked reqDec")
        case True
        then have "res = local_page io (?sent @ E_log_blocked reqDec # dump ''blocked'') E_block_page s" using x' ok1 ok2 by (auto simp: dump_def)
        then show ?thesis using page [of "E_log_blocked reqDec # dump ''blocked''"] nd by (simp add: neutral_def)
      next
        case ok3: False
        show ?thesis
        proof (cases "io_deadline io DL_upstream_read \<noteq> None \<or> (\<exists>e. io_response io = Inl e)")
          case True
          then obtain e where "res = relay_return (?sent @ unless_hit (dump ''allowed'')) (Some e) s"
            using x' ok1 ok2 ok3 by (auto simp: dump_def unless_hit_def split: option.splits)
          then show ?thesis using ret nd by blast
        next
          case ok4: False
          then obtain resp0 respClose where r0: "io_response io = Inr (resp0, respClose)" "io_deadline io DL_upstream_read = None" by (cases "io_response io") auto
          define resp where "resp = resp0\<lparr>resp_request := Some r, resp_header := strip_and_advertise (ro_HTTP3 opts)
            (case ro_Policy opts of None \<Rightarrow> resp_header resp0 | Some p \<Rightarrow> RewriteResponseHeaders (Some p) (resp_header resp0))\<rparr>"
          from x' ok1 ok2 ok3 r0 obtain d where d: "EvaluateResponse (ro_lib opts) (ro_Policy opts) (Some resp) ''https'' = Some d"
            and y: "(if Blocked d then Some (local_page io (?sent @ [E_log_blocked d] @ dump ''blocked'') E_block_page s)
              else case io_deadline io DL_local_write of
                Some e \<Rightarrow> Some (relay_return (?sent @ unless_hit (dump ''allowed'')) (Some e) s)
              | None \<Rightarrow> finish_exchange opts ex io localClose respClose r reqDec (?sent @ [E_response resp (so_Filter ex) bypass]) s) = Some res"
            unfolding resp_def dump_def unless_hit_def by (auto simp: bind_eq_Some_conv)
          have fin: "trace_ok opts h0 (?sent @ [E_response resp (so_Filter ex) bypass]) (idle_lease s)" if "\<not> Blocked d"
            by (rule trace_ok_step [OF sent response_event_ok [OF cx d that]]) (use n in \<open>simp add: lease_step_def idle_lease_def\<close>)
          show ?thesis
          proof (cases "Blocked d")
            case True
            then show ?thesis using y page [of "E_log_blocked d # dump ''blocked''"] nd by (auto simp: neutral_def)
          next
            case False
            then show ?thesis using y ret [OF nd(2)] finish_exchange_ok [OF fin] by (auto split: option.splits)
          qed
        qed
      qed
    qed
  qed
qed

lemma relay_exchange_ok:
  fixes opts :: "('t, 'av) relay_opts"
  assumes x: "relay_exchange opts io s = Some res"
  shows "exchange_ok opts (idle_lease s) res"
proof -
  note t = trace_ok_Nil [of opts "idle_lease s"]
  note ret = relay_return_ok [OF t idle_lease_fst]
  have page: "exchange_ok opts (idle_lease s) (local_page io [E_log_blocked d] p s)" if "neutral p" for d p
    using local_page_ok [OF trace_ok_neutral [OF t, of "[E_log_blocked d]"] idle_lease_fst that] by (simp add: neutral_def)
  show ?thesis
  proof (cases "io_deadline io DL_local_read")
    case (Some e)
    then show ?thesis using x ret by (auto simp: relay_exchange_def)
  next
    case ok1: None
    show ?thesis
    proof (cases "io_read io")
      case (Inl e)
      obtain rel s' where rel: "(releaseCurrent (io_buffered io = 0) s :: 'av relay_event list \<times> relay_state) = (rel, s')" by fastforce
      have "trace_ok opts (idle_lease s) ([] @ rel) None \<and> rl_lease s' = None" by (rule releaseCurrent_ok [OF t idle_lease_fst _ rel]) simp
      then have a: "exchange_ok opts (idle_lease s) (rel, s', Some None)" by (simp add: exchange_ok_def idle_lease_def)
      have "res = (rel, s', Some None) \<or> res = relay_return [] (Some e) s" using x ok1 Inl rel by (auto simp: relay_exchange_def split: if_splits)
      then show ?thesis using a ret by blast
    next
      case (Inr rc)
      obtain req0 localClose where rc: "io_read io = Inr (req0, localClose)" using Inr by (cases rc) auto
      define r where "r = prepare_request (ro_lib opts) (ro_Policy opts) req0"
      note y = x [unfolded relay_exchange_def ok1 rc option.case sum.case prod.case Let_def, folded r_def]
      show ?thesis
      proof (cases "redirect_of (ro_Policy opts) r")
        case (Some d)
        then show ?thesis using y page [of "E_redirect (RedirectURL d)" d] by (auto simp: neutral_def)
      next
        case None
        obtain d where d: "EvaluateRequest (ro_lib opts) (ro_bart opts) (ro_Policy opts) (exchange_host r) (Some r) ''https'' = Some d"
          using y None by (auto simp: bind_eq_Some_conv)
        show ?thesis
        proof (cases "Blocked d")
          case True
          then show ?thesis using y None d page [of E_block_page d] by (auto simp: neutral_def)
        next
          case False
          obtain sd audit where "(case rl_audit s of
                        None \<Rightarrow> Some (root_decision [] [], None)
                      | Some scope \<Rightarrow> map_option (map_prod id Some) (AuditScope_Decide (ro_lib opts) (Some r) (exchange_host r) (io_now io) scope)) = Some (sd, audit)"
            using y None d False by (auto simp: bind_eq_Some_conv)
          note z = y [unfolded None option.case d this, simplified, unfolded if_not_P [OF False]]
          let ?s = "s\<lparr>rl_audit := audit\<rparr>" and ?ex = "ForAuditScope sd (ro_scope opts)"
          have c: "checked opts ?ex (BypassFilters d) r" using d False by (auto simp: checked_def approved_def)
          have i: "idle_lease ?s = idle_lease s" by (simp add: idle_lease_def)
          note h2 = doH2RoundTrip_ok [OF c, of _ _ ?s, unfolded i]
          have ap: "approved opts r" using c by (simp add: checked_def)
          have h1: "exchange_ok opts (idle_lease ?s) res" if "with_upstream io
                       (if ro_RoundTripH2 opts then doH2RoundTrip opts ?ex io localClose (BypassFilters d) r (exchange_host r) ?s
                        else Some (relay_return [] (Some (Failure ''dial upstream'')) ?s))
                       (http1_exchange opts ?ex io localClose (BypassFilters d) r) ?s = Some res"
            using that
          proof (rule with_upstream_ok)
            fix res' assume "(if ro_RoundTripH2 opts then doH2RoundTrip opts ?ex io localClose (BypassFilters d) r (exchange_host r) ?s
                        else Some (relay_return [] (Some (Failure ''dial upstream'')) ?s)) = Some res'"
            then show "exchange_ok opts (idle_lease ?s) res'"
              using h2 i relay_return_ok [OF trace_ok_Nil [of opts "idle_lease ?s"] idle_lease_fst] by (auto split: if_splits)
          next
            fix evs n s' and res' :: "'av exchange_result"
            assume "http1_exchange opts ?ex io localClose (BypassFilters d) r evs n s' = Some res'" "rl_lease s' = Some n" "trace_ok opts (idle_lease ?s) evs (idle_lease s')"
            then show "exchange_ok opts (idle_lease ?s) res'" using http1_exchange_ok [OF c] by blast
          qed
          show ?thesis using z h2 h1 websocket_exchange_ok [OF ap, of io ?s] i by (auto split: if_splits)
        qed
      qed
    qed
  qed
qed

lemma relayHTTPLease_ok: "relayHTTPLease opts ios s = Some res \<Longrightarrow> exchange_ok opts (idle_lease s) res"
proof (induction ios arbitrary: s res)
  case Nil
  then show ?case using trace_ok_Nil [of opts "idle_lease s"] by (auto simp: exchange_ok_def)
next
  case (Cons io ios)
  then obtain evs s' r where x: "relay_exchange opts io s = Some (evs, s', r)" by (auto split: option.splits)
  have ok: "exchange_ok opts (idle_lease s) (evs, s', r)" by (rule relay_exchange_ok [OF x])
  show ?case
  proof (cases r)
    case (Some err)
    then show ?thesis using Cons(2) x ok by auto
  next
    case None
    then obtain evs' s'' r' where y: "relayHTTPLease opts ios s' = Some (evs', s'', r')" "res = (evs @ evs', s'', r')" using Cons(2) x by auto
    then show ?thesis using ok Cons(1) [OF y(1)] by (auto simp: exchange_ok_def trace_ok_def lease_run_append)
  qed
qed

definition relay_start :: "AuditScope option \<Rightarrow> relay_state" where
  "relay_start audit = \<lparr>rl_lease = None, rl_exchanges = 0, rl_audit = audit\<rparr>"


definition toy_opts :: "(prefix_ip list, unit) relay_opts" where
  "toy_opts = \<lparr>ro_lib = null_lib, ro_bart = bart_list, ro_Policy = None,
     ro_scope = \<lparr>so_LogBodies = False, so_DumpDir = ''/tmp'', so_Filter = FPassThrough, so_RequestFilter = None, so_RequestSubstitutionFilter = None\<rparr>,
     ro_RoundTripH2 = True, ro_HTTP3 = None, ro_sampling = False, ro_DumpOnPolicyHit = False\<rparr>"

definition toy_get :: request where
  "toy_get = \<lparr>req_method = ''GET'', req_url = Some \<lparr>u_scheme = [], u_host = [], u_escaped_path = ''/'', u_raw_query = []\<rparr>,
     req_host = ''a.org'', req_header = [(''Connection'', [''close''])]\<rparr>"

definition toy_io :: "bool \<Rightarrow> (string \<times> bool) list \<Rightarrow> exchange_io" where
  "toy_io close h2 = \<lparr>io_read = Inr (toy_get, close), io_timeout = False, io_deadline = (\<lambda>_. None), io_now = 0, io_acquire = Acq_lease 7,
     io_h2Hosts = Some h2, io_sampled_out = False, io_write_request = (no_decision, None),
     io_response = Inr (\<lparr>resp_status = 200, resp_header = [(''Alt-Svc'', [''h3''])], resp_request = None\<rparr>, False),
     io_write_response = (no_decision, None), io_reqPhrases = None, io_respPhrases = None, io_buffered = 0, io_websocket = None,
     io_h2_response = Inr \<lparr>resp_status = 200, resp_header = [], resp_request = None\<rparr>\<rparr>"


text \<open>An exchange over HTTP/2 upstream leaves no entry in the access log and no dump, whatever the options say.\<close>

lemma h2_exchange_unlogged:
  assumes "doH2RoundTrip opts exOpts io localClose bypass r host s = Some (evs, s', ret)"
  shows "E_log \<notin> set evs \<and> E_dump d a \<notin> set evs"
  using assms
  by (auto simp: doH2RoundTrip_def Let_def relay_return_def releaseCurrent_def bind_eq_Some_conv split: option.splits sum.splits prod.splits if_splits)

text \<open>A response blocked on that path is answered with a page that announces the end of the connection, but the loop goes on.\<close>

lemma h2_block_page_continues:
  assumes "EvaluateResponse (ro_lib opts) (ro_Policy opts) (Some (resp\<lparr>resp_header := strip_and_advertise (ro_HTTP3 opts) (resp_header resp)\<rparr>)) ''https'' = Some d" "Blocked d"
    and "io_h2_response io = Inr resp" "io_deadline io DL_local_write = None" "req_url r = Some u"
  shows "\<exists>evs. doH2RoundTrip opts exOpts io False bypass r host s = Some (evs, s, None) \<and> E_block_page \<in> set evs"
  using assms by (simp add: doH2RoundTrip_def Let_def response_checked h2_request_def)

end
