(* ===== verification/Antivirus.thy ===== *)
theory Antivirus
  imports Stream_Engine "HOL-Library.Word"
begin

text \<open>
  The antivirus of \<open>proxy/antivirus.go\<close>: the ClamAV client with the framing of
  its INSTREAM command, and the reader that downloads a body to a temporary
  file, trickles single bytes of it to the client while the download lasts,
  scans the file and delivers the rest.  The download and the trickling run
  concurrently; the model interleaves their steps.
\<close>

unbundle bit_operations_syntax

section \<open>The ClamAV client\<close>

record ScanResult =
  sc_Infected :: bool
  sc_Signature :: string

record 'sc Antivirus =
  av_Scanner :: 'sc
  av_TempDir :: string
  av_TrickleInterval :: int

definition NewAntivirus :: "'sc option \<Rightarrow> string \<Rightarrow> int \<Rightarrow> 'sc Antivirus option" where
  "NewAntivirus scanner tempDir trickleInterval =
     (case scanner of
        None \<Rightarrow> None
      | Some sc \<Rightarrow> Some \<lparr>av_Scanner = sc, av_TempDir = tempDir, av_TrickleInterval = (if trickleInterval < 0 then 0 else trickleInterval)\<rparr>)"

record ClamAVScanner =
  cs_Address :: string
  cs_Timeout :: int

definition NewClamAVScanner :: "string \<Rightarrow> int \<Rightarrow> ClamAVScanner option" where
  "NewClamAVScanner address timeout =
     (let address = trim_space address
      in if address = [] then None else Some \<lparr>cs_Address = address, cs_Timeout = (if timeout \<le> 0 then 30 * 1000000000 else timeout)\<rparr>)"

text \<open>\<open>strings.LastIndex\<close>; \<open>None\<close> where Go returns -1.\<close>

fun last_index_of :: "string \<Rightarrow> string \<Rightarrow> nat option" where
  "last_index_of [] sub = (if sub = [] then Some 0 else None)"
| "last_index_of (c # cs) sub =
     (case last_index_of cs sub of Some i \<Rightarrow> Some (Suc i) | None \<Rightarrow> if prefix sub (c # cs) then Some 0 else None)"

definition scan_clean :: ScanResult where
  "scan_clean = \<lparr>sc_Infected = False, sc_Signature = []\<rparr>"

definition parseClamAVResponse :: "string \<Rightarrow> ScanResult" where
  "parseClamAVResponse resp =
     (let resp = trim_right_if (\<lambda>c. c \<in> {CHR 0x00, CHR 0x0D, CHR 0x0A, CHR '' ''}) resp
      in if suffix '' OK'' resp then scan_clean
         else if suffix '' FOUND'' resp
         then (let name = trim_suffix '' FOUND'' resp;
                   name = (case last_index_of name '': '' of Some i \<Rightarrow> drop (i + 2) name | None \<Rightarrow> name)
               in \<lparr>sc_Infected = True, sc_Signature = name\<rparr>)
         else scan_clean)"

definition PutUint32 :: "32 word \<Rightarrow> string" where
  "PutUint32 v = map (\<lambda>i. char_of (unat (drop_bit i v))) [24, 16, 8, 0]"

text \<open>
  The connection and the file: the result of each library call, where \<open>ce_write k\<close>
  is the error of the \<open>k\<close>-th write and \<open>ce_reply\<close> what the daemon answers to the bytes it got.
\<close>

record clam_env =
  ce_dial :: "gate_error option"
  ce_deadline :: "gate_error option"
  ce_open :: "src_read list result"
  ce_write :: "nat \<Rightarrow> gate_error option"
  ce_reply :: "string \<Rightarrow> string result"

definition conn_write :: "clam_env \<Rightarrow> string \<Rightarrow> nat \<times> string \<Rightarrow> (nat \<times> string) result" where
  "conn_write env p ks = (case ce_write env (fst ks) of Some e \<Rightarrow> Inl e | None \<Rightarrow> Inr (Suc (fst ks), snd ks @ p))"

fun scan_chunks :: "clam_env \<Rightarrow> src_read list \<Rightarrow> nat \<times> string \<Rightarrow> (nat \<times> string) result" where
  "scan_chunks env [] ks = Inr ks"
| "scan_chunks env (Read_result d e # src) ks =
     rbind (if d \<noteq> [] then rbind (conn_write env (PutUint32 (of_nat (length d))) ks) (conn_write env d) else Inr ks) (\<lambda>ks.
     case e of None \<Rightarrow> scan_chunks env src ks | Some err \<Rightarrow> if err = io_EOF then Inr ks else Inl err)"

definition ScanFile :: "clam_env \<Rightarrow> ScanResult result" where
  "ScanFile env =
     (case ce_dial env of Some e \<Rightarrow> Inl e | None \<Rightarrow>
      case ce_deadline env of Some e \<Rightarrow> Inl e | None \<Rightarrow>
      rbind (conn_write env (''zINSTREAM'' @ [CHR 0x00]) (0, [])) (\<lambda>ks.
      rbind (ce_open env) (\<lambda>src.
      rbind (scan_chunks env src ks) (\<lambda>ks.
      rbind (conn_write env (PutUint32 0) ks) (\<lambda>ks.
      rbind (ce_reply env (snd ks)) (\<lambda>resp. Inr (parseClamAVResponse resp)))))))"

section \<open>What the daemon reads\<close>

text \<open>The INSTREAM protocol: sizes of four bytes, most significant first, each before its data, and a size of zero at the end.\<close>

definition get_uint32 :: "string \<Rightarrow> nat" where
  "get_uint32 bs = foldl (\<lambda>n b. n * 256 + of_char b) 0 bs"

fun instream_body :: "string \<Rightarrow> string option" where
  "instream_body (a # b # c # d # rest) =
     (let n = get_uint32 [a, b, c, d]
      in if n = 0 then (if rest = [] then Some [] else None)
         else if length rest < n then None
         else map_option ((@) (take n rest)) (instream_body (drop n rest)))"
| "instream_body _ = None"

declare instream_body.simps [simp del]

definition instream_file :: "string \<Rightarrow> string option" where
  "instream_file s = (if prefix (''zINSTREAM'' @ [CHR 0x00]) s then instream_body (drop 10 s) else None)"

text \<open>The bytes a script of reads yields, and its text when it ends without another error than \<open>EOF\<close>.\<close>

fun read_text :: "src_read list \<Rightarrow> string" where
  "read_text [] = []"
| "read_text (Read_result d None # src) = d @ read_text src"
| "read_text (Read_result d (Some e) # src) = d"

fun eof_text :: "src_read list \<Rightarrow> string option" where
  "eof_text [] = Some []"
| "eof_text (Read_result d None # src) = map_option ((@) d) (eof_text src)"
| "eof_text (Read_result d (Some e) # src) = (if e = io_EOF then Some d else None)"

lemma eof_text_read: "eof_text src = Some t \<Longrightarrow> read_text src = t"
  by (induction src arbitrary: t rule: eof_text.induct) (auto split: if_splits)

lemma four_bytes: "((u div 16777216 mod 256 * 256 + u div 65536 mod 256) * 256 + u div 256 mod 256) * 256 + u mod 256 = u" if "u < 4294967296" for u :: nat
proof -
  have d: "u div 65536 = u div 256 div 256" "u div 16777216 = u div 256 div 256 div 256" by (simp_all add: div_mult2_eq [symmetric])
  have "u div 256 div 256 div 256 < 256" using that by (simp add: div_mult2_eq [symmetric] less_mult_imp_div_less)
  then have "u div 256 div 256 div 256 mod 256 * 256 + u div 256 div 256 mod 256 = u div 256 div 256" by simp
  then show ?thesis unfolding d by simp
qed

lemma get_PutUint32: "get_uint32 (PutUint32 v) = unat v"
proof -
  have w: "unat (drop_bit n v) = unat v div 2 ^ n" for n unfolding unat_drop_bit_eq by (simp only: drop_bit_eq_div)
  have v: "unat v < 4294967296" using unsigned_less [of v] by simp
  then have "unat v div 16777216 mod 256 = unat v div 16777216" by (simp add: less_mult_imp_div_less)
  with four_bytes [OF v] show ?thesis by (simp add: get_uint32_def PutUint32_def w)
qed

lemma instream_frame:
  assumes "d \<noteq> []" "length d < 2 ^ 32"
  shows "instream_body (PutUint32 (of_nat (length d)) @ d @ rest) = map_option ((@) d) (instream_body rest)"
proof -
  obtain a b c e where p: "PutUint32 (of_nat (length d)) = [a, b, c, e]" by (simp add: PutUint32_def)
  have "get_uint32 [a, b, c, e] = length d" using get_PutUint32 [of "of_nat (length d)"] assms(2) p by (simp add: unat_of_nat)
  then show ?thesis using assms(1) by (simp add: p instream_body.simps)
qed

lemma instream_last: "instream_body (PutUint32 0) = Some []"
proof -
  obtain a b c e where p: "PutUint32 0 = [a, b, c, e]" by (simp add: PutUint32_def)
  have "get_uint32 [a, b, c, e] = 0" using get_PutUint32 [of 0] p by simp
  then show ?thesis by (simp add: p instream_body.simps)
qed

lemma conn_write_Inr: "conn_write env p ks = Inr ks' \<longleftrightarrow> ce_write env (fst ks) = None \<and> ks' = (Suc (fst ks), snd ks @ p)"
  by (auto simp: conn_write_def split: option.splits)

lemma scan_chunks_sent:
  assumes "list_all (\<lambda>r. length (rr_data r) \<le> 32768) src" "scan_chunks env src ks = Inr ks'"
  shows "\<exists>frames t. snd ks' = snd ks @ frames \<and> eof_text src = Some t \<and> (\<forall>rest. instream_body (frames @ rest) = map_option ((@) t) (instream_body rest))"
  using assms
proof (induction env src ks rule: scan_chunks.induct)
  case (1 env ks)
  then show ?case by (simp add: option.map_id0 id_def [symmetric] append_Nil [abs_def])
next
  case (2 env d e src ks)
  let ?f = "if d \<noteq> [] then PutUint32 (of_nat (length d)) @ d else []"
  from 2(3) obtain k1 where k1: "snd k1 = snd ks @ ?f"
    and rest: "(case e of None \<Rightarrow> scan_chunks env src k1 | Some err \<Rightarrow> if err = io_EOF then Inr k1 else Inl err) = Inr ks'"
    by (auto simp: rbind_eq_Inr conn_write_Inr split: if_splits)
  have f: "instream_body (?f @ rest) = map_option ((@) d) (instream_body rest)" for rest
    using 2(2) instream_frame [of d rest] by (auto simp: option.map_id0 id_def [symmetric] append_Nil [abs_def])
  show ?case
  proof (cases e)
    case (Some err)
    then show ?thesis using k1 rest f by (intro exI [of _ ?f] exI [of _ d]) (simp split: if_splits)
  next
    case None
    then have "scan_chunks env src k1 = Inr ks'" using rest by simp
    moreover have "list_all (\<lambda>r. length (rr_data r) \<le> 32768) src" using 2(2) by simp
    ultimately obtain frames t where ih: "snd ks' = snd k1 @ frames" "eof_text src = Some t"
      "\<And>rest. instream_body (frames @ rest) = map_option ((@) t) (instream_body rest)" using 2(1) [OF None] by blast
    have fr: "instream_body ((?f @ frames) @ rest) = map_option ((@) (d @ t)) (instream_body rest)" for rest
      using f [of "frames @ rest"] ih(3) [of rest] by (simp only: append_assoc) (cases "instream_body rest"; simp)
    show ?thesis by (rule exI [of _ "?f @ frames"], rule exI [of _ "d @ t"]) (intro conjI allI fr; use k1 ih None in simp)
  qed
qed

lemma scan_chunks_ok: "\<forall>k. ce_write env k = None \<Longrightarrow> eof_text src = Some t \<Longrightarrow> \<exists>ks'. scan_chunks env src ks = Inr ks'"
  by (induction env src ks arbitrary: t rule: scan_chunks.induct) (auto simp: conn_write_def split: option.splits if_splits)

text \<open>The answers of the daemon, by the signature it found.\<close>

definition clamd_answer :: "string option \<Rightarrow> string" where
  "clamd_answer found = (case found of None \<Rightarrow> ''stream: OK'' | Some sig \<Rightarrow> ''stream: '' @ sig @ '' FOUND'') @ [CHR 0x00]"

lemma parse_clamd_answer:
  "parseClamAVResponse (clamd_answer None) = scan_clean"
  "sc_Infected (parseClamAVResponse (clamd_answer (Some sig)))"
  "last_index_of sig '': '' = None \<Longrightarrow> sc_Signature (parseClamAVResponse (clamd_answer (Some sig))) = sig"
  by (simp_all add: parseClamAVResponse_def clamd_answer_def trim_right_if_def suffix_to_prefix trim_suffix_def Let_def)


definition toy_clamd :: "src_read list \<Rightarrow> clam_env" where
  "toy_clamd src = \<lparr>ce_dial = None, ce_deadline = None, ce_open = Inr src, ce_write = (\<lambda>_. None),
     ce_reply = (\<lambda>sent. case instream_file sent of
        Some t \<Rightarrow> Inr (clamd_answer (if t = ''eicar'' then Some ''Eicar'' else None))
      | None \<Rightarrow> Inr ''UNKNOWN COMMAND'')\<rparr>"


end
