(* ===== verification/Trickle.thy ===== *)
theory Trickle
  imports Antivirus
begin

text \<open>
  The trickling reader of \<open>proxy/antivirus.go\<close>: the goroutine that downloads the
  body to the temporary file, the loop that trickles single bytes of it, and the
  scan and delivery that follow, as the steps of two program counters over one
  state.  What the operating system, the clock, the pipe's reader and the
  request's context do is the event of a step.
\<close>

section \<open>State\<close>

datatype download_pc =
    D_idle
  | D_read
  | D_count nat nat "gate_error option" "gate_error option"
  | D_send "gate_error option"
  | D_ended

datatype trickle_pc =
    T_start
  | T_check
  | T_select
  | T_read
  | T_timer
  | T_return "gate_error option"
  | T_scan
  | T_copy
  | T_closed "gate_error option"

text \<open>\<open>ts_done\<close> is the content of the channel of capacity one; \<open>ts_ticks\<close> counts the expired trickle timers.\<close>

record trickle_state =
  ts_src :: "src_read list"
  ts_file :: string
  ts_downloaded :: nat
  ts_done :: "gate_error option option"
  ts_cancelled :: bool
  ts_dpc :: download_pc
  ts_tpc :: trickle_pc
  ts_doneClosed :: bool
  ts_downloadErr :: "gate_error option"
  ts_offset :: nat
  ts_out :: string
  ts_ticks :: nat

datatype av_event = Ev_go | Ev_timer | Ev_cancelled | Ev_fail gate_error | Ev_write nat "gate_error option"

definition ctx_canceled :: gate_error where
  "ctx_canceled = Failure ''context canceled''"

definition io_ErrShortWrite :: gate_error where
  "io_ErrShortWrite = Failure ''short write''"

definition ErrAntivirusBlocked :: gate_error where
  "ErrAntivirusBlocked = Failure ''antivirus blocked response''"

section \<open>Steps\<close>

definition after_read :: "gate_error option \<Rightarrow> download_pc" where
  "after_read e = (case e of None \<Rightarrow> D_read | Some err \<Rightarrow> D_send (if err = io_EOF then None else Some err))"

definition downloadToTemp :: "av_event \<Rightarrow> trickle_state \<Rightarrow> trickle_state option" where
  "downloadToTemp ev s =
     (case ts_dpc s of
        D_idle \<Rightarrow> None
      | D_read \<Rightarrow>
          if ts_cancelled s then Some (s\<lparr>ts_dpc := D_send (Some ctx_canceled)\<rparr>)
          else (case ts_src s of
                  [] \<Rightarrow> Some (s\<lparr>ts_dpc := D_send None\<rparr>)
                | rd # src \<Rightarrow>
                    if rr_data rd = [] then Some (s\<lparr>ts_src := src, ts_dpc := after_read (rr_err rd)\<rparr>)
                    else (case ev of
                            Ev_write written writeErr \<Rightarrow>
                              if written \<le> length (rr_data rd)
                              then Some (s\<lparr>ts_src := src, ts_file := ts_file s @ take written (rr_data rd),
                                           ts_dpc := D_count written (length (rr_data rd)) writeErr (rr_err rd)\<rparr>)
                              else None
                          | _ \<Rightarrow> None))
      | D_count written n writeErr err \<Rightarrow>
          Some (s\<lparr>ts_downloaded := ts_downloaded s + written,
                  ts_dpc := (case writeErr of Some e \<Rightarrow> D_send (Some e)
                             | None \<Rightarrow> if written \<noteq> n then D_send (Some io_ErrShortWrite) else after_read err)\<rparr>)
      | D_send e \<Rightarrow> if ts_done s = None then Some (s\<lparr>ts_done := Some e, ts_dpc := D_ended\<rparr>) else None
      | D_ended \<Rightarrow> None)"

definition trickle_goto :: "trickle_pc \<Rightarrow> trickle_state \<Rightarrow> trickle_state" where
  "trickle_goto pc s = s\<lparr>ts_tpc := pc\<rparr>"

text \<open>Receiving from the channel, where something is there.\<close>

definition receive_done :: "trickle_state \<Rightarrow> trickle_state option" where
  "receive_done s = (case ts_done s of None \<Rightarrow> None | Some e \<Rightarrow> Some (s\<lparr>ts_done := None, ts_doneClosed := True, ts_downloadErr := e\<rparr>))"

definition trickleUntilDownloaded :: "int \<Rightarrow> av_event \<Rightarrow> trickle_state \<Rightarrow> trickle_state option" where
  "trickleUntilDownloaded interval ev s =
     (case ts_tpc s of
        T_check \<Rightarrow> Some (trickle_goto (if ts_downloaded s \<le> ts_offset s then if ts_doneClosed s then T_return None else T_select else T_read) s)
      | T_select \<Rightarrow>
          (case ev of
             Ev_cancelled \<Rightarrow> if ts_cancelled s then Some (trickle_goto (T_return (Some ctx_canceled)) s) else None
           | Ev_go \<Rightarrow> map_option (trickle_goto (if ts_downloaded s \<le> ts_offset s then T_return None else T_read)) (receive_done s)
           | Ev_timer \<Rightarrow> Some (trickle_goto T_check s)
           | _ \<Rightarrow> None)
      | T_read \<Rightarrow>
          (case ev of
             Ev_go \<Rightarrow>
               if ts_offset s < length (ts_file s)
               then Some (trickle_goto (if ts_doneClosed s then T_return None else if interval > 0 then T_timer else T_check)
                      (s\<lparr>ts_out := ts_out s @ [ts_file s ! ts_offset s], ts_offset := ts_offset s + 1\<rparr>))
               else Some (trickle_goto T_check s)
           | Ev_fail e \<Rightarrow> Some (trickle_goto (T_return (Some e)) s)
           | _ \<Rightarrow> None)
      | T_timer \<Rightarrow>
          (case ev of
             Ev_cancelled \<Rightarrow> if ts_cancelled s then Some (trickle_goto (T_return (Some ctx_canceled)) s) else None
           | Ev_go \<Rightarrow> map_option (trickle_goto (T_return None)) (receive_done s)
           | Ev_timer \<Rightarrow> Some (trickle_goto T_check (s\<lparr>ts_ticks := ts_ticks s + 1\<rparr>))
           | _ \<Rightarrow> None)
      | _ \<Rightarrow> None)"

definition av_run :: "(string \<Rightarrow> ScanResult result) \<Rightarrow> av_event \<Rightarrow> trickle_state \<Rightarrow> trickle_state option" where
  "av_run scan ev s =
     (case ts_tpc s of
        T_start \<Rightarrow>
          (case ev of
             Ev_go \<Rightarrow> Some (s\<lparr>ts_tpc := T_check, ts_dpc := D_read\<rparr>)
           | Ev_fail e \<Rightarrow> Some (trickle_goto (T_closed (Some e)) s)
           | _ \<Rightarrow> None)
      | T_return (Some e) \<Rightarrow> Some (trickle_goto (T_closed (Some e)) s)
      | T_return None \<Rightarrow>
          if \<not> ts_doneClosed s then receive_done s
          else (case ts_downloadErr s of
                  Some e \<Rightarrow> Some (trickle_goto (T_closed (Some e)) s)
                | None \<Rightarrow>
                    (case ev of
                       Ev_go \<Rightarrow> Some (trickle_goto T_scan s)
                     | Ev_fail e \<Rightarrow> Some (trickle_goto (T_closed (Some e)) s)
                     | _ \<Rightarrow> None))
      | T_scan \<Rightarrow>
          Some (trickle_goto (case scan (ts_file s) of
                  Inl e \<Rightarrow> T_closed (Some e)
                | Inr r \<Rightarrow>
                    if sc_Infected r
                    then T_closed (Some (if sc_Signature r = [] then ErrAntivirusBlocked
                                         else Failure (''antivirus blocked response: '' @ sc_Signature r)))
                    else T_copy) s)
      | T_copy \<Rightarrow>
          (case ev of
             Ev_go \<Rightarrow> Some (trickle_goto (T_closed None) (s\<lparr>ts_out := ts_out s @ drop (ts_offset s) (ts_file s)\<rparr>))
           | Ev_write n (Some e) \<Rightarrow> Some (trickle_goto (T_closed (Some e)) (s\<lparr>ts_out := ts_out s @ take n (drop (ts_offset s) (ts_file s))\<rparr>))
           | _ \<Rightarrow> None)
      | _ \<Rightarrow> None)"

inductive av_step :: "int \<Rightarrow> (string \<Rightarrow> ScanResult result) \<Rightarrow> trickle_state \<Rightarrow> trickle_state \<Rightarrow> bool"
  for interval scan where
  download: "downloadToTemp ev s = Some s' \<Longrightarrow> av_step interval scan s s'"
| trickle: "trickleUntilDownloaded interval ev s = Some s' \<Longrightarrow> av_step interval scan s s'"
| run: "av_run scan ev s = Some s' \<Longrightarrow> av_step interval scan s s'"
| cancel: "av_step interval scan s (s\<lparr>ts_cancelled := True\<rparr>)"

definition newAntivirusTricklingReader :: "src_read list \<Rightarrow> trickle_state" where
  "newAntivirusTricklingReader src =
     \<lparr>ts_src = src, ts_file = [], ts_downloaded = 0, ts_done = None, ts_cancelled = False, ts_dpc = D_idle, ts_tpc = T_start,
      ts_doneClosed = False, ts_downloadErr = None, ts_offset = 0, ts_out = [], ts_ticks = 0\<rparr>"

section \<open>Invariant\<close>

definition scans_clean :: "(string \<Rightarrow> ScanResult result) \<Rightarrow> string \<Rightarrow> bool" where
  "scans_clean scan t \<longleftrightarrow> (case scan t of Inr r \<Rightarrow> \<not> sc_Infected r | Inl _ \<Rightarrow> False)"

text \<open>The file holds what has been read; the rest of the script continues it.\<close>

definition continues :: "src_read list \<Rightarrow> trickle_state \<Rightarrow> bool" where
  "continues src0 s \<longleftrightarrow> read_text src0 = ts_file s @ read_text (ts_src s) \<and> eof_text src0 = map_option ((@) (ts_file s)) (eof_text (ts_src s))"

definition download_inv :: "src_read list \<Rightarrow> trickle_state \<Rightarrow> bool" where
  "download_inv src0 s \<longleftrightarrow>
     prefix (ts_file s) (read_text src0) \<and>
     (case ts_dpc s of
        D_idle \<Rightarrow> continues src0 s \<and> ts_file s = [] \<and> ts_downloaded s = 0 \<and> ts_tpc s \<in> insert T_start (range T_closed)
      | D_read \<Rightarrow> continues src0 s \<and> ts_downloaded s \<le> length (ts_file s)
      | D_count w n we e \<Rightarrow> ts_downloaded s + w \<le> length (ts_file s) \<and>
          (we = None \<and> w = n \<longrightarrow> (case e of None \<Rightarrow> continues src0 s | Some err \<Rightarrow> err = io_EOF \<longrightarrow> eof_text src0 = Some (ts_file s)))
      | D_send e \<Rightarrow> ts_downloaded s \<le> length (ts_file s) \<and> (e = None \<longrightarrow> eof_text src0 = Some (ts_file s))
      | D_ended \<Rightarrow> ts_downloaded s \<le> length (ts_file s) \<and> (ts_done s = Some None \<longrightarrow> eof_text src0 = Some (ts_file s)) \<and>
          (ts_doneClosed s \<and> ts_downloadErr s = None \<longrightarrow> eof_text src0 = Some (ts_file s))) \<and>
     (ts_dpc s = D_ended \<longrightarrow> (ts_done s = None) = ts_doneClosed s) \<and>
     (ts_dpc s \<noteq> D_ended \<longrightarrow> ts_done s = None \<and> \<not> ts_doneClosed s)"

definition trickle_inv :: "(string \<Rightarrow> ScanResult result) \<Rightarrow> trickle_state \<Rightarrow> bool" where
  "trickle_inv scan s \<longleftrightarrow>
     (case ts_tpc s of
        T_closed None \<Rightarrow> ts_out s = ts_file s \<and> ts_doneClosed s \<and> ts_downloadErr s = None \<and> scans_clean scan (ts_file s)
      | T_closed (Some _) \<Rightarrow> prefix (ts_out s) (ts_file s)
      | pc \<Rightarrow> ts_offset s \<le> length (ts_file s) \<and> ts_out s = take (ts_offset s) (ts_file s) \<and>
          (pc = T_start \<longrightarrow> ts_dpc s = D_idle) \<and>
          (pc = T_read \<longrightarrow> ts_offset s < ts_downloaded s) \<and>
          (pc \<in> {T_select, T_timer} \<longrightarrow> \<not> ts_doneClosed s) \<and>
          (pc = T_return None \<longrightarrow> ts_doneClosed s) \<and>
          (pc \<in> {T_scan, T_copy} \<longrightarrow> ts_doneClosed s \<and> ts_downloadErr s = None) \<and>
          (pc = T_copy \<longrightarrow> scans_clean scan (ts_file s)))"

definition tick_inv :: "(string \<Rightarrow> ScanResult result) \<Rightarrow> trickle_state \<Rightarrow> bool" where
  "tick_inv scan s \<longleftrightarrow>
     (case ts_tpc s of
        T_closed _ \<Rightarrow> length (ts_out s) \<le> ts_ticks s + 1 \<or> scans_clean scan (ts_file s) \<and> ts_doneClosed s \<and> ts_downloadErr s = None
      | pc \<Rightarrow> ts_offset s \<le> ts_ticks s + (if pc \<in> {T_start, T_check, T_select, T_read} then 0 else 1))"

lemma after_read_cases: "after_read e = D_read \<and> e = None \<or> (\<exists>err. e = Some err \<and> after_read e = D_send (if err = io_EOF then None else Some err))"
  by (cases e) (simp_all add: after_read_def)

lemma continues_next:
  assumes "continues src0 s" "ts_src s = rd # src"
  shows "prefix (ts_file s @ rr_data rd) (read_text src0)"
    "case rr_err rd of None \<Rightarrow> continues src0 (s\<lparr>ts_src := src, ts_file := ts_file s @ rr_data rd\<rparr>)
     | Some err \<Rightarrow> err = io_EOF \<longrightarrow> eof_text src0 = Some (ts_file s @ rr_data rd)"
proof -
  obtain d e where rd: "rd = Read_result d e" by (cases rd)
  show "prefix (ts_file s @ rr_data rd) (read_text src0)" using assms rd by (cases e) (simp_all add: continues_def)
  show "case rr_err rd of None \<Rightarrow> continues src0 (s\<lparr>ts_src := src, ts_file := ts_file s @ rr_data rd\<rparr>)
     | Some err \<Rightarrow> err = io_EOF \<longrightarrow> eof_text src0 = Some (ts_file s @ rr_data rd)"
    using assms rd by (cases e; cases "eof_text src") (simp_all add: continues_def)
qed

lemma downloadToTemp_inv:
  assumes inv: "download_inv src0 s" and step: "downloadToTemp ev s = Some s'"
  shows "download_inv src0 s'"
proof (cases "ts_dpc s")
  case D_read
  then have c: "continues src0 s" "ts_downloaded s \<le> length (ts_file s)" "ts_done s = None" "\<not> ts_doneClosed s" "prefix (ts_file s) (read_text src0)"
    using inv by (simp_all add: download_inv_def)
  show ?thesis
  proof (cases "ts_cancelled s")
    case True
    then show ?thesis using D_read step c by (auto simp: downloadToTemp_def download_inv_def)
  next
    case live: False
    show ?thesis
    proof (cases "ts_src s")
      case Nil
      then have "eof_text src0 = Some (ts_file s)" using c(1) by (simp add: continues_def)
      then show ?thesis using Nil D_read live step c by (auto simp: downloadToTemp_def download_inv_def)
    next
      case (Cons rd src)
      note n = continues_next [OF c(1) Cons]
      show ?thesis
      proof (cases "rr_data rd = []")
        case True
        then have "s' = s\<lparr>ts_src := src, ts_dpc := after_read (rr_err rd)\<rparr>" using Cons D_read live step by (simp add: downloadToTemp_def)
        then show ?thesis using n(2) True c(2-) by (cases "rr_err rd") (auto simp: download_inv_def after_read_def continues_def)
      next
        case False
        then obtain w we where w: "ev = Ev_write w we" "w \<le> length (rr_data rd)"
          "s' = s\<lparr>ts_src := src, ts_file := ts_file s @ take w (rr_data rd), ts_dpc := D_count w (length (rr_data rd)) we (rr_err rd)\<rparr>"
          using Cons D_read live step by (auto simp: downloadToTemp_def split: av_event.splits if_splits)
        have "prefix (ts_file s @ take w (rr_data rd)) (read_text src0)"
          using n(1) by (metis append_take_drop_id append_assoc append_prefixD)
        then show ?thesis using n(2) w(2,3) c(2-) by (auto simp: download_inv_def continues_def split: option.splits)
      qed
    qed
  qed
next
  case (D_count w n we e)
  then show ?thesis using inv step by (cases we; cases e) (auto simp: downloadToTemp_def download_inv_def after_read_def continues_def split: if_splits)
next
  case (D_send e)
  then show ?thesis using inv step by (auto simp: downloadToTemp_def download_inv_def split: if_splits)
qed (use step in \<open>simp_all add: downloadToTemp_def\<close>)

lemma downloadToTemp_frame:
  assumes "downloadToTemp ev s = Some s'"
  shows "\<exists>x. ts_file s' = ts_file s @ x" "ts_downloaded s \<le> ts_downloaded s'" "ts_dpc s \<notin> {D_idle, D_ended}"
    "ts_tpc s' = ts_tpc s" "ts_offset s' = ts_offset s" "ts_out s' = ts_out s" "ts_doneClosed s' = ts_doneClosed s"
    "ts_downloadErr s' = ts_downloadErr s" "ts_ticks s' = ts_ticks s"
  using assms by (auto simp: downloadToTemp_def split: download_pc.splits list.splits av_event.splits if_splits)

lemma downloadToTemp_trickle_inv:
  assumes "download_inv src0 s" "trickle_inv scan s" "downloadToTemp ev s = Some s'"
  shows "trickle_inv scan s'"
proof -
  note f = downloadToTemp_frame [OF assms(3)]
  obtain x where x: "ts_file s' = ts_file s @ x" using f(1) by blast
  have "\<not> ts_doneClosed s" using assms(1) f(3) by (auto simp: download_inv_def)
  then show ?thesis using assms(2) f x by (auto simp: trickle_inv_def prefix_append split: trickle_pc.splits option.splits)
qed

lemma downloadToTemp_tick_inv:
  assumes "download_inv src0 s" "tick_inv scan s" "downloadToTemp ev s = Some s'"
  shows "tick_inv scan s'"
proof -
  note f = downloadToTemp_frame [OF assms(3)]
  have "\<not> ts_doneClosed s" using assms(1) f(3) by (auto simp: download_inv_def)
  then show ?thesis using assms(2) f by (auto simp: tick_inv_def split: trickle_pc.splits)
qed

lemma receive_done_eq: "receive_done s = Some s' \<longleftrightarrow> (\<exists>e. ts_done s = Some e \<and> s' = s\<lparr>ts_done := None, ts_doneClosed := True, ts_downloadErr := e\<rparr>)"
  by (auto simp: receive_done_def split: option.splits)

text \<open>The download invariant depends on the trickling side through the channel and the first program counter only.\<close>

lemma download_inv_received:
  assumes "download_inv src0 s" "ts_done s = Some e" "pc \<noteq> T_start"
  shows "download_inv src0 (s\<lparr>ts_done := None, ts_doneClosed := True, ts_downloadErr := e, ts_tpc := pc\<rparr>)"
proof -
  have "ts_dpc s = D_ended" using assms by (auto simp: download_inv_def)
  then show ?thesis using assms by (auto simp: download_inv_def)
qed

lemma download_inv_frame:
  assumes "download_inv src0 s" "ts_dpc s \<noteq> D_idle \<or> ts_tpc s' \<in> range T_closed"
    "ts_src s' = ts_src s" "ts_file s' = ts_file s" "ts_downloaded s' = ts_downloaded s" "ts_done s' = ts_done s" "ts_dpc s' = ts_dpc s"
    "ts_doneClosed s' = ts_doneClosed s" "ts_downloadErr s' = ts_downloadErr s"
  shows "download_inv src0 s'"
  using assms by (auto simp: download_inv_def continues_def split: download_pc.splits option.splits)

lemma downloaded_le: "download_inv src0 s \<Longrightarrow> ts_downloaded s \<le> length (ts_file s)"
  by (auto simp: download_inv_def split: download_pc.splits)

lemma trickle_inv_goto:
  assumes "trickle_inv scan s" "ts_tpc s \<notin> range T_closed" "pc \<in> {T_check, T_select, T_read, T_timer} \<union> range T_return"
    and "pc = T_read \<Longrightarrow> ts_offset s < ts_downloaded s" "pc \<in> {T_select, T_timer} \<Longrightarrow> \<not> ts_doneClosed s" "pc = T_return None \<Longrightarrow> ts_doneClosed s"
  shows "trickle_inv scan (trickle_goto pc s)"
  using assms by (auto simp: trickle_inv_def trickle_goto_def split: trickle_pc.splits)

lemma trickleUntilDownloaded_inv:
  assumes d: "download_inv src0 s" and t: "trickle_inv scan s" and k: "0 < interval \<longrightarrow> tick_inv scan s" and step: "trickleUntilDownloaded interval ev s = Some s'"
  shows "download_inv src0 s' \<and> trickle_inv scan s' \<and> (0 < interval \<longrightarrow> tick_inv scan s')"
proof (cases "ts_tpc s")
  case T_check
  then have "ts_dpc s \<noteq> D_idle" using d by (auto simp: download_inv_def)
  then have "download_inv src0 s'" using T_check step
    by (intro download_inv_frame [OF d]) (auto simp: trickleUntilDownloaded_def trickle_goto_def)
  moreover have "trickle_inv scan s'" using T_check step t by (auto simp: trickleUntilDownloaded_def trickle_goto_def trickle_inv_def)
  ultimately show ?thesis using T_check step k by (auto simp: trickleUntilDownloaded_def tick_inv_def trickle_goto_def)
next
  case T_select
  then have n: "ts_dpc s \<noteq> D_idle" using d by (auto simp: download_inv_def)
  consider "ev = Ev_cancelled" "s' = trickle_goto (T_return (Some ctx_canceled)) s" | "ev = Ev_timer" "s' = trickle_goto T_check s"
    | e where "ts_done s = Some e" "s' = s\<lparr>ts_done := None, ts_doneClosed := True, ts_downloadErr := e, ts_tpc := (if ts_downloaded s \<le> ts_offset s then T_return None else T_read)\<rparr>"
    using step T_select by (auto simp: trickleUntilDownloaded_def trickle_goto_def receive_done_eq split: av_event.splits if_splits)
  then show ?thesis
  proof cases
    case 3
    then show ?thesis using T_select t k download_inv_received [OF d 3(1), of "if ts_downloaded s \<le> ts_offset s then T_return None else T_read"]
      by (auto simp: trickle_inv_def tick_inv_def)
  qed (use T_select n k in \<open>auto simp: tick_inv_def trickle_goto_def intro!: download_inv_frame [OF d] trickle_inv_goto [OF t, unfolded trickle_goto_def]\<close>)
next
  case T_read
  then have n: "ts_dpc s \<noteq> D_idle" using d by (auto simp: download_inv_def)
  have lt: "ts_offset s < length (ts_file s)" "ts_out s = take (ts_offset s) (ts_file s)" using T_read t downloaded_le [OF d] by (auto simp: trickle_inv_def)
  show ?thesis
  proof (cases "ev = Ev_go")
    case True
    let ?pc = "if ts_doneClosed s then T_return None else if interval > 0 then T_timer else T_check"
    have s': "s' = s\<lparr>ts_out := ts_out s @ [ts_file s ! ts_offset s], ts_offset := ts_offset s + 1, ts_tpc := ?pc\<rparr>"
      using True T_read step lt by (simp add: trickleUntilDownloaded_def trickle_goto_def)
    have "download_inv src0 s'" by (rule download_inv_frame [OF d]) (use n s' in simp_all)
    then show ?thesis using s' lt T_read k by (simp add: trickle_inv_def tick_inv_def take_Suc_conv_app_nth)
  next
    case False
    then obtain e where "s' = trickle_goto (T_return (Some e)) s" using T_read step by (auto simp: trickleUntilDownloaded_def split: av_event.splits)
    then show ?thesis using T_read n k by (auto simp: tick_inv_def trickle_goto_def intro!: download_inv_frame [OF d] trickle_inv_goto [OF t, unfolded trickle_goto_def])
  qed
next
  case T_timer
  then have n: "ts_dpc s \<noteq> D_idle" using d by (auto simp: download_inv_def)
  consider "ev = Ev_cancelled" "s' = trickle_goto (T_return (Some ctx_canceled)) s" | "ev = Ev_timer" "s' = s\<lparr>ts_ticks := ts_ticks s + 1, ts_tpc := T_check\<rparr>"
    | e where "ts_done s = Some e" "s' = s\<lparr>ts_done := None, ts_doneClosed := True, ts_downloadErr := e, ts_tpc := T_return None\<rparr>"
    using step T_timer by (auto simp: trickleUntilDownloaded_def trickle_goto_def receive_done_eq split: av_event.splits if_splits)
  then show ?thesis
  proof cases
    case 1
    then show ?thesis using T_timer n k by (auto simp: tick_inv_def trickle_goto_def intro!: download_inv_frame [OF d] trickle_inv_goto [OF t, unfolded trickle_goto_def])
  next
    case 2
    have "download_inv src0 s'" by (rule download_inv_frame [OF d]) (use n 2 in simp_all)
    then show ?thesis using T_timer 2 t k by (auto simp: trickle_inv_def tick_inv_def)
  next
    case 3
    then show ?thesis using T_timer t k download_inv_received [OF d 3(1), of "T_return None"] by (auto simp: trickle_inv_def tick_inv_def)
  qed
qed (use step in \<open>simp_all add: trickleUntilDownloaded_def\<close>)

lemma av_run_inv:
  assumes d: "download_inv src0 s" and t: "trickle_inv scan s" and k: "0 < interval \<longrightarrow> tick_inv scan s" and step: "av_run scan ev s = Some s'"
  shows "download_inv src0 s' \<and> trickle_inv scan s' \<and> (0 < interval \<longrightarrow> tick_inv scan s')"
proof (cases "ts_tpc s")
  case T_start
  then have i: "ts_dpc s = D_idle" "ts_file s = []" "ts_downloaded s = 0" "continues src0 s" "ts_out s = []" "ts_offset s = 0"
    using d t by (auto simp: download_inv_def trickle_inv_def)
  consider "s' = s\<lparr>ts_tpc := T_check, ts_dpc := D_read\<rparr>" | e where "s' = trickle_goto (T_closed (Some e)) s"
    using step T_start by (auto simp: av_run_def split: av_event.splits)
  then show ?thesis using i d T_start by cases (auto simp: download_inv_def trickle_inv_def tick_inv_def continues_def trickle_goto_def)
next
  case (T_return x)
  then have n: "ts_dpc s \<noteq> D_idle" using d by (auto simp: download_inv_def)
  have o: "length (ts_out s) \<le> ts_offset s" "prefix (ts_out s) (ts_file s)" using t T_return by (auto simp: trickle_inv_def take_is_prefix)
  consider e where "s' = trickle_goto (T_closed (Some e)) s" | "s' = trickle_goto T_scan s" "ts_doneClosed s" "ts_downloadErr s = None"
    using step T_return t by (auto simp: av_run_def trickle_inv_def split: av_event.splits option.splits if_splits)
  then show ?thesis
  proof cases
    case 1
    have "download_inv src0 s'" by (rule download_inv_frame [OF d]) (use 1 in \<open>simp_all add: trickle_goto_def\<close>)
    then show ?thesis using 1 o T_return k by (auto simp: trickle_inv_def tick_inv_def trickle_goto_def)
  next
    case 2
    have "download_inv src0 s'" by (rule download_inv_frame [OF d]) (use 2 n in \<open>simp_all add: trickle_goto_def\<close>)
    then show ?thesis using 2 T_return t k by (auto simp: trickle_inv_def tick_inv_def trickle_goto_def)
  qed
next
  case T_scan
  then have n: "ts_dpc s \<noteq> D_idle" using d by (auto simp: download_inv_def)
  have o: "length (ts_out s) \<le> ts_offset s" "prefix (ts_out s) (ts_file s)" using t T_scan by (auto simp: trickle_inv_def take_is_prefix)
  consider e where "s' = trickle_goto (T_closed (Some e)) s" | "s' = trickle_goto T_copy s" "scans_clean scan (ts_file s)"
    using step T_scan by (auto simp: av_run_def scans_clean_def split: sum.splits if_splits)
  then show ?thesis
  proof cases
    case 1
    have "download_inv src0 s'" by (rule download_inv_frame [OF d]) (use 1 in \<open>simp_all add: trickle_goto_def\<close>)
    then show ?thesis using 1 o T_scan k by (auto simp: trickle_inv_def tick_inv_def trickle_goto_def)
  next
    case 2
    have "download_inv src0 s'" by (rule download_inv_frame [OF d]) (use 2 n in \<open>simp_all add: trickle_goto_def\<close>)
    then show ?thesis using 2 T_scan t k by (auto simp: trickle_inv_def tick_inv_def trickle_goto_def)
  qed
next
  case T_copy
  then have o: "ts_out s = take (ts_offset s) (ts_file s)" "scans_clean scan (ts_file s)" "ts_doneClosed s" "ts_downloadErr s = None"
    using t by (auto simp: trickle_inv_def)
  have all: "take (length (ts_file s)) (drop (ts_offset s) (ts_file s)) = drop (ts_offset s) (ts_file s)" by simp
  consider "s' = s\<lparr>ts_out := ts_out s @ drop (ts_offset s) (ts_file s), ts_tpc := T_closed None\<rparr>"
    | n e where "s' = s\<lparr>ts_out := ts_out s @ take n (drop (ts_offset s) (ts_file s)), ts_tpc := T_closed (Some e)\<rparr>"
    using step T_copy by (auto simp: av_run_def trickle_goto_def split: av_event.splits option.splits)
  then obtain x pc where s': "s' = s\<lparr>ts_out := ts_out s @ take x (drop (ts_offset s) (ts_file s)), ts_tpc := T_closed pc\<rparr>" "pc = None \<longrightarrow> x = length (ts_file s)"
    using all by cases (metis, metis option.distinct(1))
  have "download_inv src0 s'" by (rule download_inv_frame [OF d]) (use s' in simp_all)
  moreover have "prefix (take (ts_offset s) (ts_file s) @ take x (drop (ts_offset s) (ts_file s))) (ts_file s)"
    by (metis append_take_drop_id prefix_def same_prefix_prefix take_is_prefix)
  ultimately show ?thesis using s' o by (cases pc) (simp_all add: trickle_inv_def tick_inv_def)
qed (use step in \<open>simp_all add: av_run_def\<close>)

lemma av_step_inv:
  assumes "av_step interval scan s s'" "download_inv src0 s" "trickle_inv scan s" "0 < interval \<longrightarrow> tick_inv scan s"
  shows "download_inv src0 s' \<and> trickle_inv scan s' \<and> (0 < interval \<longrightarrow> tick_inv scan s')"
  using assms
proof cases
  case (download ev)
  then show ?thesis using assms downloadToTemp_inv downloadToTemp_trickle_inv downloadToTemp_tick_inv by blast
next
  case (trickle ev)
  then show ?thesis using assms trickleUntilDownloaded_inv by blast
next
  case (run ev)
  then show ?thesis using assms av_run_inv by blast
next
  case cancel
  then have "download_inv src0 s'" "trickle_inv scan s' = trickle_inv scan s" "tick_inv scan s' = tick_inv scan s"
    using assms(2) by (simp_all add: download_inv_def trickle_inv_def tick_inv_def continues_def cong: download_pc.case_cong trickle_pc.case_cong option.case_cong)
  then show ?thesis using assms by blast
qed

lemma av_reachable_inv:
  assumes "(av_step interval scan)\<^sup>*\<^sup>* (newAntivirusTricklingReader src) s"
  shows "download_inv src s \<and> trickle_inv scan s \<and> (0 < interval \<longrightarrow> tick_inv scan s)"
  using assms
proof (induction rule: rtranclp_induct)
  case base
  have "map_option ((@) []) x = x" for x :: "string option" by (cases x) simp_all
  then show ?case by (simp add: newAntivirusTricklingReader_def download_inv_def continues_def trickle_inv_def tick_inv_def)
next
  case (step s1 s2)
  then show ?case using av_step_inv by blast
qed

section \<open>What the client gets\<close>

text \<open>
  C6: The delivery of a scanned body.  In every state that any interleaving of
  the download, the trickling, timers, failures and cancellation reaches, the
  client has a prefix of the body.  The stream ends without an error only when
  the whole body was downloaded, the scanner found the whole body clean and the
  client has all of it.  If the scanner does not find the body clean and the
  trickle interval is positive, the client never gets more than one byte, and
  one more for each expired interval.
\<close>

theorem antivirus_delivery:
  assumes "(av_step interval scan)\<^sup>*\<^sup>* (newAntivirusTricklingReader src) s"
  shows "prefix (ts_out s) (read_text src) \<and>
    (ts_tpc s = T_closed None \<longrightarrow> eof_text src = Some (ts_out s) \<and> scans_clean scan (ts_out s)) \<and>
    (0 < interval \<and> \<not> scans_clean scan (read_text src) \<longrightarrow> length (ts_out s) \<le> ts_ticks s + 1)"
proof -
  have inv: "download_inv src s" "trickle_inv scan s" "0 < interval \<longrightarrow> tick_inv scan s" using av_reachable_inv [OF assms] by simp_all
  have ended: "eof_text src = Some (ts_file s)" if "ts_doneClosed s" "ts_downloadErr s = None"
  proof -
    have "ts_dpc s = D_ended" using inv(1) that(1) by (auto simp: download_inv_def)
    then show ?thesis using inv(1) that by (simp add: download_inv_def)
  qed
  have fp: "prefix (ts_file s) (read_text src)" using inv(1) by (simp add: download_inv_def)
  have out: "prefix (ts_out s) (ts_file s)" using inv(2) by (auto simp: trickle_inv_def take_is_prefix split: trickle_pc.splits option.splits)
  have "length (ts_out s) \<le> ts_ticks s + 1" if "0 < interval" "\<not> scans_clean scan (read_text src)"
  proof -
    have "\<not> (scans_clean scan (ts_file s) \<and> ts_doneClosed s \<and> ts_downloadErr s = None)" using ended eof_text_read that(2) by metis
    then show ?thesis using inv(2,3) that(1)
      by (auto simp: trickle_inv_def tick_inv_def split: trickle_pc.splits option.splits if_splits)
  qed
  moreover have "eof_text src = Some (ts_out s) \<and> scans_clean scan (ts_out s)" if "ts_tpc s = T_closed None"
    using inv(2) that ended by (simp add: trickle_inv_def)
  ultimately show ?thesis using fp out prefix_order.trans by blast
qed

text \<open>A run on a body of two bytes whose scan reports an infection, after the first byte was trickled.\<close>

definition toy_scan :: "string \<Rightarrow> ScanResult result" where
  "toy_scan t = Inr \<lparr>sc_Infected = (t = ''xy''), sc_Signature = ''Eicar''\<rparr>"

fun av_runs :: "int \<Rightarrow> (string \<Rightarrow> ScanResult result) \<Rightarrow> (nat \<times> av_event) list \<Rightarrow> trickle_state \<Rightarrow> trickle_state option" where
  "av_runs interval scan [] s = Some s"
| "av_runs interval scan ((who, ev) # evs) s =
     Option.bind (if who = 0 then downloadToTemp ev s else if who = 1 then trickleUntilDownloaded interval ev s else av_run scan ev s) (av_runs interval scan evs)"

lemma av_runs_steps: "av_runs interval scan evs s = Some s' \<Longrightarrow> (av_step interval scan)\<^sup>*\<^sup>* s s'"
proof (induction evs arbitrary: s)
  case (Cons e evs)
  obtain who ev where e: "e = (who, ev)" by fastforce
  from Cons(2) obtain s1 where s1: "(if who = 0 then downloadToTemp ev s else if who = 1 then trickleUntilDownloaded interval ev s else av_run scan ev s) = Some s1"
    "av_runs interval scan evs s1 = Some s'" by (auto simp: e bind_eq_Some_conv)
  then have "av_step interval scan s s1" by (auto intro: av_step.intros split: if_splits)
  then show ?case using Cons(1) [OF s1(2)] by (rule converse_rtranclp_into_rtranclp)
qed simp

definition toy_events :: "(nat \<times> av_event) list" where
  "toy_events = [(2, Ev_go), (0, Ev_write 2 None), (0, Ev_go), (1, Ev_go), (1, Ev_go), (0, Ev_go), (1, Ev_go), (2, Ev_go), (2, Ev_go)]"

theorem antivirus_delivery_witness:
  "\<exists>s e. av_runs 1 toy_scan toy_events (newAntivirusTricklingReader [Read_result ''xy'' (Some io_EOF)]) = Some s \<and>
     ts_tpc s = T_closed (Some e) \<and> ts_out s = ''x'' \<and> length (ts_out s) \<le> ts_ticks s + 1"
proof -
  let ?s0 = "newAntivirusTricklingReader [Read_result ''xy'' (Some io_EOF)]"
  have "case av_runs 1 toy_scan toy_events ?s0 of None \<Rightarrow> False | Some s \<Rightarrow> ts_out s = ''x'' \<and> (case ts_tpc s of T_closed (Some _) \<Rightarrow> True | _ \<Rightarrow> False)" by code_simp
  then obtain s e where s: "av_runs 1 toy_scan toy_events ?s0 = Some s" "ts_out s = ''x''" "ts_tpc s = T_closed (Some e)"
    by (auto split: option.splits trickle_pc.splits)
  then show ?thesis using antivirus_delivery [OF av_runs_steps [OF s(1)]] by (auto simp: scans_clean_def toy_scan_def)
qed

text \<open>With an interval of zero nothing bounds the trickling: the client can have the whole infected body before the scan.\<close>

definition eager_events :: "(nat \<times> av_event) list" where
  "eager_events = [(2, Ev_go), (0, Ev_write 2 None), (0, Ev_go), (1, Ev_go), (1, Ev_go), (1, Ev_go), (1, Ev_go), (0, Ev_go), (1, Ev_go), (1, Ev_go), (2, Ev_go), (2, Ev_go)]"

lemma infected_body_delivered:
  "\<exists>s e. (av_step 0 toy_scan)\<^sup>*\<^sup>* (newAntivirusTricklingReader [Read_result ''xy'' (Some io_EOF)]) s \<and>
     ts_tpc s = T_closed (Some e) \<and> ts_out s = ''xy'' \<and> \<not> scans_clean toy_scan ''xy''"
proof -
  let ?s0 = "newAntivirusTricklingReader [Read_result ''xy'' (Some io_EOF)]"
  have "case av_runs 0 toy_scan eager_events ?s0 of None \<Rightarrow> False | Some s \<Rightarrow> ts_out s = ''xy'' \<and> (case ts_tpc s of T_closed (Some _) \<Rightarrow> True | _ \<Rightarrow> False)" by code_simp
  then obtain s e where s: "av_runs 0 toy_scan eager_events ?s0 = Some s" "ts_out s = ''xy''" "ts_tpc s = T_closed (Some e)"
    by (auto split: option.splits trickle_pc.splits)
  then show ?thesis using av_runs_steps [OF s(1)] by (auto simp: scans_clean_def toy_scan_def)
qed

section \<open>Progress\<close>

text \<open>Nothing has failed so far: no cancellation, no failed read or write, and the rest of the source ends with \<open>EOF\<close>.\<close>

definition unfailed :: "(string \<Rightarrow> ScanResult result) \<Rightarrow> trickle_state \<Rightarrow> bool" where
  "unfailed scan s \<longleftrightarrow>
     \<not> ts_cancelled s \<and> ts_downloadErr s = None \<and>
     (case ts_dpc s of
        D_idle \<Rightarrow> eof_text (ts_src s) \<noteq> None \<and> ts_tpc s = T_start
      | D_read \<Rightarrow> eof_text (ts_src s) \<noteq> None
      | D_count w n we e \<Rightarrow> we = None \<and> w = n \<and> (case e of None \<Rightarrow> eof_text (ts_src s) \<noteq> None | Some err \<Rightarrow> err = io_EOF)
      | D_send e \<Rightarrow> e = None
      | D_ended \<Rightarrow> ts_done s \<in> {None, Some None}) \<and>
     (case ts_tpc s of
        T_return e \<Rightarrow> e = None
      | T_closed e \<Rightarrow> ts_dpc s = D_ended \<and> ts_doneClosed s \<and> (e \<noteq> None \<longrightarrow> \<not> scans_clean scan (ts_file s))
      | _ \<Rightarrow> True)"

definition download_work :: "trickle_state \<Rightarrow> nat" where
  "download_work s =
     (case ts_dpc s of
        D_idle \<Rightarrow> 2 * length (ts_src s) + 3 | D_read \<Rightarrow> 2 * length (ts_src s) + 2 | D_count _ _ _ _ \<Rightarrow> 2 * length (ts_src s) + 3
      | D_send _ \<Rightarrow> 1 | D_ended \<Rightarrow> 0)"

definition trickle_work :: "trickle_state \<Rightarrow> nat" where
  "trickle_work s = 8 * (length (ts_file s) - ts_offset s) +
     (case ts_tpc s of
        T_start \<Rightarrow> 7 | T_check \<Rightarrow> 6 | T_select \<Rightarrow> 5 | T_read \<Rightarrow> 4 | T_timer \<Rightarrow> 4 | T_return _ \<Rightarrow> 3 | T_scan \<Rightarrow> 2 | T_copy \<Rightarrow> 1 | T_closed _ \<Rightarrow> 0)"

definition av_smaller :: "(trickle_state \<times> trickle_state) set" where
  "av_smaller = measures [download_work, trickle_work]"

lemma download_progress:
  assumes u: "unfailed scan s" and d: "download_inv src0 s" and dpc: "ts_dpc s \<notin> {D_idle, D_ended}"
  shows "\<exists>ev s'. downloadToTemp ev s = Some s' \<and> unfailed scan s' \<and> (s', s) \<in> av_smaller"
proof (cases "ts_dpc s")
  case D_read
  show ?thesis
  proof (cases "ts_src s")
    case Nil
    let ?s = "s\<lparr>ts_dpc := D_send None\<rparr>"
    have "downloadToTemp Ev_go s = Some ?s" "unfailed scan ?s" "(?s, s) \<in> av_smaller"
      using u D_read Nil by (auto simp: unfailed_def downloadToTemp_def av_smaller_def download_work_def split: trickle_pc.splits)
    then show ?thesis by blast
  next
    case (Cons rd src)
    obtain x e where rd: "rd = Read_result x e" by (cases rd)
    let ?s = "if x = [] then s\<lparr>ts_src := src, ts_dpc := after_read e\<rparr>
      else s\<lparr>ts_src := src, ts_file := ts_file s @ x, ts_dpc := D_count (length x) (length x) None e\<rparr>"
    have "downloadToTemp (Ev_write (length x) None) s = Some ?s" "unfailed scan ?s" "(?s, s) \<in> av_smaller"
      using u D_read Cons by (cases e; auto simp: rd unfailed_def downloadToTemp_def av_smaller_def download_work_def after_read_def split: trickle_pc.splits if_splits)+
    then show ?thesis by blast
  qed
next
  case (D_count w n we e)
  let ?s = "s\<lparr>ts_downloaded := ts_downloaded s + w, ts_dpc := after_read e\<rparr>"
  have "downloadToTemp Ev_go s = Some ?s" "unfailed scan ?s" "(?s, s) \<in> av_smaller"
    using u D_count by (cases e; auto simp: unfailed_def downloadToTemp_def av_smaller_def download_work_def after_read_def split: trickle_pc.splits)+
  then show ?thesis by blast
next
  case (D_send e)
  let ?s = "s\<lparr>ts_done := Some e, ts_dpc := D_ended\<rparr>"
  have "downloadToTemp Ev_go s = Some ?s" "unfailed scan ?s" "(?s, s) \<in> av_smaller"
    using u d D_send by (auto simp: unfailed_def download_inv_def downloadToTemp_def av_smaller_def download_work_def split: trickle_pc.splits)
  then show ?thesis by blast
qed (use dpc in simp_all)

lemma trickle_progress:
  assumes u: "unfailed scan s" and d: "download_inv src0 s" and t: "trickle_inv scan s" and dpc: "ts_dpc s = D_ended" and open': "ts_tpc s \<notin> range T_closed"
  shows "\<exists>s'. av_step interval scan s s' \<and> unfailed scan s' \<and> (s', s) \<in> av_smaller"
proof (cases "ts_tpc s")
  case T_check
  let ?s = "trickle_goto (if ts_downloaded s \<le> ts_offset s then if ts_doneClosed s then T_return None else T_select else T_read) s"
  have "trickleUntilDownloaded interval Ev_go s = Some ?s" "unfailed scan ?s" "(?s, s) \<in> av_smaller"
    using u dpc T_check by (auto simp: trickleUntilDownloaded_def unfailed_def trickle_goto_def av_smaller_def download_work_def trickle_work_def)
  then show ?thesis using av_step.trickle by blast
next
  case T_select
  then obtain e where e: "ts_done s = Some e" using d t dpc by (auto simp: download_inv_def trickle_inv_def)
  let ?s = "s\<lparr>ts_done := None, ts_doneClosed := True, ts_downloadErr := e, ts_tpc := (if ts_downloaded s \<le> ts_offset s then T_return None else T_read)\<rparr>"
  have "trickleUntilDownloaded interval Ev_go s = Some ?s" "unfailed scan ?s" "(?s, s) \<in> av_smaller"
    using u dpc T_select e by (auto simp: trickleUntilDownloaded_def receive_done_def unfailed_def trickle_goto_def av_smaller_def download_work_def trickle_work_def)
  then show ?thesis using av_step.trickle by blast
next
  case T_read
  then have lt: "ts_offset s < length (ts_file s)" using t downloaded_le [OF d] by (simp add: trickle_inv_def)
  let ?s = "trickle_goto (if ts_doneClosed s then T_return None else if interval > 0 then T_timer else T_check)
    (s\<lparr>ts_out := ts_out s @ [ts_file s ! ts_offset s], ts_offset := ts_offset s + 1\<rparr>)"
  have "trickleUntilDownloaded interval Ev_go s = Some ?s" "unfailed scan ?s" "(?s, s) \<in> av_smaller"
    using u dpc T_read lt by (auto simp: trickleUntilDownloaded_def unfailed_def trickle_goto_def av_smaller_def download_work_def trickle_work_def)
  then show ?thesis using av_step.trickle by blast
next
  case T_timer
  then obtain e where e: "ts_done s = Some e" using d t dpc by (auto simp: download_inv_def trickle_inv_def)
  let ?s = "s\<lparr>ts_done := None, ts_doneClosed := True, ts_downloadErr := e, ts_tpc := T_return None\<rparr>"
  have "trickleUntilDownloaded interval Ev_go s = Some ?s" "unfailed scan ?s" "(?s, s) \<in> av_smaller"
    using u dpc T_timer e by (auto simp: trickleUntilDownloaded_def receive_done_def unfailed_def trickle_goto_def av_smaller_def download_work_def trickle_work_def)
  then show ?thesis using av_step.trickle by blast
next
  case (T_return x)
  let ?s = "trickle_goto T_scan s"
  have "av_run scan Ev_go s = Some ?s" "unfailed scan ?s" "(?s, s) \<in> av_smaller"
    using u dpc T_return t by (auto simp: av_run_def unfailed_def trickle_goto_def trickle_inv_def av_smaller_def download_work_def trickle_work_def)
  then show ?thesis using av_step.run by blast
next
  case T_scan
  obtain s' where s': "av_run scan Ev_go s = Some s'" by (simp add: av_run_def T_scan)
  then have "unfailed scan s'" "(s', s) \<in> av_smaller"
    using u dpc T_scan t by (auto simp: av_run_def unfailed_def scans_clean_def trickle_goto_def trickle_inv_def av_smaller_def download_work_def trickle_work_def split: sum.splits)
  then show ?thesis using s' av_step.run by blast
next
  case T_copy
  obtain s' where s': "av_run scan Ev_go s = Some s'" by (simp add: av_run_def T_copy)
  then have "unfailed scan s'" "(s', s) \<in> av_smaller"
    using u dpc T_copy t by (auto simp: av_run_def unfailed_def trickle_goto_def trickle_inv_def av_smaller_def download_work_def trickle_work_def)
  then show ?thesis using s' av_step.run by blast
qed (use t dpc open' in \<open>auto simp: trickle_inv_def\<close>)

lemma av_progress:
  assumes u: "unfailed scan s" and d: "download_inv src s" and t: "trickle_inv scan s" and o: "ts_tpc s \<notin> range T_closed"
  shows "\<exists>s'. av_step interval scan s s' \<and> unfailed scan s' \<and> (s', s) \<in> av_smaller"
proof -
  consider "ts_dpc s = D_ended" | "ts_dpc s = D_idle" | "ts_dpc s \<notin> {D_idle, D_ended}" by blast
  then show ?thesis
  proof cases
    case 1
    then show ?thesis using trickle_progress [OF u d t _ o] by blast
  next
    case 2
    let ?s = "s\<lparr>ts_tpc := T_check, ts_dpc := D_read\<rparr>"
    have "ts_tpc s = T_start" using u 2 by (simp add: unfailed_def)
    then have "av_run scan Ev_go s = Some ?s" "unfailed scan ?s" "(?s, s) \<in> av_smaller"
      using 2 u by (auto simp: av_run_def unfailed_def av_smaller_def download_work_def)
    then show ?thesis using av_step.run by blast
  next
    case 3
    then show ?thesis using download_progress [OF u d 3] av_step.download by blast
  qed
qed

text \<open>
  C32: The reader can always finish.  From every state that is reached while
  nothing has failed, some sequence of steps closes the stream, however the
  download and the trickling were interleaved before: with the whole body and
  no error if the scanner finds the body clean, and with an error if it does not.
\<close>

theorem antivirus_can_finish:
  assumes reach: "(av_step interval scan)\<^sup>*\<^sup>* (newAntivirusTricklingReader src) s" and "unfailed scan s"
  shows "\<exists>s'. (av_step interval scan)\<^sup>*\<^sup>* s s' \<and>
    (if scans_clean scan (read_text src) then ts_tpc s' = T_closed None \<and> ts_out s' = read_text src else \<exists>e. ts_tpc s' = T_closed (Some e))"
proof -
  have "wf av_smaller" by (simp add: av_smaller_def)
  then show ?thesis using assms
  proof (induction s rule: wf_induct_rule)
    case (less s)
    have inv: "download_inv src s" "trickle_inv scan s" using av_reachable_inv [OF less.prems(1)] by simp_all
    show ?case
    proof (cases "ts_tpc s \<in> range T_closed")
      case False
      then obtain s1 where s1: "av_step interval scan s s1" "unfailed scan s1" "(s1, s) \<in> av_smaller" using av_progress [OF less.prems(2) inv] by blast
      from less.IH [OF s1(3) rtranclp.rtrancl_into_rtrancl [OF less.prems(1) s1(1)] s1(2)] s1(1) show ?thesis
        by (meson converse_rtranclp_into_rtranclp)
    next
      case True
      then obtain e where e: "ts_tpc s = T_closed e" by blast
      then have c: "ts_dpc s = D_ended" "ts_doneClosed s" "ts_downloadErr s = None" "e \<noteq> None \<longrightarrow> \<not> scans_clean scan (ts_file s)"
        using less.prems(2) by (auto simp: unfailed_def)
      then have f: "ts_file s = read_text src" using inv(1) eof_text_read [of src "ts_file s"] by (simp add: download_inv_def)
      show ?thesis using e c f inv(2) by (intro exI [of _ s]) (cases e; auto simp: trickle_inv_def)
    qed
  qed
qed

theorem antivirus_can_finish_witness:
  "\<exists>s'. (av_step 1 toy_scan)\<^sup>*\<^sup>* (newAntivirusTricklingReader [Read_result ''ab'' None, Read_result ''c'' (Some io_EOF)]) s' \<and>
     ts_tpc s' = T_closed None \<and> ts_out s' = ''abc''"
proof -
  let ?src = "[Read_result ''ab'' None, Read_result ''c'' (Some io_EOF)]"
  have "unfailed toy_scan (newAntivirusTricklingReader ?src)" by (simp add: unfailed_def newAntivirusTricklingReader_def)
  from antivirus_can_finish [OF rtranclp.rtrancl_refl [of "av_step 1 toy_scan" "newAntivirusTricklingReader ?src"] this]
  show ?thesis by (simp add: scans_clean_def toy_scan_def)
qed

end
