(* ===== verification/Time_Bands.thy ===== *)
theory Time_Bands
  imports Access_Control Message_Writer
begin

text \<open>
  The time lists of \<open>rules.go\<close>: e2guardian bands in which access is forbidden,
  and their subtraction from the schedule windows of every profile.  The
  subtraction reuses the array it reads from for its result, so the model
  keeps that array explicit; the capacity that the runtime gives a copied
  slice is a parameter.
\<close>

section \<open>Parsing\<close>

record listLine =
  ll_Path :: string
  ll_Line :: int
  ll_Text :: string

record e2TimeBand =
  tb_path :: string
  tb_line :: int
  tb_days :: "bool list"
  tb_start :: int
  tb_end :: int

record scheduleInterval =
  si_start :: int
  si_end :: int

text \<open>\<open>strings.Fields\<close>.\<close>

function strings_Fields :: "string \<Rightarrow> string list" where
  "strings_Fields s =
     (let t = dropWhile is_space s
      in if t = [] then [] else takeWhile (\<lambda>c. \<not> is_space c) t # strings_Fields (dropWhile (\<lambda>c. \<not> is_space c) t))"
  by pat_completeness auto
termination
proof (relation "measure length", goal_cases)
  case (2 s t)
  then have "t \<noteq> []" "\<not> is_space (hd t)" using hd_dropWhile [of is_space s] by auto
  then have "length (dropWhile (\<lambda>c. \<not> is_space c) t) < length t"
    by (metis dropWhile.simps(2) le_imp_less_Suc length_Cons length_dropWhile_le list.collapse)
  then show ?case using 2(1) length_dropWhile_le [of is_space s] by simp
qed simp

declare strings_Fields.simps [simp del]

definition parseE2TimePart :: "string \<Rightarrow> int \<Rightarrow> int \<Rightarrow> int result" where
  "parseE2TimePart raw lo hi =
     (case strconv_Atoi raw of
        None \<Rightarrow> Inl (Failure ''invalid syntax'')
      | Some v \<Rightarrow> if v < lo \<or> v > hi then Inl (Failure ''value out of range'') else Inr v)"

definition e2GuardianDayToWeekday :: "char \<Rightarrow> nat option" where
  "e2GuardianDayToWeekday ch =
     map_of [(CHR ''0'', 1), (CHR ''1'', 2), (CHR ''2'', 3), (CHR ''3'', 4), (CHR ''4'', 5), (CHR ''5'', 6), (CHR ''6'', 0)] ch"

fun e2_days :: "string \<Rightarrow> bool list \<Rightarrow> bool list result" where
  "e2_days [] days = Inr days"
| "e2_days (ch # chs) days =
     (case e2GuardianDayToWeekday ch of None \<Rightarrow> Inl (Failure ''invalid timelist day'') | Some day \<Rightarrow> e2_days chs (days[day := True]))"

definition parse_time_band :: "listLine \<Rightarrow> e2TimeBand result" where
  "parse_time_band l =
     (case strings_Fields (ll_Text l) of
        [sh, sm, eh, em, ds] \<Rightarrow>
          rbind (parseE2TimePart sh 0 23) (\<lambda>startHour.
          rbind (parseE2TimePart sm 0 59) (\<lambda>startMin.
          rbind (parseE2TimePart eh 0 23) (\<lambda>endHour.
          rbind (parseE2TimePart em 0 59) (\<lambda>endMin.
          rbind (e2_days ds (replicate 7 False)) (\<lambda>days.
            if days = replicate 7 False then Inl (Failure ''timelist days cannot be empty'')
            else Inr \<lparr>tb_path = ll_Path l, tb_line = ll_Line l, tb_days = days,
                      tb_start = startHour * 60 + startMin, tb_end = endHour * 60 + endMin + 1\<rparr>)))))
      | _ \<Rightarrow> Inl (Failure ''invalid timelist rule''))"

definition parseE2GuardianTimeBands :: "listLine list \<Rightarrow> e2TimeBand list result" where
  "parseE2GuardianTimeBands lines = result_map parse_time_band (filter (\<lambda>l. ll_Text l \<noteq> []) lines)"

definition scheduleWeekday :: "string \<Rightarrow> nat option" where
  "scheduleWeekday value =
     (let d = to_lower (trim_space value)
      in if d \<in> set [''sun'', ''sunday''] then Some 0
         else if d \<in> set [''mon'', ''monday''] then Some 1
         else if d \<in> set [''tue'', ''tues'', ''tuesday''] then Some 2
         else if d \<in> set [''wed'', ''wednesday''] then Some 3
         else if d \<in> set [''thu'', ''thur'', ''thurs'', ''thursday''] then Some 4
         else if d \<in> set [''fri'', ''friday''] then Some 5
         else if d \<in> set [''sat'', ''saturday''] then Some 6
         else None)"

fun schedule_days :: "string list \<Rightarrow> bool list \<Rightarrow> bool list result" where
  "schedule_days [] out = Inr out"
| "schedule_days (raw # days) out =
     (case scheduleWeekday raw of Some day \<Rightarrow> schedule_days days (out[day := True]) | None \<Rightarrow> Inl (Failure ''invalid weekday''))"

definition scheduleWindowDays :: "string list \<Rightarrow> bool list result" where
  "scheduleWindowDays days = (if days = [] then Inr (replicate 7 True) else schedule_days days (replicate 7 False))"

definition parseScheduleClockMinute :: "string \<Rightarrow> int option" where
  "parseScheduleClockMinute value =
     (let (hourText, minuteText, ok) = strings_Cut (trim_space value) colon
      in if \<not> ok then None
         else case strconv_Atoi hourText of
                None \<Rightarrow> None
              | Some hour \<Rightarrow>
                  (case strconv_Atoi minuteText of
                     None \<Rightarrow> None
                   | Some minute \<Rightarrow>
                       if hour = 24 \<and> minute = 0 then Some (24 * 60)
                       else if hour < 0 \<or> hour > 23 \<or> minute < 0 \<or> minute > 59 then None
                       else Some (hour * 60 + minute)))"

definition weekdayName :: "nat \<Rightarrow> string" where
  "weekdayName day = (if day < 7 then [''sun'', ''mon'', ''tue'', ''wed'', ''thu'', ''fri'', ''sat''] ! day else [])"

text \<open>\<open>fmt\<close>'s \<open>%02d\<close>.\<close>

definition fmt_02d :: "int \<Rightarrow> string" where
  "fmt_02d n = (let s = fmt_d n in replicate (2 - length s) (CHR ''0'') @ s)"

definition minuteClock :: "int \<Rightarrow> string" where
  "minuteClock minute = (if minute \<ge> 24 * 60 then ''24:00'' else fmt_02d (minute div 60) @ '':'' @ fmt_02d (minute mod 60))"

section \<open>Subtraction\<close>

definition split_interval :: "scheduleInterval \<Rightarrow> scheduleInterval \<Rightarrow> scheduleInterval list" where
  "split_interval block cur =
     (if si_end block \<le> si_start cur \<or> si_start block \<ge> si_end cur then [cur]
      else (if si_start block > si_start cur then [\<lparr>si_start = si_start cur, si_end = si_start block\<rparr>] else []) @
           (if si_end block < si_end cur then [\<lparr>si_start = si_end block, si_end = si_end cur\<rparr>] else []))"

text \<open>
  \<open>next = append(next, x)\<close> where \<open>next\<close> began as \<open>out[:0]\<close>: while there is
  capacity the element is written into the array that \<open>out\<close> reads from.
\<close>

definition append_shared :: "nat \<Rightarrow> scheduleInterval \<Rightarrow> scheduleInterval list \<times> scheduleInterval list \<Rightarrow> scheduleInterval list \<times> scheduleInterval list" where
  "append_shared capacity x st = (case st of (arr, next) \<Rightarrow> (if length next < capacity then arr[length next := x] else arr, next @ [x]))"

definition subtract_pass :: "nat \<Rightarrow> scheduleInterval \<Rightarrow> scheduleInterval list \<Rightarrow> scheduleInterval list" where
  "subtract_pass capacity block out =
     snd (fold (\<lambda>i st. fold (append_shared capacity) (split_interval block (fst st ! i)) st) [0..<length out] (out, []))"

definition subtractIntervals :: "(nat \<Rightarrow> nat) \<Rightarrow> scheduleInterval list \<Rightarrow> scheduleInterval list \<Rightarrow> scheduleInterval list" where
  "subtractIntervals cap allowed blk = fold (\<lambda>block out. subtract_pass (cap (length out)) block out) blk allowed"

section \<open>Restricting the windows\<close>

definition scheduleProfileNames :: "ScheduleWindow list \<Rightarrow> AccessProfile list \<Rightarrow> string list" where
  "scheduleProfileNames windows profiles =
     (let add = (\<lambda>p out. let p = trim_space p in if p = [] \<or> p \<in> set out then out else out @ [p]);
          out = fold add (map ap_Name profiles @ map sw_Profile windows) []
      in if out = [] then add ''default'' out else out)"

definition add_block :: "nat \<Rightarrow> scheduleInterval \<Rightarrow> scheduleInterval list list \<Rightarrow> scheduleInterval list list" where
  "add_block day x blk = blk[day := blk ! day @ [x]]"

definition block_day :: "e2TimeBand \<Rightarrow> nat \<Rightarrow> scheduleInterval list list \<Rightarrow> scheduleInterval list list" where
  "block_day band day blk =
     (if \<not> tb_days band ! day then blk
      else if tb_end band > tb_start band then add_block day \<lparr>si_start = tb_start band, si_end = min (tb_end band) (24 * 60)\<rparr> blk
      else let blk = add_block day \<lparr>si_start = tb_start band, si_end = 24 * 60\<rparr> blk
           in if tb_end band > 0 then add_block ((day + 1) mod 7) \<lparr>si_start = 0, si_end = tb_end band\<rparr> blk else blk)"

definition blockedIntervalsByDay :: "e2TimeBand list \<Rightarrow> scheduleInterval list list" where
  "blockedIntervalsByDay bands = fold (\<lambda>band. fold (block_day band) [0..<7]) bands (replicate 7 [])"

fun allowed_windows :: "string \<Rightarrow> ScheduleWindow list \<Rightarrow> bool \<times> scheduleInterval list list \<Rightarrow> (bool \<times> scheduleInterval list list) result" where
  "allowed_windows profile [] st = Inr st"
| "allowed_windows profile (window # ws) st =
     (if sw_Profile window \<noteq> profile then allowed_windows profile ws st
      else case (parseScheduleClockMinute (sw_Start window), parseScheduleClockMinute (sw_End window)) of
             (Some start, Some end) \<Rightarrow>
               if end \<le> start then Inl (Failure ''invalid window'')
               else rbind (scheduleWindowDays (sw_Days window)) (\<lambda>days.
                 allowed_windows profile ws (True, map2 (\<lambda>active is. if active then is @ [\<lparr>si_start = start, si_end = end\<rparr>] else is) days (snd st)))
           | _ \<Rightarrow> Inl (Failure ''invalid window''))"

definition allowedIntervalsByDay :: "string \<Rightarrow> ScheduleWindow list \<Rightarrow> scheduleInterval list list result" where
  "allowedIntervalsByDay profile windows =
     rbind (allowed_windows profile windows (False, replicate 7 [])) (\<lambda>(hasProfileWindows, allowed).
       Inr (if hasProfileWindows then allowed else replicate 7 [\<lparr>si_start = 0, si_end = 24 * 60\<rparr>]))"

definition day_windows :: "(nat \<Rightarrow> nat) \<Rightarrow> string \<Rightarrow> scheduleInterval list list \<Rightarrow> scheduleInterval list list \<Rightarrow> nat \<Rightarrow> ScheduleWindow list" where
  "day_windows cap profile allowed blk day =
     map (\<lambda>i. \<lparr>sw_Profile = profile, sw_Days = [weekdayName day], sw_Start = minuteClock (si_start i), sw_End = minuteClock (si_end i)\<rparr>)
       (filter (\<lambda>i. si_start i < si_end i) (subtractIntervals cap (allowed ! day) (blk ! day)))"

definition restrictScheduleWindowsByTimeBands ::
  "(nat \<Rightarrow> nat) \<Rightarrow> ScheduleWindow list \<Rightarrow> AccessProfile list \<Rightarrow> e2TimeBand list \<Rightarrow> ScheduleWindow list result" where
  "restrictScheduleWindowsByTimeBands cap windows profiles bands =
     (let blk = blockedIntervalsByDay bands
      in rbind (result_map (\<lambda>profile. rbind (allowedIntervalsByDay profile windows) (\<lambda>allowed.
           Inr (concat (map (day_windows cap profile allowed blk) [0..<7])))) (scheduleProfileNames windows profiles)) (\<lambda>outs. Inr (concat outs)))"

section \<open>What subtraction keeps\<close>

definition in_interval :: "int \<Rightarrow> scheduleInterval \<Rightarrow> bool" where
  "in_interval m i \<longleftrightarrow> si_start i \<le> m \<and> m < si_end i"

definition covers :: "int \<Rightarrow> scheduleInterval list \<Rightarrow> bool" where
  "covers m is \<longleftrightarrow> list_ex (in_interval m) is"

lemma covers_simps [simp]: "\<not> covers m []" "covers m (x # xs) \<longleftrightarrow> in_interval m x \<or> covers m xs" "covers m (xs @ ys) \<longleftrightarrow> covers m xs \<or> covers m ys"
  by (simp_all add: covers_def)

lemma covers_split: "covers m (split_interval block cur) \<longleftrightarrow> in_interval m cur \<and> \<not> in_interval m block"
  if "si_start block < si_end block"
  using that by (auto simp: split_interval_def in_interval_def)

lemma split_safe: "x \<in> set (split_interval block cur) \<Longrightarrow> in_interval m x \<Longrightarrow> in_interval m cur \<and> \<not> in_interval m block"
  by (auto simp: split_interval_def in_interval_def split: if_splits)

lemma split_range: "x \<in> set (split_interval block cur) \<Longrightarrow> lo \<le> si_start cur \<Longrightarrow> si_end cur \<le> hi \<Longrightarrow> lo \<le> si_start x \<and> si_end x \<le> hi"
  by (auto simp: split_interval_def split: if_splits)

text \<open>
  A property of intervals that splitting keeps holds of the whole result, and
  one that splitting establishes holds of it too, although the array is overwritten.
\<close>

lemma append_shared_inv:
  "\<forall>x\<in>set xs. P x \<and> Q x \<Longrightarrow> \<forall>x\<in>set arr. P x \<Longrightarrow> \<forall>x\<in>set next. Q x \<Longrightarrow> fold (append_shared capacity) xs (arr, next) = (arr', next') \<Longrightarrow>
     length arr' = length arr \<and> (\<forall>x\<in>set arr'. P x) \<and> (\<forall>x\<in>set next'. Q x)"
proof (induction xs arbitrary: arr "next")
  case (Cons x xs)
  define arr1 where "arr1 = (if length next < capacity then arr[length next := x] else arr)"
  have l: "length arr1 = length arr" by (simp add: arr1_def)
  have p: "\<forall>y\<in>set arr1. P y" using Cons(2,3) set_update_subset_insert [of arr "length next" x] by (auto simp: arr1_def)
  have f: "fold (append_shared capacity) xs (arr1, next @ [x]) = (arr', next')"
    using Cons(5) by (simp only: fold_simps arr1_def append_shared_def [of capacity x "(arr, next)"] prod.case)
  show ?case using Cons(1) [OF _ p _ f] Cons(2,4) l by simp
qed simp

lemma subtract_pass_inv:
  assumes split: "\<And>x y. P x \<Longrightarrow> y \<in> set (split_interval block x) \<Longrightarrow> P y \<and> Q y" and out: "\<forall>x\<in>set out. P x"
  shows "\<forall>y\<in>set (subtract_pass capacity block out). Q y"
proof -
  have "length (fst st) = length out \<Longrightarrow> \<forall>x\<in>set (fst st). P x \<Longrightarrow> \<forall>x\<in>set (snd st). Q x \<Longrightarrow> \<forall>i\<in>set is. i < length out \<Longrightarrow>
    \<forall>y\<in>set (snd (fold (\<lambda>i st. fold (append_shared capacity) (split_interval block (fst st ! i)) st) is st)). Q y" for "is" st
  proof (induction "is" arbitrary: st)
    case (Cons i "is")
    obtain arr "next" where st: "st = (arr, next)" by fastforce
    obtain arr' next' where st': "fold (append_shared capacity) (split_interval block (arr ! i)) (arr, next) = (arr', next')" by fastforce
    have "P (arr ! i)" using Cons.prems st by auto
    then have "\<forall>x\<in>set (split_interval block (arr ! i)). P x \<and> Q x" using split by blast
    from append_shared_inv [OF this _ _ st'] Cons.prems st
    have "length arr' = length out \<and> (\<forall>x\<in>set arr'. P x) \<and> (\<forall>x\<in>set next'. Q x)" by auto
    then show ?case using Cons.IH [of "(arr', next')"] Cons.prems st st' by simp
  qed simp
  from this [of "(out, [])" "[0..<length out]"] show ?thesis using out by (simp add: subtract_pass_def)
qed

text \<open>The subtraction never leaves a minute that was not allowed or that is blocked, and stays in the range of the windows.\<close>

lemma subtractIntervals_safe: "covers m (subtractIntervals cap allowed blk) \<Longrightarrow> covers m allowed \<and> \<not> covers m blk"
proof (induction blk arbitrary: allowed)
  case (Cons block blk)
  let ?next = "subtract_pass (cap (length allowed)) block allowed"
  have c: "covers m ?next" "\<not> covers m blk" using Cons by (auto simp: subtractIntervals_def)
  have "\<forall>y\<in>set ?next. in_interval m y \<longrightarrow> covers m allowed \<and> \<not> in_interval m block"
    by (rule subtract_pass_inv [where P = "\<lambda>x. in_interval m x \<longrightarrow> covers m allowed"]) (use split_safe in \<open>auto simp: covers_def list_ex_iff\<close>)
  then show ?case using c by (auto simp: covers_def list_ex_iff)
qed (simp add: subtractIntervals_def)

lemma subtractIntervals_range:
  "\<forall>i\<in>set allowed. lo \<le> si_start i \<and> si_end i \<le> hi \<Longrightarrow> \<forall>i\<in>set (subtractIntervals cap allowed blk). lo \<le> si_start i \<and> si_end i \<le> hi"
proof (induction blk arbitrary: allowed)
  case (Cons block blk)
  have keep: "(lo \<le> si_start y \<and> si_end y \<le> hi) \<and> lo \<le> si_start y \<and> si_end y \<le> hi"
    if "lo \<le> si_start x \<and> si_end x \<le> hi" "y \<in> set (split_interval block x)" for x y
    using split_range [OF that(2), of lo hi] that(1) by simp
  have "\<forall>y\<in>set (subtract_pass (cap (length allowed)) block allowed). lo \<le> si_start y \<and> si_end y \<le> hi"
    using subtract_pass_inv [where P = "\<lambda>x. lo \<le> si_start x \<and> si_end x \<le> hi" and Q = "\<lambda>x. lo \<le> si_start x \<and> si_end x \<le> hi"] keep Cons(2) by blast
  from Cons(1) [OF this] show ?case by (simp only: subtractIntervals_def fold_simps)
qed (simp add: subtractIntervals_def)

text \<open>
  Two windows and a band inside the first: the second half of the first window
  is written over the second window before that is read, so the second window is lost.
\<close>

definition si :: "int \<Rightarrow> int \<Rightarrow> scheduleInterval" where
  "si a b = \<lparr>si_start = a, si_end = b\<rparr>"

lemma subtraction_loses_window:
  "subtractIntervals (\<lambda>n. n) [si 480 840, si 960 1200] [si 600 660] = [si 480 600, si 660 840, si 660 840] \<and>
   covers 1000 [si 480 840, si 960 1200] \<and> \<not> covers 1000 [si 600 660] \<and>
   \<not> covers 1000 (subtractIntervals (\<lambda>n. n) [si 480 840, si 960 1200] [si 600 660])"
  by code_simp

section \<open>What the restricted schedule allows\<close>

text \<open>The minute of the day, as the schedule rules compute it.\<close>

definition clock_minute :: "wall_clock \<Rightarrow> int" where
  "clock_minute now = int (ck_Hour now) * 60 + int (ck_Minute now)"

text \<open>
  The reading of a band: on each of its days it lasts from its start to its
  end, and to the end on the next day if it does not end after its start.
\<close>

definition band_forbids :: "e2TimeBand \<Rightarrow> nat \<Rightarrow> nat \<Rightarrow> int \<Rightarrow> bool" where
  "band_forbids b day d m \<longleftrightarrow> tb_days b ! day \<and>
     (d = day \<and> tb_start b \<le> m \<and> (m < tb_end b \<or> tb_end b \<le> tb_start b) \<or>
      d = (day + 1) mod 7 \<and> tb_end b \<le> tb_start b \<and> m < tb_end b)"

definition band_blocks :: "e2TimeBand \<Rightarrow> wall_clock \<Rightarrow> bool" where
  "band_blocks b now \<longleftrightarrow> list_ex (\<lambda>day. band_forbids b day (ck_Weekday now) (clock_minute now)) [0..<7]"

lemma parseScheduleClockMinute_eq: "parseScheduleClockMinute v = (case parseClockMinute v of Inr m \<Rightarrow> Some m | Inl _ \<Rightarrow> None)"
  by (auto simp: parseScheduleClockMinute_def parseClockMinute_def strings_Cut_def Let_def split: option.splits)

lemma scheduleWeekday_eq: "scheduleWeekday v = (case parseWeekday v of Inr d \<Rightarrow> Some d | Inl _ \<Rightarrow> None)"
  by (simp add: scheduleWeekday_def parseWeekday_def Let_def)

lemma schedule_days_set_days: "schedule_days ds days = Inr out \<Longrightarrow> set_days ds days = Inr out"
  by (induction ds arbitrary: days) (auto simp: scheduleWeekday_eq rbind_eq_Inr split: sum.splits option.splits)

lemma scheduleWindowDays_spec:
  assumes "scheduleWindowDays ds = Inr days"
  shows "length days = 7 \<and> (\<forall>k<7. days ! k \<longleftrightarrow> ds = [] \<or> list_ex (\<lambda>d. parseWeekday d = Inr k) ds)"
proof (cases "ds = []")
  case False
  then have "set_days ds (replicate 7 False) = Inr days" using assms schedule_days_set_days by (simp add: scheduleWindowDays_def)
  from set_days_spec [OF this] False show ?thesis by simp
qed (use assms in \<open>auto simp: scheduleWindowDays_def\<close>)

lemma weekdayName_parses: "d < 7 \<Longrightarrow> parseWeekday (weekdayName d) = Inr d"
proof -
  assume "d < 7"
  moreover have "list_all (\<lambda>d. parseWeekday (weekdayName d) = Inr d) [0..<7]" by code_simp
  ultimately show ?thesis by (simp add: list_all_iff)
qed

text \<open>Clock times are printed so that they are read back.\<close>

definition two_digits :: "int \<Rightarrow> bool" where
  "two_digits n \<longleftrightarrow> (case fmt_02d n of [a, b] \<Rightarrow> is_digit a \<and> is_digit b | _ \<Rightarrow> False) \<and> strconv_Atoi (fmt_02d n) = Some n"

lemma two_digits_minute: "0 \<le> n \<Longrightarrow> n < 60 \<Longrightarrow> two_digits n"
proof -
  assume "0 \<le> n" "n < 60"
  moreover have "list_all two_digits [0..59]" by code_simp
  ultimately show ?thesis by (simp add: list_all_iff)
qed

lemma digit_chars: "is_digit a \<Longrightarrow> \<not> is_space a \<and> a \<noteq> colon"
  by (auto simp: is_digit_def is_space_def less_eq_char_def)

lemma minuteClock_parses:
  assumes "0 \<le> m" "m \<le> 1440"
  shows "parseClockMinute (minuteClock m) = Inr m"
proof (cases "m = 1440")
  case True
  have "parseClockMinute (minuteClock 1440) = Inr 1440" by code_simp
  then show ?thesis using True by simp
next
  case False
  define h n where hn: "h = m div 60" "n = m mod 60"
  have r: "0 \<le> h" "h < 24" "0 \<le> n" "n < 60" using assms False by (auto simp: hn)
  then have "two_digits h" "two_digits n" by (simp_all add: two_digits_minute)
  then obtain a b c d where f: "fmt_02d h = [a, b]" "fmt_02d n = [c, d]" "is_digit a" "is_digit b" "is_digit c" "is_digit d"
    "strconv_Atoi [a, b] = Some h" "strconv_Atoi [c, d] = Some n"
    by (auto simp: two_digits_def split: list.splits)
  have t: "trim_space [a, b, colon, c, d] = [a, b, colon, c, d]" using digit_chars [OF f(3)] digit_chars [OF f(6)]
    by (simp add: trim_space_def trim_right_if_def)
  have i: "index_byte [a, b, colon, c, d] colon = Some 2" using digit_chars [OF f(3)] digit_chars [OF f(4)] by simp
  have "minuteClock m = [a, b, colon, c, d]" using assms False f(1,2) by (simp add: minuteClock_def hn)
  moreover have "h * 60 + n = m" by (simp add: hn)
  ultimately show ?thesis using r f(7,8) t i by (simp add: parseClockMinute_def)
qed

lemma covers_add_block:
  "day < length blk \<Longrightarrow> d < length blk \<Longrightarrow> covers m (add_block day x blk ! d) \<longleftrightarrow> covers m (blk ! d) \<or> d = day \<and> in_interval m x"
  by (auto simp: add_block_def nth_list_update)

lemma block_day_length [simp]: "length (block_day b day blk) = length blk"
  by (simp add: block_day_def add_block_def Let_def)

lemma covers_block_day:
  assumes "length blk = 7" "day < 7" "d < 7" "0 \<le> m" "m < 1440"
  shows "covers m (block_day b day blk ! d) \<longleftrightarrow> covers m (blk ! d) \<or> band_forbids b day d m"
proof -
  have l: "length (add_block k x blk) = 7" for k x using assms(1) by (simp add: add_block_def)
  have n: "(day + 1) mod 7 < 7" by simp
  show ?thesis using assms l n
    by (auto simp: block_day_def band_forbids_def Let_def covers_add_block in_interval_def simp del: One_nat_def)
qed

lemma covers_block_days:
  assumes "d < 7" "0 \<le> m" "m < 1440"
  shows "list_all (\<lambda>k. k < 7) days \<Longrightarrow> length blk = 7 \<Longrightarrow>
    length (fold (block_day b) days blk) = 7 \<and>
    (covers m (fold (block_day b) days blk ! d) \<longleftrightarrow> covers m (blk ! d) \<or> list_ex (\<lambda>day. band_forbids b day d m) days)"
  by (induction days arbitrary: blk) (auto simp: covers_block_day assms)

lemma covers_blocked:
  assumes "ck_Weekday now < 7" "clock_minute now < 1440"
  shows "covers (clock_minute now) (blockedIntervalsByDay bands ! ck_Weekday now) \<longleftrightarrow> list_ex (\<lambda>b. band_blocks b now) bands"
proof -
  have m: "0 \<le> clock_minute now" by (simp add: clock_minute_def)
  have days: "list_all (\<lambda>k. k < 7) [0..<7]" by (simp add: list_all_iff)
  have "length blk = 7 \<Longrightarrow> covers (clock_minute now) (fold (\<lambda>band. fold (block_day band) [0..<7]) bands blk ! ck_Weekday now) \<longleftrightarrow>
      covers (clock_minute now) (blk ! ck_Weekday now) \<or> list_ex (\<lambda>b. band_blocks b now) bands" for blk
  proof (induction bands arbitrary: blk)
    case (Cons b bands)
    from covers_block_days [OF assms(1) m assms(2) days Cons.prems, of b] Cons.IH show ?case
      by (simp add: band_blocks_def del: upt_Suc)
  qed simp
  from this [of "replicate 7 []"] show ?thesis using assms(1) by (simp add: blockedIntervalsByDay_def)
qed

lemma allowed_windows_spec:
  assumes "ck_Weekday now < 7"
  shows "allowed_windows profile ws (has, al) = Inr (has', al') \<Longrightarrow> length al = 7 \<Longrightarrow>
    length al' = 7 \<and> (has' \<longleftrightarrow> has \<or> list_ex (\<lambda>w. sw_Profile w = profile) ws) \<and>
    (covers (clock_minute now) (al' ! ck_Weekday now) \<longrightarrow>
       covers (clock_minute now) (al ! ck_Weekday now) \<or> list_ex (\<lambda>w. sw_Profile w = profile \<and> window_covers w now) ws)"
proof (induction ws arbitrary: has al)
  case (Cons w ws)
  show ?case
  proof (cases "sw_Profile w = profile")
    case True
    obtain start fin days where w: "parseClockMinute (sw_Start w) = Inr start" "parseClockMinute (sw_End w) = Inr fin"
      "scheduleWindowDays (sw_Days w) = Inr days"
      "allowed_windows profile ws (True, map2 (\<lambda>active is. if active then is @ [\<lparr>si_start = start, si_end = fin\<rparr>] else is) days al) = Inr (has', al')"
      using Cons.prems(1) True by (auto simp: parseScheduleClockMinute_eq rbind_eq_Inr split: option.splits sum.splits if_splits)
    note d = scheduleWindowDays_spec [OF w(3)]
    have "days ! ck_Weekday now \<and> in_interval (clock_minute now) \<lparr>si_start = start, si_end = fin\<rparr> \<longrightarrow> window_covers w now"
      using d assms w(1,2) by (simp add: window_covers_def in_interval_def clock_minute_def)
    then show ?thesis using Cons.IH [OF w(4)] d Cons.prems(2) True assms by (auto split: if_splits)
  qed (use Cons in auto)
qed auto

lemma allowed_windows_range:
  "allowed_windows profile ws (has, al) = Inr (has', al') \<Longrightarrow>
     \<forall>is\<in>set al. \<forall>i\<in>set is. 0 \<le> si_start i \<and> si_end i \<le> 1440 \<Longrightarrow> \<forall>is\<in>set al'. \<forall>i\<in>set is. 0 \<le> si_start i \<and> si_end i \<le> 1440"
proof (induction ws arbitrary: has al)
  case (Cons w ws)
  show ?case
  proof (cases "sw_Profile w = profile")
    case True
    obtain start fin days where w: "parseClockMinute (sw_Start w) = Inr start" "parseClockMinute (sw_End w) = Inr fin"
      "allowed_windows profile ws (True, map2 (\<lambda>active is. if active then is @ [\<lparr>si_start = start, si_end = fin\<rparr>] else is) days al) = Inr (has', al')"
      using Cons.prems(1) True by (auto simp: parseScheduleClockMinute_eq rbind_eq_Inr split: option.splits sum.splits if_splits)
    note r = parseClockMinute_range [OF w(1)] parseClockMinute_range [OF w(2)]
    have "\<forall>is\<in>set (map2 (\<lambda>active is. if active then is @ [\<lparr>si_start = start, si_end = fin\<rparr>] else is) days al). \<forall>i\<in>set is. 0 \<le> si_start i \<and> si_end i \<le> 1440"
      using Cons.prems(2) r by (fastforce dest: set_zip_rightD split: if_splits)
    from Cons.IH [OF w(3) this] show ?thesis .
  qed (use Cons in auto)
qed simp

lemma allowedIntervalsByDay_spec:
  assumes "allowedIntervalsByDay profile windows = Inr allowed" "ck_Weekday now < 7"
  shows "length allowed = 7 \<and> (\<forall>is\<in>set allowed. \<forall>i\<in>set is. 0 \<le> si_start i \<and> si_end i \<le> 1440) \<and>
    (covers (clock_minute now) (allowed ! ck_Weekday now) \<longrightarrow>
       list_all (\<lambda>w. sw_Profile w \<noteq> profile) windows \<or> list_ex (\<lambda>w. sw_Profile w = profile \<and> window_covers w now) windows)"
proof -
  obtain has al where a: "allowed_windows profile windows (False, replicate 7 []) = Inr (has, al)"
    "allowed = (if has then al else replicate 7 [\<lparr>si_start = 0, si_end = 24 * 60\<rparr>])"
    using assms(1) by (auto simp: allowedIntervalsByDay_def rbind_eq_Inr)
  show ?thesis
    using allowed_windows_spec [OF assms(2) a(1)] allowed_windows_range [OF a(1)] a(2) assms(2)
    by (auto simp: list_all_iff list_ex_iff)
qed

text \<open>One window of the restricted schedule.\<close>

lemma restricted_window:
  assumes "restrictScheduleWindowsByTimeBands cap windows profiles bands = Inr out" "w \<in> set out" "window_covers w now"
    and now: "ck_Weekday now < 7" "clock_minute now < 1440"
  shows "list_all (\<lambda>b. \<not> band_blocks b now) bands \<and>
    (list_all (\<lambda>v. sw_Profile v \<noteq> sw_Profile w) windows \<or> list_ex (\<lambda>v. sw_Profile v = sw_Profile w \<and> window_covers v now) windows)"
proof -
  let ?blk = "blockedIntervalsByDay bands"
  obtain outs where outs: "list_all2 (\<lambda>profile ws. rbind (allowedIntervalsByDay profile windows) (\<lambda>allowed.
      Inr (concat (map (day_windows cap profile allowed ?blk) [0..<7]))) = Inr ws) (scheduleProfileNames windows profiles) outs" "out = concat outs"
    using assms(1) by (auto simp: restrictScheduleWindowsByTimeBands_def Let_def rbind_eq_Inr result_map_Inr)
  then obtain ws where "ws \<in> set outs" and "w \<in> set ws" using assms(2) by auto
  then obtain k where k: "k < length outs" "outs ! k = ws" by (auto simp: in_set_conv_nth)
  define profile where "profile = scheduleProfileNames windows profiles ! k"
  have "rbind (allowedIntervalsByDay profile windows) (\<lambda>allowed. Inr (concat (map (day_windows cap profile allowed ?blk) [0..<7]))) = Inr ws"
    using list_all2_nthD2 [OF outs(1) k(1)] unfolding k(2) profile_def .
  then obtain allowed where "allowedIntervalsByDay profile windows = Inr allowed" "ws = concat (map (day_windows cap profile allowed ?blk) [0..<7])"
    by (auto simp: rbind_eq_Inr)
  with \<open>w \<in> set ws\<close> obtain day where a: "allowedIntervalsByDay profile windows = Inr allowed" "day < 7" "w \<in> set (day_windows cap profile allowed ?blk day)"
    by (auto simp del: upt_Suc)
  note al = allowedIntervalsByDay_spec [OF a(1) now(1)]
  obtain i where i: "i \<in> set (subtractIntervals cap (allowed ! day) (?blk ! day))" "si_start i < si_end i"
    "w = \<lparr>sw_Profile = profile, sw_Days = [weekdayName day], sw_Start = minuteClock (si_start i), sw_End = minuteClock (si_end i)\<rparr>"
    using a(3) by (auto simp: day_windows_def)
  have "allowed ! day \<in> set allowed" using al a(2) by simp
  then have "\<forall>j\<in>set (allowed ! day). 0 \<le> si_start j \<and> si_end j \<le> 1440" using al by blast
  from subtractIntervals_range [OF this] i(1) have "0 \<le> si_start i" "si_end i \<le> 1440" by blast+
  then have "day = ck_Weekday now \<and> in_interval (clock_minute now) i"
    using assms(3) i(2) a(2) by (simp add: i(3) window_covers_def weekdayName_parses minuteClock_parses in_interval_def clock_minute_def)
  then have d: "day = ck_Weekday now" "covers (clock_minute now) (subtractIntervals cap (allowed ! day) (?blk ! day))"
    using i(1) by (auto simp: covers_def list_ex_iff)
  show ?thesis using subtractIntervals_safe [OF d(2)] al covers_blocked [OF now, of bands] d(1) i(3)
    by (auto simp: list_all_iff list_ex_iff)
qed

text \<open>
  C35: Time lists are respected.  Take the schedule rules built from the windows
  that the time lists leave.  Whenever they let a profile in that has kept a
  window, no band of the lists forbids that weekday and minute, bands over
  midnight included, and the profile had no windows of its own or one of them
  covers that time.
\<close>

theorem time_bands_respected:
  assumes "restrictScheduleWindowsByTimeBands cap windows profiles bands = Inr out" "NewScheduleRules out = Inr rules"
    and "ck_Weekday now < 7" "clock_minute now < 1440"
    and "list_ex (\<lambda>w. sw_Profile w = profile) out" "ScheduleRules_Allowed (Some rules) profile now"
  shows "list_all (\<lambda>b. \<not> band_blocks b now) bands \<and>
    (list_all (\<lambda>w. sw_Profile w \<noteq> profile) windows \<or> list_ex (\<lambda>w. sw_Profile w = profile \<and> window_covers w now) windows)"
proof -
  obtain w where "w \<in> set out" "sw_Profile w = profile" "window_covers w now"
    using assms(5,6) ScheduleRules_Allowed_iff [OF assms(2,3)] by (auto simp: list_all_iff list_ex_iff)
  then show ?thesis using restricted_window [OF assms(1) _ _ assms(3,4)] by blast
qed

definition pupil_window :: ScheduleWindow where
  "pupil_window = \<lparr>sw_Profile = ''pupils'', sw_Days = [''mon''], sw_Start = ''08:00'', sw_End = ''20:00''\<rparr>"

definition night_lines :: "listLine list" where
  "night_lines = [\<lparr>ll_Path = ''t'', ll_Line = 1, ll_Text = ''18 0 7 59 0''\<rparr>]"

theorem time_bands_respected_witness:
  "\<exists>bands out rules. parseE2GuardianTimeBands night_lines = Inr bands \<and>
     restrictScheduleWindowsByTimeBands (\<lambda>n. n) [pupil_window] [] bands = Inr out \<and> NewScheduleRules out = Inr rules \<and>
     ScheduleRules_Allowed (Some rules) ''pupils'' \<lparr>ck_Weekday = 1, ck_Hour = 17, ck_Minute = 59\<rparr> \<and>
     \<not> ScheduleRules_Allowed (Some rules) ''pupils'' \<lparr>ck_Weekday = 1, ck_Hour = 18, ck_Minute = 0\<rparr> \<and>
     list_all (\<lambda>b. \<not> band_blocks b \<lparr>ck_Weekday = 1, ck_Hour = 17, ck_Minute = 59\<rparr>) bands"
proof -
  let ?at = "\<lambda>h m. \<lparr>ck_Weekday = 1, ck_Hour = h, ck_Minute = m\<rparr>"
  have "case parseE2GuardianTimeBands night_lines of Inl _ \<Rightarrow> False | Inr bands \<Rightarrow>
    (case restrictScheduleWindowsByTimeBands (\<lambda>n. n) [pupil_window] [] bands of Inl _ \<Rightarrow> False | Inr out \<Rightarrow>
    (case NewScheduleRules out of Inl _ \<Rightarrow> False | Inr rules \<Rightarrow>
       list_ex (\<lambda>w. sw_Profile w = ''pupils'') out \<and> ScheduleRules_Allowed (Some rules) ''pupils'' (?at 17 59) \<and>
       \<not> ScheduleRules_Allowed (Some rules) ''pupils'' (?at 18 0)))" by code_simp
  then obtain bands out rules where r: "parseE2GuardianTimeBands night_lines = Inr bands"
    "restrictScheduleWindowsByTimeBands (\<lambda>n. n) [pupil_window] [] bands = Inr out" "NewScheduleRules out = Inr rules"
    "list_ex (\<lambda>w. sw_Profile w = ''pupils'') out" "ScheduleRules_Allowed (Some rules) ''pupils'' (?at 17 59)"
    "\<not> ScheduleRules_Allowed (Some rules) ''pupils'' (?at 18 0)" by (auto split: sum.splits)
  have "ck_Weekday (?at 17 59) < 7" "clock_minute (?at 17 59) < 1440" by (simp_all add: clock_minute_def)
  from time_bands_respected [OF r(2,3) this r(4,5)] r show ?thesis by blast
qed

text \<open>A profile whose windows are all forbidden keeps none, and is then let in at any time.\<close>

lemma fully_blocked_profile_allowed:
  "(case restrictScheduleWindowsByTimeBands (\<lambda>n. n) [pupil_window] []
       [\<lparr>tb_path = ''t'', tb_line = 1, tb_days = replicate 7 True, tb_start = 0, tb_end = 1440\<rparr>] of
      Inl _ \<Rightarrow> False
    | Inr out \<Rightarrow> (case NewScheduleRules out of Inl _ \<Rightarrow> False
        | Inr rules \<Rightarrow> ScheduleRules_Allowed (Some rules) ''pupils'' \<lparr>ck_Weekday = 0, ck_Hour = 3, ck_Minute = 0\<rparr>))"
  by code_simp

end
