(* ===== verification/Spec2Isabelle.thy ===== *)
theory Spec2Isabelle
  imports Policy Message_Writer Rate_Limiter Upstream_Pool Server Relay Trickle Time_Bands
begin

text \<open>
  A verification development of LucidGate, a filtering HTTPS proxy written in Go.

  The program.  A client sends \<open>CONNECT\<close> or a plain request to \<open>Server.ServeHTTP\<close>
  (\<open>proxy/server.go\<close>), which finds the client's profile, its schedule, its rate
  limit, the verdict of the policy on the destination and a connection permit.
  Inside an intercepted tunnel \<open>relayHTTPConnLease\<close> (\<open>proxy/relay.go\<close>) reads one
  request after the other, rewrites it, asks the policy, leases an upstream
  connection, forwards the request, and writes the response through the content
  filters and the antivirus.  The rules come from the configuration and from
  e2guardian lists (\<open>rules.go\<close>, \<open>list_loader.go\<close>).

  Conventions.  Go strings and byte slices are \<open>string\<close>.  A function that
  can panic returns an option, with \<open>None\<close> for the panic; an error is \<open>Inl\<close> of
  the type \<open>result\<close>.  Go maps are association lists, in the order of an
  iteration where the code iterates.  Times and durations are integers.
  Packages outside the repository are parameters: \<open>go_lib\<close> (regular
  expressions, URL and address parsing), \<open>bart\<close> and \<open>bart_map\<close> (prefix tables),
  \<open>sem_ops\<close> (the weighted semaphore), the dial function, the resolver, the
  scanner.  Where a theorem needs their documented law, the law is a
  hypothesis, and a witness satisfies it with an executable instance.

  Shared theories.  \<open>Gate_Prelude\<close>: strings, options, results.  \<open>Go_Lib\<close>:
  headers, host and port, the library parameters.

  The policy.
  \<open>Domain_Trie\<close> (\<open>proxy/domain_rules.go\<close>, \<open>proxy/matchers.go\<close>): building,
  flattening and searching the trie of domains; it matches exactly the listed
  domains and their subdomains.  \<open>Domain_Rules\<close>: the precedence of the lists.
  \<open>Policy_Rules\<close> and \<open>Policy\<close> (\<open>proxy/policy.go\<close>): header, cookie, IP, file, URL,
  log and referer rules, and their composition: when a request is blocked, what
  rewriting leaves alone, when logging is suppressed.

  The content filters.
  \<open>Stream_Engine\<close>: the inspecting reader of \<open>proxy/relay.go\<close> and the contract
  \<open>stream_filter\<close> of a filter, by which a stream depends on the bytes only and
  not on how they arrive.  \<open>Phrase_Filter\<close> (\<open>proxy/semantic_filter.go\<close>),
  \<open>Masking_Filter\<close>, \<open>Inject_Magic\<close>, \<open>Html_Filter\<close> and \<open>Substitution_Filter\<close> (the
  files of these names): each filter against its specification.
  \<open>Content_Types\<close> and \<open>Filter_Chain\<close>: which filters a body gets, and what their
  composition does.

  Messages and connections.
  \<open>Message_Writer\<close> (\<open>proxy/relay.go\<close>): framing of requests and responses; a chunked
  body decodes to the body.  \<open>Upstream_Pool\<close> (\<open>proxy/upstream_pool.go\<close>): every
  connection is leased, idle or closed, over all sequences of operations.
  \<open>Dialing\<close> (\<open>proxy/dns.go\<close>, \<open>proxy/breaker.go\<close>, \<open>proxy/altsvc.go\<close>): the address
  that is dialled is the one the IP rules have seen.  \<open>Relay\<close>: the loop of a
  tunnel as a function from the results of its reads, writes and deadlines to a
  trace of events, and what every trace satisfies.

  Admission.
  \<open>Access_Control\<close> (\<open>proxy/access_rules.go\<close>, \<open>proxy/schedule_rules.go\<close>): profiles and
  schedules.  \<open>Time_Bands\<close> (\<open>rules.go\<close>): the subtraction of forbidden time bands
  from the schedules, with the array the code shares between its input and its
  result.  \<open>Rate_Limiter\<close> (\<open>proxy/rate_limiter.go\<close>): the linked list refines a
  least-recently-used table.  \<open>Conn_Limiter\<close> (\<open>proxy/server.go\<close>): permits.
  \<open>Audit_Scope\<close> (\<open>proxy/audit_scope.go\<close>): classes of hosts and what the relay may do
  with each.  \<open>Server\<close>: \<open>ServeHTTP\<close>, which composes them.

  The antivirus (\<open>proxy/antivirus.go\<close>).
  \<open>Antivirus\<close>: the ClamAV client.  \<open>Trickle\<close>: the goroutines that download a body,
  trickle it to the client and scan it, as the step relation \<open>av_step\<close>; what
  the client can have before the verdict, and that the reader can finish.

  Bounds.  Loops are structural or have a termination proof; the eviction
  of the audit scope is a partial function with a theorem that it returns.
  Trie indexes are 32-bit words, with a hypothesis that the lists fit; phrase
  scores are 32-bit words with wrap-around.  The relay runs over a list of
  exchanges of any length.  Two loops have fuel: the queue of the phrase
  automaton, one step per node of the trie, and the replacement of literals, one
  more than the bytes it searches.  \<open>Phrase_Filter\<close> and \<open>Substitution_Filter\<close> prove
  that these amounts are always enough.

  Not modelled.  The handlers after admission other than the tunnel relay, and
  the byte pump of an upgraded WebSocket: TLS, HTTP/2 and HTTP/3 servers and
  sockets.  The decoding of the configuration and of most lists: a TOML package
  and the file system.  The content of log and dump records, and
  decompression.  Certificates (\<open>pki\<close>) and TLS fingerprints (\<open>stealth\<close>): calls of
  cryptographic packages.  Metrics, tracing, process upgrade, \<open>main.go\<close> and
  \<open>bench\<close>.  Buffer pools, and the locks of components whose operations are single
  steps here.
\<close>

end
